(* ===== verification/SAT_Prelude.thy ===== *)
theory SAT_Prelude
  imports Main
begin

text \<open>
  Shared vocabulary of the development: the types that name C arrays and
  \<open>std::set<int>\<close> objects, the two literal decoders every routine of
  \<open>src/sat.cpp\<close> repeats inline, the model of \<open>std::set<int>::insert\<close>, and
  the counting lemmas the invariant proofs of the components share.

  A C array \<open>int *a\<close> is modelled by its cells, \<open>int \<Rightarrow> int\<close>, indexed by the
  C index expression itself. Every array owns its cells at every index, so
  an access outside the allocated range (undefined in C) touches a cell of
  the same array that no in-range access sees.
\<close>

section \<open>Collections of facts\<close>

named_theorems frame \<open>fields that an operation leaves unchanged\<close>
named_theorems inv_defs \<open>definitions of the state invariants\<close>

section \<open>Arrays, sets of integers, literals\<close>

type_synonym 'a array = "int \<Rightarrow> 'a"
type_synonym intset = "int list"

definition varid :: "int \<Rightarrow> int" where
  "varid l = \<bar>l\<bar> - 1"

definition sign_of :: "int \<Rightarrow> int" where
  "sign_of app = (if app > 0 then 1 else - 1)"

text \<open>
  A \<open>std::set<int>\<close> is kept as the list of its elements in iteration order,
  strictly increasing. \<open>set_insert\<close> is \<open>insert\<close>: it puts a new element at
  its place and leaves the set alone when the element is there already.
\<close>

fun set_insert :: "int \<Rightarrow> intset \<Rightarrow> intset" where
  "set_insert x [] = [x]"
| "set_insert x (y # ys) =
     (if x < y then x # y # ys
      else if x = y then y # ys
      else y # set_insert x ys)"

definition intset_inv :: "intset \<Rightarrow> bool" where
  "intset_inv xs \<longleftrightarrow> sorted_wrt (<) xs"

section \<open>Counting\<close>

text \<open>
  \<open>count_where P xs\<close> is the number of positions of \<open>xs\<close> that satisfy \<open>P\<close>,
  \<open>zeros n f\<close> the number of indices \<open>0 \<le> c < n\<close> with \<open>f c = 0\<close>; both as
  \<open>int\<close>, the type of the counters they are compared with.
\<close>

definition count_where :: "('a \<Rightarrow> bool) \<Rightarrow> 'a list \<Rightarrow> int" where
  "count_where P xs = int (length (filter P xs))"

definition zeros :: "int \<Rightarrow> int array \<Rightarrow> int" where
  "zeros n f = count_where (\<lambda>c. f c = 0) [0..n - 1]"

text \<open>
  \<open>all_below n P\<close> is \<open>P\<close> at every index \<open>0 \<le> c < n\<close> of an array of \<open>n\<close>
  cells. It is a test on a list, so that it evaluates on a given state.
\<close>

definition all_below :: "int \<Rightarrow> (int \<Rightarrow> bool) \<Rightarrow> bool" where
  "all_below n P = list_all P [0..n - 1]"

section \<open>Lemmas on literals\<close>

lemma varid_nonneg [simp]: "l \<noteq> 0 \<Longrightarrow> 0 \<le> varid l"
  by (simp add: varid_def)

lemma varid_uminus [simp]: "varid (- l) = varid l"
  by (simp add: varid_def)

lemma varid_succ [simp]: "0 \<le> c \<Longrightarrow> varid (c + 1) = c" "0 \<le> c \<Longrightarrow> varid (- (c + 1)) = c"
  by (simp_all add: varid_def)

lemma varid_numeral [simp]:
  "varid (numeral n) = numeral n - 1" "varid (- numeral n) = numeral n - 1"
  "varid 1 = 0" "varid (- 1) = 0"
  by (simp_all add: varid_def)

lemma sign_of_cases: "sign_of app = 1 \<or> sign_of app = - 1"
  by (simp add: sign_of_def)

lemma sign_of_nonzero [simp]: "sign_of app \<noteq> 0"
  by (simp add: sign_of_def)

lemma sign_of_mult_pos [simp]: "app \<noteq> 0 \<Longrightarrow> 0 < app * sign_of app"
  by (simp add: sign_of_def)

lemma mult_sign_pos_iff:
  fixes a s :: int
  shows "0 < a * s \<longleftrightarrow> (0 < a \<and> 0 < s) \<or> (a < 0 \<and> s < 0)"
  by (auto simp: zero_less_mult_iff)

section \<open>Lemmas on sets of integers\<close>

lemma set_set_insert [simp]: "set (set_insert x xs) = insert x (set xs)"
  by (induction xs) auto

lemma set_insert_nonempty [simp]: "set_insert x xs \<noteq> []"
  by (cases xs) auto

lemma intset_inv_Nil [simp]: "intset_inv []"
  by (simp add: intset_inv_def)

lemma intset_inv_set_insert [simp]: "intset_inv xs \<Longrightarrow> intset_inv (set_insert x xs)"
  unfolding intset_inv_def by (induction xs) auto

lemma intset_inv_distinct: "intset_inv xs \<Longrightarrow> distinct xs"
  unfolding intset_inv_def by (simp add: strict_sorted_iff)

lemma set_insert_member: "intset_inv xs \<Longrightarrow> x \<in> set xs \<Longrightarrow> set_insert x xs = xs"
  unfolding intset_inv_def by (induction xs) auto

lemma intset_eqI: "intset_inv xs \<Longrightarrow> intset_inv ys \<Longrightarrow> set xs = set ys \<Longrightarrow> xs = ys"
  unfolding intset_inv_def by (simp add: strict_sorted_equal)

section \<open>Lemmas on counting\<close>

lemma all_below_iff: "all_below n P \<longleftrightarrow> (\<forall>c. 0 \<le> c \<and> c < n \<longrightarrow> P c)"
  by (auto simp: all_below_def list_all_iff)

lemma all_below_rec: "0 < n \<Longrightarrow> all_below n P \<longleftrightarrow> P (n - 1) \<and> all_below (n - 1) P"
  by (auto simp: all_below_iff) (metis add_diff_cancel_right' less_le zle_diff1_eq)

lemma all_below_numeral [simp]:
  "all_below 0 P" "all_below 1 P \<longleftrightarrow> P 0"
  "all_below (numeral k) P \<longleftrightarrow> P (numeral k - 1) \<and> all_below (numeral k - 1) P"
  by (simp_all add: all_below_rec) (auto simp: all_below_iff)

lemma upto_from_0 [simp]:
  "[0..numeral k] = 0 # [1..numeral k]" "[0..1] = [0, 1]"
  "[1..numeral k] = 1 # [2..numeral k]" "[1..0] = []" "[0..- 1] = []"
  by (simp_all add: upto_rec1)

lemma all_belowD: "all_below n P \<Longrightarrow> 0 \<le> c \<Longrightarrow> c < n \<Longrightarrow> P c"
  by (simp add: all_below_iff)

lemma all_belowI: "(\<And>c. 0 \<le> c \<Longrightarrow> c < n \<Longrightarrow> P c) \<Longrightarrow> all_below n P"
  by (simp add: all_below_iff)

lemma count_where_Nil [simp]: "count_where P [] = 0"
  by (simp add: count_where_def)

lemma count_where_Cons [simp]:
  "count_where P (x # xs) = (if P x then 1 else 0) + count_where P xs"
  by (simp add: count_where_def)

lemma count_where_append [simp]:
  "count_where P (xs @ ys) = count_where P xs + count_where P ys"
  by (simp add: count_where_def)

lemma count_where_nonneg [simp]: "0 \<le> count_where P xs"
  by (simp add: count_where_def)

lemma count_where_le_length: "count_where P xs \<le> int (length xs)"
  by (simp add: count_where_def)

lemma count_where_cong:
  "(\<And>x. x \<in> set xs \<Longrightarrow> P x = Q x) \<Longrightarrow> count_where P xs = count_where Q xs"
  unfolding count_where_def by (induction xs) auto

lemma count_where_zero_iff: "count_where P xs = 0 \<longleftrightarrow> (\<forall>x\<in>set xs. \<not> P x)"
  by (simp add: count_where_def filter_empty_conv)

lemma count_where_pos_iff: "0 < count_where P xs \<longleftrightarrow> (\<exists>x\<in>set xs. P x)"
  by (simp add: count_where_def filter_empty_conv)

lemma count_where_mono:
  "(\<And>x. x \<in> set xs \<Longrightarrow> Q x \<Longrightarrow> P x) \<Longrightarrow> count_where Q xs \<le> count_where P xs"
  by (induction xs) auto

lemma count_where_eq_imp:
  assumes "\<And>x. x \<in> set xs \<Longrightarrow> Q x \<Longrightarrow> P x" "count_where P xs = count_where Q xs"
    and "x \<in> set xs" "P x"
  shows "Q x"
  using assms
proof (induction xs)
  case Nil
  then show ?case by simp
next
  case (Cons y ys)
  have le: "count_where Q ys \<le> count_where P ys"
    using Cons.prems(1) by (intro count_where_mono) auto
  show ?case
  proof (cases "x = y")
    case True
    with Cons.prems(2,4) le show ?thesis by (auto split: if_splits)
  next
    case False
    with Cons.prems le have "count_where P ys = count_where Q ys" "x \<in> set ys"
      by (auto split: if_splits)
    with Cons.IH Cons.prems(1,4) show ?thesis by auto
  qed
qed

lemma count_where_concat:
  "count_where P (concat xss) = sum_list (map (count_where P) xss)"
  by (induction xss) simp_all

lemma count_where_map: "count_where P (map f xs) = count_where (\<lambda>x. P (f x)) xs"
  by (induction xs) simp_all

lemma count_where_filter:
  "count_where P (filter Q xs) = count_where (\<lambda>x. Q x \<and> P x) xs"
  by (induction xs) simp_all

lemma count_where_card:
  "distinct xs \<Longrightarrow> count_where P xs = int (card {x \<in> set xs. P x})"
  unfolding count_where_def by (simp add: distinct_length_filter Int_def conj_commute)

lemma zeros_card: "zeros n f = int (card {c. 0 \<le> c \<and> c < n \<and> f c = 0})"
proof -
  have "{x \<in> set [0..n - 1]. f x = 0} = {c. 0 \<le> c \<and> c < n \<and> f c = 0}"
    by auto
  then show ?thesis
    by (simp add: zeros_def count_where_card del: set_upto)
qed

lemma zeros_rec: "0 < n \<Longrightarrow> zeros n f = zeros (n - 1) f + (if f (n - 1) = 0 then 1 else 0)"
  by (simp add: zeros_def upto_rec2 [of 0 "n - 1"])

lemma zeros_numeral [simp]:
  "zeros 0 f = 0" "zeros 1 f = (if f 0 = 0 then 1 else 0)"
  "zeros (numeral k) f = zeros (numeral k - 1) f + (if f (numeral k - 1) = 0 then 1 else 0)"
  by (simp_all add: zeros_rec) (simp_all add: zeros_def)

lemma zeros_nonneg [simp]: "0 \<le> zeros n f"
  by (simp add: zeros_def)

lemma finite_zeros_set [simp]: "finite {c::int. 0 \<le> c \<and> c < n \<and> P c}"
  by (rule finite_subset [of _ "{0..<n}"]) auto

lemma zeros_upd_outside [simp]: "\<not> (0 \<le> c \<and> c < n) \<Longrightarrow> zeros n (f(c := x)) = zeros n f"
proof -
  assume "\<not> (0 \<le> c \<and> c < n)"
  then have "{d. 0 \<le> d \<and> d < n \<and> (f(c := x)) d = 0} = {d. 0 \<le> d \<and> d < n \<and> f d = 0}"
    by auto
  then show ?thesis by (simp add: zeros_card)
qed

lemma zeros_upd_set:
  assumes "0 \<le> c" "c < n" "f c = 0" "x \<noteq> 0"
  shows "zeros n (f(c := x)) = zeros n f - 1"
proof -
  let ?A = "{d. 0 \<le> d \<and> d < n \<and> (f(c := x)) d = 0}"
  have "{d. 0 \<le> d \<and> d < n \<and> f d = 0} = insert c ?A" "c \<notin> ?A"
    using assms by auto
  then show ?thesis by (simp add: zeros_card)
qed

lemma zeros_upd_clear:
  assumes "0 \<le> c" "c < n" "f c \<noteq> 0"
  shows "zeros n (f(c := 0)) = zeros n f + 1"
proof -
  let ?A = "{d. 0 \<le> d \<and> d < n \<and> f d = 0}"
  have "{d. 0 \<le> d \<and> d < n \<and> (f(c := 0)) d = 0} = insert c ?A" "c \<notin> ?A"
    using assms by auto
  then show ?thesis by (simp add: zeros_card)
qed

lemma zeros_zero_iff: "zeros n f = 0 \<longleftrightarrow> (\<forall>c. 0 \<le> c \<and> c < n \<longrightarrow> f c \<noteq> 0)"
  by (auto simp: zeros_def count_where_zero_iff)

lemma zeros_all: "(\<And>c. 0 \<le> c \<Longrightarrow> c < n \<Longrightarrow> f c = 0) \<Longrightarrow> zeros n f = max 0 n"
proof -
  assume "\<And>c. 0 \<le> c \<Longrightarrow> c < n \<Longrightarrow> f c = 0"
  then have "filter (\<lambda>c. f c = 0) [0..n - 1] = [0..n - 1]"
    by (simp add: filter_id_conv)
  then show ?thesis by (simp add: zeros_def count_where_def)
qed

lemma zeros_cong: "(\<And>c. 0 \<le> c \<Longrightarrow> c < n \<Longrightarrow> f c = g c) \<Longrightarrow> zeros n f = zeros n g"
  unfolding zeros_def by (rule count_where_cong) simp


section \<open>Further lemmas on counting, signs and folds\<close>

lemma count_where_one:
  assumes "count_where P xs = 1" "x \<in> set xs" "P x" "y \<in> set xs" "P y"
  shows "y = x"
  using assms
proof (induction xs)
  case Nil
  then show ?case by simp
next
  case (Cons z zs)
  show ?case
  proof (cases "P z")
    case True
    with Cons.prems(1) have "count_where P zs = 0" by simp
    with Cons.prems True show ?thesis by (auto simp: count_where_zero_iff)
  next
    case False
    with Cons show ?thesis by auto
  qed
qed

lemma count_where_disjoint_le:
  assumes "\<And>x. x \<in> set xs \<Longrightarrow> P x \<Longrightarrow> R x" "\<And>x. x \<in> set xs \<Longrightarrow> Q x \<Longrightarrow> R x"
    "\<And>x. x \<in> set xs \<Longrightarrow> \<not> (P x \<and> Q x)"
  shows "count_where P xs + count_where Q xs \<le> count_where R xs"
  using assms by (induction xs) auto

lemma zeros_less:
  assumes v: "0 \<le> v" "v < n" "a v = 0" "a' v \<noteq> 0"
    and kept: "\<And>w. a w \<noteq> 0 \<Longrightarrow> a' w \<noteq> 0"
  shows "zeros n a' < zeros n a"
proof -
  have "zeros n a' \<le> zeros n (a(v := a' v))"
    unfolding zeros_def using kept by (intro count_where_mono) auto
  also from v have "\<dots> = zeros n a - 1" by (rule zeros_upd_set)
  finally show ?thesis by simp
qed

lemma zeros_le: "0 \<le> n \<Longrightarrow> zeros n a \<le> n"
  using count_where_le_length [of "\<lambda>c. a c = 0" "[0..n - 1]"] by (simp add: zeros_def)

lemma sign_of_differs:
  assumes "sign = 1 \<or> sign = - 1" "sign \<noteq> sign_of l"
  shows "\<not> 0 < l * sign"
  using assms by (auto simp: sign_of_def split: if_splits)

lemma sign_of_square: "0 < sign_of l * sign_of l"
  by (simp add: sign_of_def)

lemma fold_invariant:
  assumes "\<And>x s. x \<in> set xs \<Longrightarrow> P s \<Longrightarrow> P (f x s)" "P s"
  shows "P (fold f xs s)"
  using assms by (induction xs arbitrary: s) simp_all

end
