(* ===== verification/Formula.thy ===== *)
theory Formula
  imports SAT_Prelude
begin

text \<open>
  The formula store of \<open>src/sat.cpp\<close>: the globals \<open>V\<close>, \<open>C\<close>, \<open>clauses\<close>,
  \<open>csizes\<close>, \<open>appearances\<close> and \<open>napps\<close>, which \<open>main\<close> fills once and nothing
  writes afterwards, and the two passes of \<open>main\<close> that fill them from the
  integers of the input. \<open>clauses[c]\<close> with its length \<open>csizes[c]\<close> is one
  list, \<open>appearances[v]\<close> with \<open>napps[v]\<close> another. The theory also holds
  the meaning of a formula (\<open>lit_true\<close>, \<open>clause_sat\<close>, \<open>formula_sat\<close>) and
  the well-formedness \<open>wf_formula\<close> that the passes establish and every
  later theory assumes.
\<close>

section \<open>The store\<close>

record formula =
  V :: int
  C :: int
  clauses :: "int list array"
  appearances :: "int list array"

definition csizes :: "formula \<Rightarrow> int \<Rightarrow> int" where
  "csizes F c = int (length (clauses F c))"

definition napps :: "formula \<Rightarrow> int \<Rightarrow> int" where
  "napps F v = int (length (appearances F v))"

section \<open>Reading the clauses\<close>

text \<open>
  The input is the list of integers that the \<open>scanf("%d")\<close> calls of \<open>main\<close>
  return after the problem line. \<open>None\<close> stands for the two runs that C
  leaves undefined: the input ends inside a clause, or a clause has more
  than \<open>MAX_CLAUSE_SIZE\<close> literals and overruns its row of \<open>clauses\<close>.
\<close>

definition MAX_CLAUSE_SIZE :: nat where
  "MAX_CLAUSE_SIZE = 1000"

fun read_clause :: "int list \<Rightarrow> (int list \<times> int list) option" where
  "read_clause [] = None"
| "read_clause (v # ts) =
     (if v = 0 then Some ([], ts)
      else case read_clause ts of
             None \<Rightarrow> None
           | Some (ls, r) \<Rightarrow> Some (v # ls, r))"

fun read_clauses :: "nat \<Rightarrow> int list \<Rightarrow> (int list list \<times> int list) option" where
  "read_clauses 0 ts = Some ([], ts)"
| "read_clauses (Suc n) ts =
     (case read_clause ts of
        None \<Rightarrow> None
      | Some (ls, r) \<Rightarrow>
          if MAX_CLAUSE_SIZE < length ls then None
          else case read_clauses n r of
                 None \<Rightarrow> None
               | Some (cs, r') \<Rightarrow> Some (ls # cs, r'))"

section \<open>Filling the occurrence lists\<close>

definition app_enc :: "int \<Rightarrow> int \<Rightarrow> int" where
  "app_enc i l = (if l < 0 then - (i + 1) else i + 1)"

definition fill_clause :: "int \<Rightarrow> int list \<Rightarrow> int list array \<Rightarrow> int list array" where
  "fill_clause i ls apps =
     fold (\<lambda>l a. a(varid l := a (varid l) @ [app_enc i l])) ls apps"

fun fill_appearances :: "int \<Rightarrow> int list list \<Rightarrow> int list array \<Rightarrow> int list array" where
  "fill_appearances i [] apps = apps"
| "fill_appearances i (ls # cs) apps = fill_appearances (i + 1) cs (fill_clause i ls apps)"

definition mk_formula :: "int \<Rightarrow> int \<Rightarrow> int list list \<Rightarrow> formula" where
  "mk_formula nv nc cs =
     \<lparr>V = nv, C = nc,
      clauses = (\<lambda>c. if 0 \<le> c \<and> c < int (length cs) then cs ! nat c else []),
      appearances = fill_appearances 0 cs (\<lambda>_. [])\<rparr>"

definition load :: "int \<Rightarrow> int \<Rightarrow> int list \<Rightarrow> formula option" where
  "load nv nc ts =
     (case read_clauses (nat nc) ts of
        None \<Rightarrow> None
      | Some (cs, r) \<Rightarrow> Some (mk_formula nv nc cs))"

section \<open>Meaning and well-formedness\<close>

text \<open>
  An assignment is the array \<open>assn\<close>: \<open>1\<close> true, \<open>-1\<close> false, \<open>0\<close> unset. A
  literal is true when its product with the value of its variable is
  positive, the test \<open>assign\<close> makes on occurrence entries.
\<close>

definition lit_true :: "int array \<Rightarrow> int \<Rightarrow> bool" where
  "lit_true a l \<longleftrightarrow> 0 < l * a (varid l)"

definition clause_sat :: "int array \<Rightarrow> int list \<Rightarrow> bool" where
  "clause_sat a ls \<longleftrightarrow> (\<exists>l\<in>set ls. lit_true a l)"

definition formula_sat :: "formula \<Rightarrow> int array \<Rightarrow> bool" where
  "formula_sat F a \<longleftrightarrow> all_below (C F) (\<lambda>c. clause_sat a (clauses F c))"

definition satisfiable :: "formula \<Rightarrow> bool" where
  "satisfiable F \<longleftrightarrow> (\<exists>a. formula_sat F a)"

definition dimacs :: "int list list \<Rightarrow> int list" where
  "dimacs cs = concat (map (\<lambda>ls. ls @ [0]) cs)"

definition occurrences :: "formula \<Rightarrow> int \<Rightarrow> int list" where
  "occurrences F v =
     concat (map (\<lambda>c. map (app_enc c) (filter (\<lambda>l. varid l = v) (clauses F c)))
                 [0..C F - 1])"

definition wf_formula :: "formula \<Rightarrow> bool" where
  "wf_formula F \<longleftrightarrow>
     0 \<le> V F \<and> 0 \<le> C F \<and>
     all_below (C F) (\<lambda>c. \<forall>l\<in>set (clauses F c). l \<noteq> 0 \<and> varid l < V F) \<and>
     all_below (V F) (\<lambda>v. appearances F v = occurrences F v)"

text \<open>
  A small instance used to instantiate the theorems: the clauses \<open>x1\<close> and
  \<open>\<not>x1 \<or> x2\<close> over two variables.
\<close>

abbreviation ex_cnf :: formula where
  "ex_cnf \<equiv> mk_formula 2 2 [[1], [- 1, 2]]"

section \<open>Lemmas on occurrence entries\<close>

lemma app_enc_nonzero [simp]: "0 \<le> c \<Longrightarrow> app_enc c l \<noteq> 0"
  by (simp add: app_enc_def)

lemma varid_app_enc [simp]: "0 \<le> c \<Longrightarrow> varid (app_enc c l) = c"
  by (simp add: app_enc_def varid_def)

lemma app_enc_agrees:
  "0 \<le> c \<Longrightarrow> l \<noteq> 0 \<Longrightarrow> 0 < app_enc c l * s \<longleftrightarrow> 0 < l * s"
  by (auto simp: app_enc_def mult_sign_pos_iff)

lemma app_enc_inj: "0 \<le> c \<Longrightarrow> l \<noteq> 0 \<Longrightarrow> l' \<noteq> 0 \<Longrightarrow>
    app_enc c l = app_enc c l' \<longleftrightarrow> (l < 0 \<longleftrightarrow> l' < 0)"
  by (auto simp: app_enc_def)

lemma lit_true_unset [simp]: "a (varid l) = 0 \<Longrightarrow> \<not> lit_true a l"
  by (simp add: lit_true_def)

lemma lit_true_upd_other [simp]:
  "varid l \<noteq> v \<Longrightarrow> lit_true (a(v := x)) l = lit_true a l"
  by (simp add: lit_true_def)

lemma lit_true_upd_same: "varid l = v \<Longrightarrow> lit_true (a(v := x)) l \<longleftrightarrow> 0 < l * x"
  by (auto simp: lit_true_def)

lemma clause_sat_Nil [simp]: "\<not> clause_sat a []"
  by (simp add: clause_sat_def)

section \<open>Lemmas on the store\<close>

lemma sum_list_indicator:
  "distinct xs \<Longrightarrow>
    sum_list (map (\<lambda>x. if x = c then f x else (0::int)) xs) = (if c \<in> set xs then f c else 0)"
  by (induction xs) auto

lemma set_occurrences:
  "set (occurrences F v) =
    {app_enc c l | c l. 0 \<le> c \<and> c < C F \<and> l \<in> set (clauses F c) \<and> varid l = v}"
  unfolding occurrences_def by auto blast

lemma count_occurrences:
  assumes "0 \<le> c" "c < C F"
  shows "count_where (\<lambda>a. varid a = c) (occurrences F v)
       = count_where (\<lambda>l. varid l = v) (clauses F c)"
proof -
  have "count_where (\<lambda>a. varid a = c)
          (map (app_enc d) (filter (\<lambda>l. varid l = v) (clauses F d)))
      = (if d = c then count_where (\<lambda>l. varid l = v) (clauses F d) else 0)"
    if "d \<in> set [0..C F - 1]" for d
    using that by (auto simp: count_where_map count_where_filter count_where_zero_iff
        intro!: count_where_cong)
  then have "count_where (\<lambda>a. varid a = c) (occurrences F v)
      = sum_list (map (\<lambda>d. if d = c then count_where (\<lambda>l. varid l = v) (clauses F d) else 0)
          [0..C F - 1])"
    unfolding occurrences_def count_where_concat map_map comp_def
    by (intro arg_cong [where f = sum_list] map_cong refl)
  with assms show ?thesis
    by (simp add: sum_list_indicator)
qed

lemma count_occurrences_outside:
  assumes "\<not> (0 \<le> c \<and> c < C F)"
  shows "count_where (\<lambda>a. varid a = c) (occurrences F v) = 0"
  using assms by (auto simp: count_where_zero_iff set_occurrences)

lemma wf_formulaD:
  assumes "wf_formula F"
  shows wf_V: "0 \<le> V F" and wf_C: "0 \<le> C F"
    and wf_lit: "\<And>c l. 0 \<le> c \<Longrightarrow> c < C F \<Longrightarrow> l \<in> set (clauses F c) \<Longrightarrow> l \<noteq> 0 \<and> 0 \<le> varid l \<and> varid l < V F"
    and wf_apps: "\<And>v. 0 \<le> v \<Longrightarrow> v < V F \<Longrightarrow> appearances F v = occurrences F v"
  using assms by (auto simp: wf_formula_def all_below_iff)

lemma wf_app_range:
  assumes "wf_formula F" "0 \<le> v" "v < V F" "a \<in> set (appearances F v)"
  shows "a \<noteq> 0 \<and> 0 \<le> varid a \<and> varid a < C F"
  using assms by (auto simp: wf_apps set_occurrences)

lemma wf_app_lit:
  assumes "wf_formula F" "0 \<le> v" "v < V F" "a \<in> set (appearances F v)"
  obtains l where "l \<in> set (clauses F (varid a))" "varid l = v" "l \<noteq> 0"
    "\<And>s. 0 < a * s \<longleftrightarrow> 0 < l * s"
proof -
  from assms obtain c l where cl: "a = app_enc c l" "0 \<le> c" "c < C F"
      "l \<in> set (clauses F c)" "varid l = v"
    by (auto simp: wf_apps set_occurrences)
  with assms(1) have "l \<noteq> 0" by (auto dest: wf_lit)
  with cl show thesis by (intro that [of l]) (simp_all add: app_enc_agrees)
qed

lemma wf_lit_app:
  assumes "wf_formula F" "0 \<le> c" "c < C F" "l \<in> set (clauses F c)"
  obtains a where "a \<in> set (appearances F (varid l))" "varid a = c"
    "\<And>s. 0 < a * s \<longleftrightarrow> 0 < l * s"
proof -
  from assms have l: "l \<noteq> 0" "0 \<le> varid l" "varid l < V F"
    by (auto dest: wf_lit)
  with assms have "app_enc c l \<in> set (appearances F (varid l))"
    by (auto simp: wf_apps set_occurrences)
  with assms l show thesis by (intro that [of "app_enc c l"]) (simp_all add: app_enc_agrees)
qed

lemma wf_app_count:
  assumes "wf_formula F" "0 \<le> v" "v < V F"
  shows "count_where (\<lambda>a. varid a = c) (appearances F v)
       = (if 0 \<le> c \<and> c < C F then count_where (\<lambda>l. varid l = v) (clauses F c) else 0)"
  using assms by (simp add: wf_apps count_occurrences count_occurrences_outside)

section \<open>Lemmas on the two passes\<close>

lemma read_clause_dimacs:
  "0 \<notin> set ls \<Longrightarrow> read_clause (ls @ 0 # ts) = Some (ls, ts)"
  by (induction ls) auto

lemma read_clause_sound:
  "read_clause ts = Some (ls, r) \<Longrightarrow> ts = ls @ 0 # r \<and> 0 \<notin> set ls"
  by (induction ts arbitrary: ls r) (auto split: if_splits option.splits)

lemma read_clauses_length: "read_clauses n ts = Some (cs, r) \<Longrightarrow> length cs = n"
  by (induction n arbitrary: ts cs r) (auto split: option.splits if_splits)

lemma fill_clause_apply:
  "fill_clause i ls apps v = apps v @ map (app_enc i) (filter (\<lambda>l. varid l = v) ls)"
  unfolding fill_clause_def by (induction ls arbitrary: apps) auto

lemma fill_appearances_apply:
  "fill_appearances i cs apps v =
     apps v @ concat (map (\<lambda>k. map (app_enc (i + int k)) (filter (\<lambda>l. varid l = v) (cs ! k)))
                          [0..<length cs])"
proof (induction cs arbitrary: i apps)
  case Nil
  then show ?case by simp
next
  case (Cons ls cs)
  have "map (\<lambda>k. map (app_enc (i + int k)) (filter (\<lambda>l. varid l = v) ((ls # cs) ! k)))
          [0..<length (ls # cs)]
      = map (app_enc i) (filter (\<lambda>l. varid l = v) ls)
        # map (\<lambda>k. map (app_enc (i + 1 + int k)) (filter (\<lambda>l. varid l = v) (cs ! k)))
            [0..<length cs]"
    by (simp add: upt_conv_Cons add.assoc flip: map_Suc_upt del: upt_Suc)
  then show ?case
    by (simp add: Cons.IH fill_clause_apply del: upt_Suc)
qed

lemma upto_as_upt: "0 \<le> n \<Longrightarrow> [0..n - 1] = map int [0..<nat n]"
  by (rule nth_equalityI) auto

lemma appearances_mk_formula:
  assumes "nc = int (length cs)"
  shows "appearances (mk_formula nv nc cs) v = occurrences (mk_formula nv nc cs) v"
proof -
  have "map (\<lambda>k. map (app_enc (int k)) (filter (\<lambda>l. varid l = v) (cs ! k))) [0..<length cs]
      = map (\<lambda>c. map (app_enc c) (filter (\<lambda>l. varid l = v)
            (if 0 \<le> c \<and> c < int (length cs) then cs ! nat c else [])))
          (map int [0..<length cs])"
    by simp
  with assms show ?thesis
    by (simp add: mk_formula_def occurrences_def fill_appearances_apply upto_as_upt
        del: map_map)
qed

lemma read_clauses_dimacs:
  assumes "\<forall>ls\<in>set cs. 0 \<notin> set ls \<and> length ls \<le> MAX_CLAUSE_SIZE"
  shows "read_clauses (length cs) (dimacs cs @ r) = Some (cs, r)"
  using assms
  by (induction cs) (simp_all add: dimacs_def read_clause_dimacs)

lemma read_clauses_sound:
  "read_clauses n ts = Some (cs, r) \<Longrightarrow>
     ts = dimacs cs @ r \<and> length cs = n \<and> (\<forall>ls\<in>set cs. 0 \<notin> set ls \<and> length ls \<le> MAX_CLAUSE_SIZE)"
proof (induction n arbitrary: ts cs r)
  case 0
  then show ?case by (simp add: dimacs_def)
next
  case (Suc n)
  from Suc.prems obtain ls r1 cs' where 1: "read_clause ts = Some (ls, r1)"
      "length ls \<le> MAX_CLAUSE_SIZE" "read_clauses n r1 = Some (cs', r)" "cs = ls # cs'"
    by (auto split: option.splits if_splits)
  from Suc.IH [OF 1(3)] read_clause_sound [OF 1(1)] 1(2,4) show ?case
    by (simp add: dimacs_def)
qed

lemma V_mk_formula [simp]: "V (mk_formula nv nc cs) = nv"
  by (simp add: mk_formula_def)

lemma C_mk_formula [simp]: "C (mk_formula nv nc cs) = nc"
  by (simp add: mk_formula_def)

lemma clauses_mk_formula:
  "0 \<le> c \<Longrightarrow> c < int (length cs) \<Longrightarrow> clauses (mk_formula nv nc cs) c = cs ! nat c"
  by (simp add: mk_formula_def)

lemma wf_mk_formula:
  assumes "0 \<le> nv" "nc = int (length cs)"
    and "\<forall>ls\<in>set cs. \<forall>l\<in>set ls. l \<noteq> 0 \<and> \<bar>l\<bar> \<le> nv"
  shows "wf_formula (mk_formula nv nc cs)"
proof -
  have "l \<noteq> 0 \<and> varid l < nv" if "0 \<le> c" "c < int (length cs)" "l \<in> set (cs ! nat c)" for c l
  proof -
    from that have "cs ! nat c \<in> set cs" by (intro nth_mem) simp
    with assms(3) that(3) have "l \<noteq> 0 \<and> \<bar>l\<bar> \<le> nv" by blast
    then show ?thesis by (simp add: varid_def)
  qed
  then have "\<forall>c. 0 \<le> c \<and> c < int (length cs) \<longrightarrow>
      (\<forall>l\<in>set (cs ! nat c). l \<noteq> 0 \<and> varid l < nv)"
    by blast
  with assms(1,2) show ?thesis
    by (simp add: wf_formula_def all_below_iff appearances_mk_formula clauses_mk_formula)
qed


section \<open>The loader\<close>

lemma ex_cnf_wf: "wf_formula ex_cnf"
  by code_simp

lemma ex_cnf_load: "load 2 2 [1, 0, - 1, 2, 0] = Some ex_cnf"
  by (simp add: load_def numeral_2_eq_2 MAX_CLAUSE_SIZE_def)

text \<open>
  C25 (round trip): when no clause of \<open>cs\<close> holds a \<open>0\<close> and none is longer
  than \<open>MAX_CLAUSE_SIZE\<close>, loading the DIMACS token stream of \<open>cs\<close>, followed
  by any further tokens, with the clause count \<open>length cs\<close> succeeds and gives
  the store built from \<open>cs\<close>: \<open>clauses[i]\<close> is the \<open>i\<close>-th clause and
  \<open>appearances\<close> is filled from it.
\<close>

theorem load_dimacs:
  assumes "\<forall>ls\<in>set cs. 0 \<notin> set ls \<and> length ls \<le> MAX_CLAUSE_SIZE"
  shows "load nv (int (length cs)) (dimacs cs @ r) = Some (mk_formula nv (int (length cs)) cs)"
  using read_clauses_dimacs [OF assms] by (simp add: load_def)

theorem load_dimacs_witness:
  "load 2 2 [1, 0, - 1, 2, 0] = Some (mk_formula 2 2 [[1], [- 1, 2]])"
  using load_dimacs [of "[[1], [- 1, 2]]" 2 "[]"]
  by (simp add: dimacs_def MAX_CLAUSE_SIZE_def)

text \<open>
  C26 (well-formedness): a store that \<open>load\<close> returns for non-negative
  header counts, from tokens whose absolute value is at most the variable
  count, is well formed: every literal is non-zero and names a variable below
  \<open>V\<close>, and \<open>appearances[v]\<close> lists exactly the occurrences of \<open>v\<close>, in
  clause order, each encoded with its clause and polarity.
\<close>

theorem load_wf:
  assumes "load nv nc ts = Some F" "0 \<le> nv" "0 \<le> nc" "\<forall>t\<in>set ts. \<bar>t\<bar> \<le> nv"
  shows "wf_formula F"
proof -
  from assms(1) obtain cs r where rd: "read_clauses (nat nc) ts = Some (cs, r)"
      and F: "F = mk_formula nv nc cs"
    by (auto simp: load_def split: option.splits)
  from read_clauses_sound [OF rd] have ts: "ts = dimacs cs @ r" "length cs = nat nc"
      "\<forall>ls\<in>set cs. 0 \<notin> set ls"
    by auto
  have "\<bar>l\<bar> \<le> nv" if "ls \<in> set cs" "l \<in> set ls" for ls l
  proof -
    from that have "l \<in> set ts" unfolding ts(1) dimacs_def by auto
    with assms(4) show ?thesis by blast
  qed
  with ts(3) have "\<forall>ls\<in>set cs. \<forall>l\<in>set ls. l \<noteq> 0 \<and> \<bar>l\<bar> \<le> nv"
    by metis
  with assms(2,3) ts(2) show ?thesis
    unfolding F by (intro wf_mk_formula) simp_all
qed

theorem load_wf_witness:
  "load 2 2 [1, 0, - 1, 2, 0] = Some ex_cnf \<and> wf_formula ex_cnf"
  using load_wf [of 2 2 "[1, 0, - 1, 2, 0]" ex_cnf] ex_cnf_load
  by simp

end
