(* ===== verification/Conflict.thy ===== *)
theory Conflict
  imports Formula
begin

text \<open>
  The conflict tracker of \<open>src/sat.cpp\<close>: the arrays \<open>conflict\<close> and
  \<open>in_conflict\<close> of \<open>std::set<int>\<close> and the routines \<open>in_conflict_set\<close>,
  \<open>augment_conflict\<close> and \<open>backprop_conflict\<close>. The operations are stated
  over any record that extends \<open>tracker\<close>, so they apply to the solver state
  of theory \<open>Assignment\<close> as they are. The lemmas give the sets each
  operation leaves behind, the representation invariant of the sets, and
  irreflexivity of both relations; symmetry of the two relations is kept by
  the insertion of an edge and by nothing else.
\<close>

section \<open>State and operations\<close>

record tracker =
  conflict :: "intset array"
  in_conflict :: "intset array"

definition in_conflict_set :: "int \<Rightarrow> 'a tracker_scheme \<Rightarrow> bool" where
  "in_conflict_set v s \<longleftrightarrow> in_conflict s v \<noteq> []"

text \<open>
  \<open>record_conflict v u\<close> is the pair of statements
  \<open>conflict[v].insert(u); in_conflict[u].insert(v);\<close> that both loops below
  run, and \<open>clear_conflict v\<close> the pair
  \<open>conflict[v].clear(); in_conflict[v].clear();\<close> of \<open>dfs\<close> and
  \<open>do_unit_propagations\<close>.
\<close>

definition record_conflict :: "int \<Rightarrow> int \<Rightarrow> 'a tracker_scheme \<Rightarrow> 'a tracker_scheme" where
  "record_conflict v u s =
     s\<lparr>conflict := (conflict s)(v := set_insert u (conflict s v)),
       in_conflict := (in_conflict s)(u := set_insert v (in_conflict s u))\<rparr>"

definition clear_conflict :: "int \<Rightarrow> 'a tracker_scheme \<Rightarrow> 'a tracker_scheme" where
  "clear_conflict v s =
     s\<lparr>conflict := (conflict s)(v := []), in_conflict := (in_conflict s)(v := [])\<rparr>"

text \<open>
  \<open>absorb v its\<close> is the inner loop of \<open>augment_conflict\<close> over the elements
  \<open>its\<close> of one set \<open>conflict[*o]\<close>. The loop inserts into \<open>conflict[v]\<close> and
  into sets \<open>in_conflict[*it]\<close> with \<open>*it \<noteq> v\<close>, so the set \<open>in_conflict[v]\<close>
  that the outer loop walks is never written, and an insertion into the set
  being walked by the inner loop (when \<open>*o = v\<close>) inserts an element that is
  already there. Walking the elements read at loop entry is therefore what
  the iterators do.
\<close>

definition absorb :: "int \<Rightarrow> intset \<Rightarrow> 'a tracker_scheme \<Rightarrow> 'a tracker_scheme" where
  "absorb v its s = fold (\<lambda>it s'. if it \<noteq> v then record_conflict v it s' else s') its s"

definition augment_conflict :: "int \<Rightarrow> 'a tracker_scheme \<Rightarrow> 'a tracker_scheme" where
  "augment_conflict v s =
     (let s' = fold (\<lambda>u s'. absorb v (conflict s' u) s') (in_conflict s v) s
      in s'\<lparr>in_conflict := (in_conflict s')(v := [])\<rparr>)"

definition backprop_conflict :: "formula \<Rightarrow> int \<Rightarrow> int \<Rightarrow> 'a tracker_scheme \<Rightarrow> 'a tracker_scheme" where
  "backprop_conflict F v c s =
     augment_conflict v
       (fold (\<lambda>l s'. if varid l \<noteq> v then record_conflict v (varid l) s' else s')
          (clauses F c) s)"

section \<open>Invariants of the tracker\<close>

definition tracker_sym :: "int \<Rightarrow> 'a tracker_scheme \<Rightarrow> bool" where
  "tracker_sym n s \<longleftrightarrow>
     all_below n (\<lambda>u. all_below n (\<lambda>v.
        u \<in> set (conflict s v) \<longleftrightarrow> v \<in> set (in_conflict s u)))"

definition irrefl_at :: "'a tracker_scheme \<Rightarrow> int \<Rightarrow> bool" where
  "irrefl_at s v \<longleftrightarrow> v \<notin> set (conflict s v) \<and> v \<notin> set (in_conflict s v)"

definition tracker_irrefl :: "int \<Rightarrow> 'a tracker_scheme \<Rightarrow> bool" where
  "tracker_irrefl n s \<longleftrightarrow> all_below n (irrefl_at s)"

definition sets_ok_at :: "'a tracker_scheme \<Rightarrow> int \<Rightarrow> bool" where
  "sets_ok_at s v \<longleftrightarrow> intset_inv (conflict s v) \<and> intset_inv (in_conflict s v)"

definition tracker_sets_ok :: "int \<Rightarrow> 'a tracker_scheme \<Rightarrow> bool" where
  "tracker_sets_ok n s \<longleftrightarrow> all_below n (sets_ok_at s)"

text \<open>The tracker with every set empty, as \<open>main\<close> allocates it.\<close>

abbreviation t0 :: tracker where
  "t0 \<equiv> \<lparr>conflict = (\<lambda>_. []), in_conflict = (\<lambda>_. [])\<rparr>"

lemmas tracker_inv_defs [inv_defs] =
  tracker_sym_def tracker_irrefl_def irrefl_at_def tracker_sets_ok_def sets_ok_at_def

section \<open>What the operations leave unchanged\<close>

lemma more_record_conflict [simp]: "tracker.more (record_conflict v u s) = tracker.more s"
  by (simp add: record_conflict_def)

lemma more_clear_conflict [simp]: "tracker.more (clear_conflict v s) = tracker.more s"
  by (simp add: clear_conflict_def)

lemma more_absorb [simp]: "tracker.more (absorb v its s) = tracker.more s"
  unfolding absorb_def by (induction its arbitrary: s) simp_all

lemma more_absorb_fold:
  "tracker.more (fold (\<lambda>u s'. absorb v (conflict s' u) s') os s) = tracker.more s"
  by (induction os arbitrary: s) simp_all

lemma more_augment_conflict [simp]: "tracker.more (augment_conflict v s) = tracker.more s"
  by (simp add: augment_conflict_def Let_def more_absorb_fold)

lemma more_record_fold:
  "tracker.more (fold (\<lambda>l s'. if P l then record_conflict v (f l) s' else s') ls s)
    = tracker.more s"
  by (induction ls arbitrary: s) simp_all

lemma more_backprop_conflict [simp]: "tracker.more (backprop_conflict F v c s) = tracker.more s"
  by (simp add: backprop_conflict_def more_record_fold)

text \<open>
  Each operation is an update of the two tracker fields: the form in which
  an extension of the record reads its own fields through the operation.
\<close>

lemma tracker_only:
  assumes "tracker.more s' = tracker.more s"
  shows "s' = s\<lparr>conflict := conflict s', in_conflict := in_conflict s'\<rparr>"
  using assms by (intro tracker.equality) simp_all

lemmas record_conflict_only = tracker_only [OF more_record_conflict]
  and clear_conflict_only = tracker_only [OF more_clear_conflict]
  and augment_conflict_only = tracker_only [OF more_augment_conflict]
  and backprop_conflict_only = tracker_only [OF more_backprop_conflict]

section \<open>The sets after an edge is recorded or a variable cleared\<close>

lemma conflict_record_conflict [simp]:
  "conflict (record_conflict v u s) w =
     (if w = v then set_insert u (conflict s v) else conflict s w)"
  by (simp add: record_conflict_def)

lemma in_conflict_record_conflict [simp]:
  "in_conflict (record_conflict v u s) w =
     (if w = u then set_insert v (in_conflict s u) else in_conflict s w)"
  by (simp add: record_conflict_def)

lemma conflict_clear_conflict [simp]:
  "conflict (clear_conflict v s) w = (if w = v then [] else conflict s w)"
  by (simp add: clear_conflict_def)

lemma in_conflict_clear_conflict [simp]:
  "in_conflict (clear_conflict v s) w = (if w = v then [] else in_conflict s w)"
  by (simp add: clear_conflict_def)

lemma in_conflict_set_clear [simp]: "\<not> in_conflict_set v (clear_conflict v s)"
  by (simp add: in_conflict_set_def)

section \<open>The sets after the loops\<close>

lemma conflict_absorb_other [simp]: "w \<noteq> v \<Longrightarrow> conflict (absorb v its s) w = conflict s w"
  unfolding absorb_def by (induction its arbitrary: s) simp_all

lemma set_conflict_absorb:
  "set (conflict (absorb v its s) v) = set (conflict s v) \<union> (set its - {v})"
  unfolding absorb_def by (induction its arbitrary: s) auto

lemma set_in_conflict_absorb:
  "set (in_conflict (absorb v its s) w) =
     (if w \<in> set its - {v} then insert v (set (in_conflict s w)) else set (in_conflict s w))"
  unfolding absorb_def by (induction its arbitrary: s) auto

lemma in_conflict_absorb_self [simp]: "in_conflict (absorb v its s) v = in_conflict s v"
  unfolding absorb_def by (induction its arbitrary: s) simp_all

lemma conflict_absorb_fold_other [simp]:
  "w \<noteq> v \<Longrightarrow> conflict (fold (\<lambda>u s'. absorb v (conflict s' u) s') os s) w = conflict s w"
  by (induction os arbitrary: s) simp_all

lemma set_conflict_absorb_any:
  "set (conflict (absorb v its s) w) =
     (if w = v then set (conflict s v) \<union> (set its - {v}) else set (conflict s w))"
  by (simp add: set_conflict_absorb)

lemma set_conflict_absorb_fold:
  "set (conflict (fold (\<lambda>u s'. absorb v (conflict s' u) s') os s) v) =
     set (conflict s v) \<union> ((\<Union>u\<in>set os. set (conflict s u)) - {v})"
proof (induction os arbitrary: s)
  case Nil
  then show ?case by simp
next
  case (Cons u os)
  show ?case
    by (auto simp: Cons.IH set_conflict_absorb_any split: if_splits)
qed

lemma set_in_conflict_absorb_fold:
  assumes "v \<notin> set os"
  shows "set (in_conflict (fold (\<lambda>u s'. absorb v (conflict s' u) s') os s) w) =
     (if w \<in> (\<Union>u\<in>set os. set (conflict s u)) - {v}
      then insert v (set (in_conflict s w)) else set (in_conflict s w))"
  using assms
proof (induction os arbitrary: s)
  case Nil
  then show ?case by simp
next
  case (Cons u os)
  then have "v \<notin> set os" "u \<noteq> v" by auto
  then have "(\<Union>x\<in>set os. set (conflict (absorb v (conflict s u) s) x))
      = (\<Union>x\<in>set os. set (conflict s x))"
    by (intro SUP_cong refl) (auto simp: set_conflict_absorb_any)
  with \<open>v \<notin> set os\<close> show ?case
    by (simp add: Cons.IH set_in_conflict_absorb)
qed

lemma in_conflict_augment_self [simp]: "in_conflict (augment_conflict v s) v = []"
  by (simp add: augment_conflict_def Let_def)

lemma in_conflict_set_augment [simp]: "\<not> in_conflict_set v (augment_conflict v s)"
  by (simp add: in_conflict_set_def)

lemma conflict_augment_other [simp]:
  "w \<noteq> v \<Longrightarrow> conflict (augment_conflict v s) w = conflict s w"
  by (simp add: augment_conflict_def Let_def)

lemma set_conflict_augment:
  "set (conflict (augment_conflict v s) v) =
     set (conflict s v) \<union> ((\<Union>u\<in>set (in_conflict s v). set (conflict s u)) - {v})"
  by (simp add: augment_conflict_def Let_def set_conflict_absorb_fold)

lemma set_in_conflict_augment:
  assumes "v \<notin> set (in_conflict s v)"
  shows "set (in_conflict (augment_conflict v s) w) =
     (if w = v then {}
      else if w \<in> (\<Union>u\<in>set (in_conflict s v). set (conflict s u))
      then insert v (set (in_conflict s w)) else set (in_conflict s w))"
  using assms by (simp add: augment_conflict_def Let_def set_in_conflict_absorb_fold)

lemma conflict_record_fold_other [simp]:
  "w \<noteq> v \<Longrightarrow>
    conflict (fold (\<lambda>l s'. if P l then record_conflict v (f l) s' else s') ls s) w = conflict s w"
  by (induction ls arbitrary: s) simp_all

lemma set_conflict_record_fold:
  "set (conflict (fold (\<lambda>l s'. if P l then record_conflict v (f l) s' else s') ls s) v) =
     set (conflict s v) \<union> f ` {l \<in> set ls. P l}"
  by (induction ls arbitrary: s) auto

lemma set_in_conflict_record_fold:
  "set (in_conflict (fold (\<lambda>l s'. if P l then record_conflict v (f l) s' else s') ls s) w) =
     (if w \<in> f ` {l \<in> set ls. P l} then insert v (set (in_conflict s w))
      else set (in_conflict s w))"
  by (induction ls arbitrary: s) auto

lemma in_conflict_backprop_self [simp]: "in_conflict (backprop_conflict F v c s) v = []"
  by (simp add: backprop_conflict_def)

lemma in_conflict_set_backprop [simp]: "\<not> in_conflict_set v (backprop_conflict F v c s)"
  by (simp add: in_conflict_set_def)

lemma conflict_backprop_other [simp]:
  "w \<noteq> v \<Longrightarrow> conflict (backprop_conflict F v c s) w = conflict s w"
  by (simp add: backprop_conflict_def)

section \<open>Irreflexivity\<close>

lemma irrefl_at_record_conflict:
  "u \<noteq> v \<Longrightarrow> irrefl_at s w \<Longrightarrow> irrefl_at (record_conflict v u s) w"
  by (auto simp: irrefl_at_def)

lemma irrefl_at_clear_conflict: "irrefl_at s w \<Longrightarrow> irrefl_at (clear_conflict v s) w"
  by (auto simp: irrefl_at_def)

lemma in_conflict_absorb_fold_self [simp]:
  "in_conflict (fold (\<lambda>u s'. absorb v (conflict s' u) s') os s) v = in_conflict s v"
  by (induction os arbitrary: s) simp_all

lemma set_in_conflict_absorb_fold_subset:
  "set (in_conflict (fold (\<lambda>u s'. absorb v (conflict s' u) s') os s) w)
     \<subseteq> insert v (set (in_conflict s w))"
proof (induction os arbitrary: s)
  case Nil
  then show ?case by auto
next
  case (Cons u os)
  have "set (in_conflict (absorb v (conflict s u) s) w) \<subseteq> insert v (set (in_conflict s w))"
    by (auto simp: set_in_conflict_absorb)
  with Cons.IH [of "absorb v (conflict s u) s"] show ?case by auto
qed

lemma set_in_conflict_augment_subset:
  "set (in_conflict (augment_conflict v s) w) \<subseteq> insert v (set (in_conflict s w))"
  using set_in_conflict_absorb_fold_subset [of v "in_conflict s v" s w]
  by (auto simp: augment_conflict_def Let_def)

lemma irrefl_at_augment_conflict: "irrefl_at s w \<Longrightarrow> irrefl_at (augment_conflict v s) w"
  using set_in_conflict_augment_subset [of v s w]
  by (cases "w = v") (auto simp: irrefl_at_def set_conflict_augment)

lemma irrefl_at_record_fold:
  "irrefl_at s w \<Longrightarrow>
    irrefl_at (fold (\<lambda>l s'. if varid l \<noteq> v then record_conflict v (varid l) s' else s') ls s) w"
  by (induction ls arbitrary: s) (simp_all add: irrefl_at_record_conflict)

lemma irrefl_at_backprop_conflict: "irrefl_at s w \<Longrightarrow> irrefl_at (backprop_conflict F v c s) w"
  by (simp add: backprop_conflict_def irrefl_at_augment_conflict irrefl_at_record_fold)

lemmas irrefl_at_intros =
  irrefl_at_clear_conflict irrefl_at_augment_conflict irrefl_at_backprop_conflict

section \<open>Representation of the sets\<close>

lemma sets_ok_at_record_conflict: "sets_ok_at s w \<Longrightarrow> sets_ok_at (record_conflict v u s) w"
  by (auto simp: sets_ok_at_def)

lemma sets_ok_at_clear_conflict: "sets_ok_at s w \<Longrightarrow> sets_ok_at (clear_conflict v s) w"
  by (auto simp: sets_ok_at_def)

lemma sets_ok_at_absorb: "sets_ok_at s w \<Longrightarrow> sets_ok_at (absorb v its s) w"
  unfolding absorb_def by (induction its arbitrary: s) (simp_all add: sets_ok_at_record_conflict)

lemma sets_ok_at_absorb_fold:
  "sets_ok_at s w \<Longrightarrow> sets_ok_at (fold (\<lambda>u s'. absorb v (conflict s' u) s') os s) w"
  by (induction os arbitrary: s) (simp_all add: sets_ok_at_absorb)

lemma sets_ok_at_augment_conflict: "sets_ok_at s w \<Longrightarrow> sets_ok_at (augment_conflict v s) w"
  using sets_ok_at_absorb_fold [of s w v "in_conflict s v"]
  by (auto simp: augment_conflict_def Let_def sets_ok_at_def)

lemma sets_ok_at_record_fold:
  "sets_ok_at s w \<Longrightarrow>
    sets_ok_at (fold (\<lambda>l s'. if P l then record_conflict v (f l) s' else s') ls s) w"
  by (induction ls arbitrary: s) (simp_all add: sets_ok_at_record_conflict)

lemma sets_ok_at_backprop_conflict: "sets_ok_at s w \<Longrightarrow> sets_ok_at (backprop_conflict F v c s) w"
  by (simp add: backprop_conflict_def sets_ok_at_augment_conflict sets_ok_at_record_fold)

section \<open>Symmetry\<close>

lemma tracker_sym_record_conflict: "tracker_sym n s \<Longrightarrow> tracker_sym n (record_conflict v u s)"
  by (auto simp: tracker_sym_def all_below_iff)


section \<open>The invariants under the operations\<close>

text \<open>
  C30 (invariant I6): if no variable below \<open>n\<close> is a member of its own
  \<open>conflict\<close> or \<open>in_conflict\<close> set, the same holds after clearing the sets of
  a variable, after \<open>augment_conflict\<close> and after \<open>backprop_conflict\<close>, for any
  variable and clause.
\<close>

theorem tracker_irrefl_preserved:
  assumes "tracker_irrefl n s"
  shows "tracker_irrefl n (clear_conflict v s) \<and> tracker_irrefl n (augment_conflict v s)
       \<and> tracker_irrefl n (backprop_conflict F v c s)"
  using assms by (auto simp: tracker_irrefl_def all_below_iff intro: irrefl_at_intros)

theorem tracker_irrefl_preserved_witness:
  "tracker_irrefl 2 (clear_conflict 1 (record_conflict 1 0 t0)) \<and>
   tracker_irrefl 2 (augment_conflict 1 (record_conflict 1 0 t0)) \<and>
   tracker_irrefl 2 (backprop_conflict ex_cnf 1 1 (record_conflict 1 0 t0))"
  using tracker_irrefl_preserved [of 2 "record_conflict 1 0 t0" 1 ex_cnf 1]
  by (simp add: tracker_irrefl_def irrefl_at_def)

text \<open>
  Representation: if the sets of the variables below \<open>n\<close> are strictly
  increasing lists, they still are after clearing, \<open>augment_conflict\<close> and
  \<open>backprop_conflict\<close>; the lists therefore stand for the \<open>std::set\<close> values
  of the source.
\<close>

lemma tracker_sets_ok_preserved:
  assumes "tracker_sets_ok n s"
  shows "tracker_sets_ok n (clear_conflict v s) \<and> tracker_sets_ok n (augment_conflict v s)
       \<and> tracker_sets_ok n (backprop_conflict F v c s)"
  using assms by (auto simp: tracker_sets_ok_def all_below_iff
      intro: sets_ok_at_clear_conflict sets_ok_at_augment_conflict sets_ok_at_backprop_conflict)

section \<open>Symmetry and the clearing of sets\<close>

lemma tracker_sym_iff:
  "tracker_sym n s \<longleftrightarrow>
     (\<forall>u v. 0 \<le> u \<and> u < n \<and> 0 \<le> v \<and> v < n \<longrightarrow>
        (u \<in> set (conflict s v) \<longleftrightarrow> v \<in> set (in_conflict s u)))"
  by (auto simp: tracker_sym_def all_below_iff)

lemma tracker_symD:
  assumes "tracker_sym n s" "0 \<le> u" "u < n" "0 \<le> v" "v < n"
  shows "u \<in> set (conflict s v) \<longleftrightarrow> v \<in> set (in_conflict s u)"
  using assms by (simp add: tracker_sym_iff)

text \<open>
  C36 (clearing and invariant I5): in a tracker whose two maps mirror each
  other below \<open>n\<close>, clearing the two sets of a variable \<open>v\<close>, as \<open>dfs\<close> and
  \<open>do_unit_propagations\<close> do, leaves them mirroring each other exactly when
  the two sets held no other variable below \<open>n\<close>: every member \<open>u\<close> of
  \<open>conflict[v]\<close> leaves \<open>v \<in> in_conflict[u]\<close> behind, and every member of
  \<open>in_conflict[v]\<close> leaves \<open>v \<in> conflict[u]\<close>.
\<close>

theorem clear_breaks_symmetry:
  assumes sym: "tracker_sym n s" and v: "0 \<le> v" "v < n"
  shows "tracker_sym n (clear_conflict v s) \<longleftrightarrow>
           (\<forall>u. 0 \<le> u \<and> u < n \<and> u \<noteq> v \<longrightarrow>
              u \<notin> set (conflict s v) \<and> u \<notin> set (in_conflict s v))"
proof
  assume after: "tracker_sym n (clear_conflict v s)"
  show "\<forall>u. 0 \<le> u \<and> u < n \<and> u \<noteq> v \<longrightarrow>
      u \<notin> set (conflict s v) \<and> u \<notin> set (in_conflict s v)"
  proof (intro allI impI)
    fix u assume "0 \<le> u \<and> u < n \<and> u \<noteq> v"
    then have u: "0 \<le> u" "u < n" and ne: "u \<noteq> v" by simp_all
    note m = tracker_symD [OF sym u v] tracker_symD [OF sym v u]
    from tracker_symD [OF after u v] tracker_symD [OF after v u] m ne
    show "u \<notin> set (conflict s v) \<and> u \<notin> set (in_conflict s v)"
      by (auto split: if_splits)
  qed
next
  assume none: "\<forall>u. 0 \<le> u \<and> u < n \<and> u \<noteq> v \<longrightarrow>
      u \<notin> set (conflict s v) \<and> u \<notin> set (in_conflict s v)"
  with sym v show "tracker_sym n (clear_conflict v s)"
    unfolding tracker_sym_iff by (auto split: if_splits)
qed

theorem clear_breaks_symmetry_witness:
  "tracker_sym 2 (record_conflict 1 0 t0) \<and> \<not> tracker_sym 2 (clear_conflict 1 (record_conflict 1 0 t0))"
  using clear_breaks_symmetry [of 2 "record_conflict 1 0 t0" 1]
  by (simp add: tracker_sym_def)

text \<open>
  C38 (\<open>augment_conflict\<close> and invariant I5): in a tracker whose two maps
  mirror each other below \<open>n\<close>, \<open>augment_conflict(v)\<close> with another variable
  \<open>u\<close> in \<open>in_conflict[v]\<close>, the condition under which \<open>dfs\<close> calls it, leaves a
  tracker whose maps do not mirror each other: the final
  \<open>in_conflict[v].clear()\<close> removes \<open>u\<close> and \<open>conflict[u]\<close> keeps \<open>v\<close>.
\<close>

theorem augment_breaks_symmetry:
  assumes sym: "tracker_sym n s" and v: "0 \<le> v" "v < n" and u: "0 \<le> u" "u < n" "u \<noteq> v"
    and mem: "u \<in> set (in_conflict s v)"
  shows "\<not> tracker_sym n (augment_conflict v s)"
proof
  assume after: "tracker_sym n (augment_conflict v s)"
  from tracker_symD [OF sym v u(1,2)] mem have "v \<in> set (conflict s u)" by simp
  with u(3) have "v \<in> set (conflict (augment_conflict v s) u)" by simp
  with tracker_symD [OF after v u(1,2)] show False by simp
qed

theorem augment_breaks_symmetry_witness:
  "tracker_sym 2 (record_conflict 0 1 t0) \<and> \<not> tracker_sym 2 (augment_conflict 1 (record_conflict 0 1 t0))"
  using augment_breaks_symmetry [of 2 "record_conflict 0 1 t0" 1 0]
  by (simp add: tracker_sym_def)

end
