(* ===== verification/Assignment.thy ===== *)
theory Assignment
  imports Conflict
begin

text \<open>
  The assignment state of \<open>src/sat.cpp\<close> and the routines that write it:
  \<open>enqueue_unit_propagation\<close>, \<open>modify_signed_appearances\<close> with its two
  callers, \<open>assign\<close>, \<open>unassign_upto\<close> and \<open>unassign\<close>. The record \<open>solver\<close>
  extends \<open>tracker\<close> by the remaining mutable globals. The loops of
  \<open>assign\<close> and \<open>unassign_upto\<close> over \<open>appearances[v]\<close> are \<open>assign_loop\<close>
  and \<open>unassign_loop\<close>, which walk the occurrence entries that are left.
\<close>

section \<open>State\<close>

record solver = tracker +
  assn :: "int array"
  satisfier :: "int array"
  rem :: "int array"
  nunsat :: int
  npos_app :: "int array"
  nneg_app :: "int array"
  propagation_queue :: "int array"
  npropped :: int
  npropped_at :: "int array"
  propping_clause :: "int array"

section \<open>Operations\<close>

fun enqueue_loop :: "int list \<Rightarrow> int \<Rightarrow> solver \<Rightarrow> solver" where
  "enqueue_loop [] c s = s"
| "enqueue_loop (v # vs) c s =
     (if assn s (varid v) = 0
      then s\<lparr>propagation_queue := (propagation_queue s)(npropped s := v),
             npropped := npropped s + 1,
             propping_clause := (propping_clause s)(varid v := c)\<rparr>
      else enqueue_loop vs c s)"

definition enqueue_unit_propagation :: "formula \<Rightarrow> int \<Rightarrow> solver \<Rightarrow> solver" where
  "enqueue_unit_propagation F c s = enqueue_loop (clauses F c) c s"

text \<open>
  \<open>modify_signed_appearances\<close> indexes both tallies with the literal \<open>v\<close>
  itself, as the source does, and not with \<open>varid\<close>, which the source
  computes and does not use.
\<close>

fun modify_loop :: "int list \<Rightarrow> int \<Rightarrow> solver \<Rightarrow> solver" where
  "modify_loop [] inc s = s"
| "modify_loop (v # vs) inc s =
     modify_loop vs inc
       (if v < 0
        then s\<lparr>nneg_app := (nneg_app s)(v := nneg_app s v + inc)\<rparr>
        else s\<lparr>npos_app := (npos_app s)(v := npos_app s v + inc)\<rparr>)"

definition modify_signed_appearances :: "formula \<Rightarrow> int \<Rightarrow> int \<Rightarrow> solver \<Rightarrow> solver" where
  "modify_signed_appearances F c inc s = modify_loop (clauses F c) inc s"

definition mark_signed_appearances :: "formula \<Rightarrow> int \<Rightarrow> solver \<Rightarrow> solver" where
  "mark_signed_appearances F c s = modify_signed_appearances F c 1 s"

definition unmark_signed_appearances :: "formula \<Rightarrow> int \<Rightarrow> solver \<Rightarrow> solver" where
  "unmark_signed_appearances F c s = modify_signed_appearances F c (- 1) s"

fun unassign_loop :: "formula \<Rightarrow> int \<Rightarrow> int \<Rightarrow> int list \<Rightarrow> solver \<Rightarrow> solver" where
  "unassign_loop F v sign [] s = s"
| "unassign_loop F v sign (a # as) s =
     (let c = varid a;
          s1 = s\<lparr>rem := (rem s)(c := rem s c + 1)\<rparr>
      in unassign_loop F v sign as
           (if a * sign > 0 then
              (if satisfier s1 c = v + 1
               then unmark_signed_appearances F c
                      (s1\<lparr>satisfier := (satisfier s1)(c := 0), nunsat := nunsat s1 + 1\<rparr>)
               else s1)
            else
              (if sign < 0
               then s1\<lparr>nneg_app := (nneg_app s1)(v := nneg_app s1 v + 1)\<rparr>
               else s1\<lparr>npos_app := (npos_app s1)(v := npos_app s1 v + 1)\<rparr>)))"

definition unassign_upto :: "formula \<Rightarrow> int \<Rightarrow> int \<Rightarrow> int \<Rightarrow> solver \<Rightarrow> solver" where
  "unassign_upto F v sign n s =
     (if assn s v = 0 then s
      else unassign_loop F v sign (take (nat n) (appearances F v))
             (s\<lparr>assn := (assn s)(v := 0)\<rparr>))"

definition unassign :: "formula \<Rightarrow> int \<Rightarrow> int \<Rightarrow> solver \<Rightarrow> solver" where
  "unassign F v sign s = unassign_upto F v sign (napps F v) s"

text \<open>
  \<open>assign_loop F v sign i as s\<close> runs the loop of \<open>assign\<close> from index \<open>i\<close>,
  where \<open>as\<close> are the entries \<open>appearances[v][i..]\<close>. The result is the
  returned flag and the state left behind.
\<close>

fun assign_loop :: "formula \<Rightarrow> int \<Rightarrow> int \<Rightarrow> int \<Rightarrow> int list \<Rightarrow> solver \<Rightarrow> bool \<times> solver" where
  "assign_loop F v sign i [] s = (True, s)"
| "assign_loop F v sign i (a # as) s =
     (let c = varid a;
          s1 = s\<lparr>rem := (rem s)(c := rem s c - 1)\<rparr>
      in if a * sign > 0 then
           (if satisfier s1 c = 0
            then assign_loop F v sign (i + 1) as
                   (mark_signed_appearances F c
                      (s1\<lparr>satisfier := (satisfier s1)(c := v + 1), nunsat := nunsat s1 - 1\<rparr>))
            else assign_loop F v sign (i + 1) as s1)
         else
           (let s2 = (if sign < 0
                      then s1\<lparr>nneg_app := (nneg_app s1)(v := nneg_app s1 v - 1)\<rparr>
                      else s1\<lparr>npos_app := (npos_app s1)(v := npos_app s1 v + 1)\<rparr>)
            in if satisfier s2 c = 0 then
                 (if rem s2 c = 0
                  then (False, unassign_upto F v sign (i + 1) (backprop_conflict F v c s2))
                  else if rem s2 c = 1
                  then assign_loop F v sign (i + 1) as (enqueue_unit_propagation F c s2)
                  else assign_loop F v sign (i + 1) as s2)
               else assign_loop F v sign (i + 1) as s2))"

definition assign :: "formula \<Rightarrow> int \<Rightarrow> int \<Rightarrow> solver \<Rightarrow> bool \<times> solver" where
  "assign F v sign s =
     (if assn s v \<noteq> 0 then (True, s)
      else assign_loop F v sign 0 (appearances F v) (s\<lparr>assn := (assn s)(v := sign)\<rparr>))"


section \<open>Invariants of the assignment state\<close>

text \<open>
  \<open>agrees sign c as\<close>: some occurrence entry of \<open>as\<close> names clause \<open>c\<close> with
  the polarity of \<open>sign\<close>. The four invariants are I1 to I3 of the
  specification, I2 in its two directions: the counter \<open>rem[c]\<close> is the
  number of unset literals of \<open>c\<close>; a clause with a satisfier has a true
  literal of that variable; a clause without one has no true literal;
  \<open>nunsat\<close> counts the clauses without a satisfier.
\<close>

definition agrees :: "int \<Rightarrow> int \<Rightarrow> int list \<Rightarrow> bool" where
  "agrees sign c as \<longleftrightarrow> (\<exists>a\<in>set as. varid a = c \<and> 0 < a * sign)"

definition unset_count :: "int array \<Rightarrow> int list \<Rightarrow> int" where
  "unset_count a ls = count_where (\<lambda>l. a (varid l) = 0) ls"

definition rem_ok :: "formula \<Rightarrow> solver \<Rightarrow> bool" where
  "rem_ok F s \<longleftrightarrow> all_below (C F) (\<lambda>c. rem s c = unset_count (assn s) (clauses F c))"

definition satisfier_sound :: "formula \<Rightarrow> solver \<Rightarrow> bool" where
  "satisfier_sound F s \<longleftrightarrow>
     all_below (C F) (\<lambda>c. satisfier s c = 0 \<or>
       (\<exists>l\<in>set (clauses F c). varid l + 1 = satisfier s c \<and> lit_true (assn s) l))"

definition satisfier_complete :: "formula \<Rightarrow> solver \<Rightarrow> bool" where
  "satisfier_complete F s \<longleftrightarrow>
     all_below (C F) (\<lambda>c. satisfier s c = 0 \<longrightarrow> \<not> clause_sat (assn s) (clauses F c))"

definition nunsat_ok :: "formula \<Rightarrow> solver \<Rightarrow> bool" where
  "nunsat_ok F s \<longleftrightarrow> nunsat s = zeros (C F) (satisfier s)"

definition assignment_inv :: "formula \<Rightarrow> solver \<Rightarrow> bool" where
  "assignment_inv F s \<longleftrightarrow>
     rem_ok F s \<and> satisfier_sound F s \<and> satisfier_complete F s \<and> nunsat_ok F s"

text \<open>
  \<open>sole_satisfier F s v\<close>: in every clause whose satisfier is \<open>v\<close>, the true
  literals are literals of \<open>v\<close>. It holds of the variable assigned last.
\<close>

definition sole_satisfier :: "formula \<Rightarrow> solver \<Rightarrow> int \<Rightarrow> bool" where
  "sole_satisfier F s v \<longleftrightarrow>
     all_below (C F) (\<lambda>c. satisfier s c = v + 1 \<longrightarrow>
       (\<forall>l\<in>set (clauses F c). lit_true (assn s) l \<longrightarrow> varid l = v))"

text \<open>
  The state \<open>main\<close> builds for \<open>ex_cnf\<close>, with the tallies left at zero: the
  theorems below are instantiated at it.
\<close>

abbreviation ex_start :: solver where
  "ex_start \<equiv> \<lparr>conflict = (\<lambda>_. []), in_conflict = (\<lambda>_. []), assn = (\<lambda>_. 0),
     satisfier = (\<lambda>_. 0), rem = (\<lambda>c. if c = 0 then 1 else if c = 1 then 2 else 0), nunsat = 2,
     npos_app = (\<lambda>_. 0), nneg_app = (\<lambda>_. 0), propagation_queue = (\<lambda>_. 0), npropped = 0,
     npropped_at = (\<lambda>_. 0), propping_clause = (\<lambda>_. 0)\<rparr>"

abbreviation ex_assigned :: solver where
  "ex_assigned \<equiv> snd (assign ex_cnf 0 1 ex_start)"

lemmas assignment_inv_defs [inv_defs] =
  assignment_inv_def rem_ok_def satisfier_sound_def satisfier_complete_def nunsat_ok_def

section \<open>The example state\<close>

lemma ex_start_inv: "assignment_inv ex_cnf ex_start"
  by code_simp

lemma ex_assign_True: "fst (assign ex_cnf 0 1 ex_start)"
  by code_simp

lemma ex_assign_False: "\<not> fst (assign ex_cnf 0 (- 1) ex_start)"
  by code_simp

lemma ex_assigned_inv: "assignment_inv ex_cnf ex_assigned"
  by code_simp

lemma ex_assigned_sole: "sole_satisfier ex_cnf ex_assigned 0"
  by code_simp

lemma ex_assigned_value: "assn ex_assigned 0 = 1"
  by code_simp


section \<open>What the operations leave unchanged\<close>

lemma solver_tracker_frame:
  fixes s :: solver
  assumes "tracker.more s' = tracker.more s"
  shows "assn s' = assn s" "satisfier s' = satisfier s" "rem s' = rem s" "nunsat s' = nunsat s"
    "npos_app s' = npos_app s" "nneg_app s' = nneg_app s"
    "propagation_queue s' = propagation_queue s" "npropped s' = npropped s"
    "npropped_at s' = npropped_at s" "propping_clause s' = propping_clause s"
  by (subst tracker_only [OF assms], simp)+

lemmas record_conflict_frame [simp, frame] = solver_tracker_frame [OF more_record_conflict]
lemmas clear_conflict_frame [simp, frame] = solver_tracker_frame [OF more_clear_conflict]
lemmas augment_conflict_frame [simp, frame] = solver_tracker_frame [OF more_augment_conflict]
lemmas backprop_conflict_frame [simp, frame] = solver_tracker_frame [OF more_backprop_conflict]

lemma enqueue_loop_frame [simp, frame]:
  "assn (enqueue_loop ls c s) = assn s" "satisfier (enqueue_loop ls c s) = satisfier s"
  "rem (enqueue_loop ls c s) = rem s" "nunsat (enqueue_loop ls c s) = nunsat s"
  "npos_app (enqueue_loop ls c s) = npos_app s" "nneg_app (enqueue_loop ls c s) = nneg_app s"
  "npropped_at (enqueue_loop ls c s) = npropped_at s"
  "conflict (enqueue_loop ls c s) = conflict s" "in_conflict (enqueue_loop ls c s) = in_conflict s"
  by (induction ls) simp_all

lemma enqueue_unit_propagation_frame [simp, frame]:
  "assn (enqueue_unit_propagation F c s) = assn s"
  "satisfier (enqueue_unit_propagation F c s) = satisfier s"
  "rem (enqueue_unit_propagation F c s) = rem s"
  "nunsat (enqueue_unit_propagation F c s) = nunsat s"
  "npos_app (enqueue_unit_propagation F c s) = npos_app s"
  "nneg_app (enqueue_unit_propagation F c s) = nneg_app s"
  "npropped_at (enqueue_unit_propagation F c s) = npropped_at s"
  "conflict (enqueue_unit_propagation F c s) = conflict s"
  "in_conflict (enqueue_unit_propagation F c s) = in_conflict s"
  by (simp_all add: enqueue_unit_propagation_def)

lemma modify_loop_frame [simp, frame]:
  "assn (modify_loop ls inc s) = assn s" "satisfier (modify_loop ls inc s) = satisfier s"
  "rem (modify_loop ls inc s) = rem s" "nunsat (modify_loop ls inc s) = nunsat s"
  "propagation_queue (modify_loop ls inc s) = propagation_queue s"
  "npropped (modify_loop ls inc s) = npropped s"
  "npropped_at (modify_loop ls inc s) = npropped_at s"
  "propping_clause (modify_loop ls inc s) = propping_clause s"
  "conflict (modify_loop ls inc s) = conflict s" "in_conflict (modify_loop ls inc s) = in_conflict s"
  by (induction ls arbitrary: s) simp_all

lemma mark_frame [simp, frame]:
  "assn (mark_signed_appearances F c s) = assn s"
  "satisfier (mark_signed_appearances F c s) = satisfier s"
  "rem (mark_signed_appearances F c s) = rem s"
  "nunsat (mark_signed_appearances F c s) = nunsat s"
  "propagation_queue (mark_signed_appearances F c s) = propagation_queue s"
  "npropped (mark_signed_appearances F c s) = npropped s"
  "npropped_at (mark_signed_appearances F c s) = npropped_at s"
  "propping_clause (mark_signed_appearances F c s) = propping_clause s"
  "conflict (mark_signed_appearances F c s) = conflict s"
  "in_conflict (mark_signed_appearances F c s) = in_conflict s"
  by (simp_all add: mark_signed_appearances_def modify_signed_appearances_def)

lemma unmark_frame [simp, frame]:
  "assn (unmark_signed_appearances F c s) = assn s"
  "satisfier (unmark_signed_appearances F c s) = satisfier s"
  "rem (unmark_signed_appearances F c s) = rem s"
  "nunsat (unmark_signed_appearances F c s) = nunsat s"
  "propagation_queue (unmark_signed_appearances F c s) = propagation_queue s"
  "npropped (unmark_signed_appearances F c s) = npropped s"
  "npropped_at (unmark_signed_appearances F c s) = npropped_at s"
  "propping_clause (unmark_signed_appearances F c s) = propping_clause s"
  "conflict (unmark_signed_appearances F c s) = conflict s"
  "in_conflict (unmark_signed_appearances F c s) = in_conflict s"
  by (simp_all add: unmark_signed_appearances_def modify_signed_appearances_def)

lemma unassign_loop_frame [simp, frame]:
  "assn (unassign_loop F v sign as s) = assn s"
  "propagation_queue (unassign_loop F v sign as s) = propagation_queue s"
  "npropped (unassign_loop F v sign as s) = npropped s"
  "npropped_at (unassign_loop F v sign as s) = npropped_at s"
  "propping_clause (unassign_loop F v sign as s) = propping_clause s"
  "conflict (unassign_loop F v sign as s) = conflict s"
  "in_conflict (unassign_loop F v sign as s) = in_conflict s"
  by (induction as arbitrary: s) (simp_all add: Let_def)

section \<open>The loop of \<open>unassign_upto\<close>, field by field\<close>

lemma agrees_simps [simp]:
  "\<not> agrees sign c []"
  "agrees sign c (a # as) \<longleftrightarrow> (varid a = c \<and> 0 < a * sign) \<or> agrees sign c as"
  "agrees sign c (as @ bs) \<longleftrightarrow> agrees sign c as \<or> agrees sign c bs"
  by (auto simp: agrees_def)

lemma rem_unassign_loop:
  "rem (unassign_loop F v sign as s) c = rem s c + count_where (\<lambda>a. varid a = c) as"
  by (induction as arbitrary: s) (simp_all add: Let_def)

lemma satisfier_unassign_loop:
  "satisfier (unassign_loop F v sign as s) c =
     (if satisfier s c = v + 1 \<and> agrees sign c as then 0 else satisfier s c)"
  by (induction as arbitrary: s) (auto simp: Let_def)

lemma nunsat_unassign_loop:
  assumes "\<forall>a\<in>set as. 0 \<le> varid a \<and> varid a < n" "v + 1 \<noteq> 0"
  shows "nunsat (unassign_loop F v sign as s) - zeros n (satisfier (unassign_loop F v sign as s))
       = nunsat s - zeros n (satisfier s)"
  using assms by (induction as arbitrary: s) (auto simp: Let_def zeros_upd_clear)


section \<open>The loop of \<open>assign\<close>, field by field\<close>

lemma assign_loop_True_frame:
  "assign_loop F v sign i as s = (True, s') \<Longrightarrow>
     assn s' = assn s \<and> conflict s' = conflict s \<and> in_conflict s' = in_conflict s
     \<and> npropped_at s' = npropped_at s"
  by (induction as arbitrary: s i) (auto simp: Let_def split: if_splits)

lemma rem_assign_loop:
  "assign_loop F v sign i as s = (True, s') \<Longrightarrow>
     rem s' c = rem s c - count_where (\<lambda>a. varid a = c) as"
  by (induction as arbitrary: s i) (auto simp: Let_def split: if_splits)

lemma satisfier_assign_loop:
  "assign_loop F v sign i as s = (True, s') \<Longrightarrow>
     satisfier s' c = (if satisfier s c = 0 \<and> agrees sign c as then v + 1 else satisfier s c)"
  by (induction as arbitrary: s i) (auto simp: Let_def split: if_splits)

lemma nunsat_assign_loop:
  assumes "\<forall>a\<in>set as. 0 \<le> varid a \<and> varid a < n" "v + 1 \<noteq> 0"
    and "assign_loop F v sign i as s = (True, s')"
  shows "nunsat s' - zeros n (satisfier s') = nunsat s - zeros n (satisfier s)"
  using assms
  by (induction as arbitrary: s i) (auto simp: Let_def zeros_upd_set split: if_splits)

lemma unassign_upto_prefix:
  assumes "appearances F v = pre @ a # as" "i = int (length pre)" "assn s v \<noteq> 0"
  shows "unassign_upto F v sign (i + 1) s
       = unassign_loop F v sign (pre @ [a]) (s\<lparr>assn := (assn s)(v := 0)\<rparr>)"
  using assms by (simp add: unassign_upto_def nat_add_distrib)

text \<open>
  A failed run of the loop, started at index \<open>i\<close> behind the entries \<open>pre\<close>,
  has undone those entries: the fields are what \<open>unassign_loop\<close> over
  \<open>pre\<close> makes of them. The hypothesis on \<open>satisfier\<close> is the loop invariant
  that a clause satisfied by \<open>v\<close> was satisfied by an entry already walked.
\<close>

lemma assign_loop_False:
  assumes "assign_loop F v sign i as s = (False, s')"
    and "appearances F v = pre @ as" "i = int (length pre)" "assn s v \<noteq> 0"
    and "\<forall>a\<in>set (appearances F v). satisfier s (varid a) = v + 1 \<longrightarrow> agrees sign (varid a) pre"
  shows "assn s' = (assn s)(v := 0)
       \<and> (\<forall>c. rem s' c = rem s c + count_where (\<lambda>a. varid a = c) pre)
       \<and> (\<forall>c. satisfier s' c =
              (if satisfier s c = v + 1 \<and> agrees sign c pre then 0 else satisfier s c))"
  using assms
proof (induction as arbitrary: s i pre)
  case Nil
  then show ?case by simp
next
  case (Cons a as)
  from Cons.prems(2,3) have *: "appearances F v = (pre @ [a]) @ as"
      "i + 1 = int (length (pre @ [a]))"
    by simp_all
  note IH = Cons.IH [OF _ *]
  note undo = unassign_upto_prefix [OF Cons.prems(2,3)]
  have a: "a \<in> set (appearances F v)"
    using Cons.prems(2) by simp
  from Cons.prems(1,4,5) a show ?case
    by (auto simp: Let_def undo rem_unassign_loop satisfier_unassign_loop
        split: if_splits dest!: IH)
qed

lemma nunsat_assign_loop_False:
  assumes "assign_loop F v sign i as s = (False, s')"
    and "appearances F v = pre @ as" "i = int (length pre)" "assn s v \<noteq> 0"
    and "\<forall>a\<in>set (appearances F v). 0 \<le> varid a \<and> varid a < n" "v + 1 \<noteq> 0"
  shows "nunsat s' - zeros n (satisfier s') = nunsat s - zeros n (satisfier s)"
  using assms
proof (induction as arbitrary: s i pre)
  case Nil
  then show ?case by simp
next
  case (Cons a as)
  from Cons.prems(2,3) have *: "appearances F v = (pre @ [a]) @ as"
      "i + 1 = int (length (pre @ [a]))"
    by simp_all
  note IH = Cons.IH [OF _ * _ Cons.prems(5,6)]
  note undo = unassign_upto_prefix [OF Cons.prems(2,3)]
  have a: "0 \<le> varid a \<and> varid a < n" "\<forall>a\<in>set (pre @ [a]). 0 \<le> varid a \<and> varid a < n"
    using Cons.prems(2,5) by simp_all
  from Cons.prems(1,4,6) a(1) show ?case
    by (auto simp: Let_def undo nunsat_unassign_loop [OF a(2)] zeros_upd_set
        zeros_upd_set [unfolded fun_upd_def] split: if_splits dest!: IH)
qed

section \<open>\<open>assign\<close> keeps the invariants\<close>

lemma unset_count_upd:
  "a v = 0 \<Longrightarrow> x \<noteq> 0 \<Longrightarrow>
    unset_count (a(v := x)) ls = unset_count a ls - count_where (\<lambda>l. varid l = v) ls"
  unfolding unset_count_def by (induction ls) auto

lemma unset_count_clear:
  "a v \<noteq> 0 \<Longrightarrow>
    unset_count (a(v := 0)) ls = unset_count a ls + count_where (\<lambda>l. varid l = v) ls"
  unfolding unset_count_def by (induction ls) auto

lemma agrees_iff_lit:
  assumes "wf_formula F" "0 \<le> v" "v < V F" "0 \<le> c" "c < C F"
  shows "agrees sign c (appearances F v) \<longleftrightarrow>
    (\<exists>l\<in>set (clauses F c). varid l = v \<and> 0 < l * sign)"
proof
  assume "agrees sign c (appearances F v)"
  then obtain a where a: "a \<in> set (appearances F v)" "varid a = c" "0 < a * sign"
    by (auto simp: agrees_def)
  from wf_app_lit [OF assms(1-3) a(1)] a(2,3)
  show "\<exists>l\<in>set (clauses F c). varid l = v \<and> 0 < l * sign"
    by metis
next
  assume "\<exists>l\<in>set (clauses F c). varid l = v \<and> 0 < l * sign"
  then obtain l where l: "l \<in> set (clauses F c)" "varid l = v" "0 < l * sign"
    by auto
  from wf_lit_app [OF assms(1,4,5) l(1)] l(2,3)
  show "agrees sign c (appearances F v)"
    unfolding agrees_def by metis
qed

lemma agrees_range:
  assumes "wf_formula F" "0 \<le> v" "v < V F" "agrees sign c (appearances F v)"
  shows "0 \<le> c \<and> c < C F"
  using assms by (auto simp: agrees_def dest: wf_app_range)

lemma no_satisfier_of_unset:
  assumes "wf_formula F" "0 \<le> v" "v < V F" "satisfier_sound F s" "assn s v = 0"
    and "a \<in> set (appearances F v)"
  shows "satisfier s (varid a) \<noteq> v + 1"
proof
  assume eq: "satisfier s (varid a) = v + 1"
  from wf_app_range [OF assms(1-3,6)] have c: "0 \<le> varid a" "varid a < C F"
    by simp_all
  with assms(2,4) eq obtain l where "varid l + 1 = v + 1" "lit_true (assn s) l"
    by (auto simp: satisfier_sound_def all_below_iff)
  with assms(5) show False by simp
qed


lemma assign_True_loop:
  assumes "assign F v sign s = (True, s')" "assn s v = 0"
  shows "assign_loop F v sign 0 (appearances F v) (s\<lparr>assn := (assn s)(v := sign)\<rparr>) = (True, s')"
  using assms by (simp add: assign_def)

lemma assign_False_loop:
  assumes "assign F v sign s = (False, s')"
  shows "assn s v = 0"
    and "assign_loop F v sign 0 (appearances F v) (s\<lparr>assn := (assn s)(v := sign)\<rparr>) = (False, s')"
  using assms by (auto simp: assign_def split: if_splits)

lemma assign_set: "assign F v sign s = (True, s') \<Longrightarrow> assn s v \<noteq> 0 \<Longrightarrow> s' = s"
  by (simp add: assign_def)

lemma assign_assn:
  assumes "assign F v sign s = (True, s')" "assn s v = 0"
  shows "assn s' = (assn s)(v := sign)"
  using assign_loop_True_frame [OF assign_True_loop [OF assms]] by simp

lemma assign_False_fields:
  assumes wf: "wf_formula F" "0 \<le> v" "v < V F" and sound: "satisfier_sound F s"
    and fail: "assign F v sign s = (False, s')" and sign: "sign \<noteq> 0"
  shows "assn s' = assn s \<and> rem s' = rem s \<and> satisfier s' = satisfier s \<and> nunsat s' = nunsat s"
proof -
  let ?s0 = "s\<lparr>assn := (assn s)(v := sign)\<rparr>"
  note unset = assign_False_loop(1) [OF fail] and loop = assign_False_loop(2) [OF fail]
  have H: "\<forall>a\<in>set (appearances F v). satisfier ?s0 (varid a) = v + 1 \<longrightarrow> agrees sign (varid a) []"
    using no_satisfier_of_unset [OF wf sound unset] by simp
  from assign_loop_False [OF loop _ _ _ H] sign unset
  have fields: "assn s' = assn s" "rem s' = rem s" "satisfier s' = satisfier s"
    by (auto simp: fun_eq_iff)
  have "\<forall>a\<in>set (appearances F v). 0 \<le> varid a \<and> varid a < C F"
    using wf_app_range [OF wf] by blast
  from nunsat_assign_loop_False [OF loop _ _ _ this] sign wf(2) fields(3)
  have "nunsat s' = nunsat s" by simp
  with fields show ?thesis by simp
qed

text \<open>
  C8 (failure leaves no trace in the clause state): when \<open>assign\<close> of a
  non-zero sign to a variable of a well-formed formula returns false, in a
  state whose satisfiers are sound, the fields \<open>assn\<close>, \<open>rem\<close>, \<open>satisfier\<close>
  and \<open>nunsat\<close> are what they were before the call: \<open>unassign_upto(v, sign,
  i + 1)\<close> undoes exactly the entries the loop had processed.
\<close>

theorem assign_failure_restores:
  assumes "wf_formula F" "0 \<le> v" "v < V F" "satisfier_sound F s"
    and "assign F v sign s = (False, s')" "sign \<noteq> 0"
  shows "assn s' = assn s \<and> rem s' = rem s \<and> satisfier s' = satisfier s \<and> nunsat s' = nunsat s"
  using assms by (rule assign_False_fields)

theorem assign_failure_restores_witness:
  "\<not> fst (assign ex_cnf 0 (- 1) ex_start) \<and>
   assn (snd (assign ex_cnf 0 (- 1) ex_start)) = assn ex_start \<and>
   rem (snd (assign ex_cnf 0 (- 1) ex_start)) = rem ex_start \<and>
   satisfier (snd (assign ex_cnf 0 (- 1) ex_start)) = satisfier ex_start \<and>
   nunsat (snd (assign ex_cnf 0 (- 1) ex_start)) = nunsat ex_start"
  using assign_failure_restores [of ex_cnf 0 ex_start "- 1" "snd (assign ex_cnf 0 (- 1) ex_start)"]
    ex_cnf_wf ex_start_inv ex_assign_False
  by (simp add: prod_eq_iff assignment_inv_def)


lemma assign_rem_ok:
  assumes wf: "wf_formula F" "0 \<le> v" "v < V F" and sign: "sign \<noteq> 0"
    and ok: "rem_ok F s" and run: "assign F v sign s = (True, s')"
  shows "rem_ok F s'"
proof (cases "assn s v = 0")
  case False
  with ok show ?thesis using assign_set [OF run] by simp
next
  case True
  note loop = assign_True_loop [OF run True]
  show ?thesis
    unfolding rem_ok_def
  proof (rule all_belowI)
    fix c assume c: "0 \<le> c" "c < C F"
    with ok have "rem s c = unset_count (assn s) (clauses F c)"
      by (simp add: rem_ok_def all_below_iff)
    with c True sign show "rem s' c = unset_count (assn s') (clauses F c)"
      by (simp add: rem_assign_loop [OF loop] assign_assn [OF run True]
          wf_app_count [OF wf] unset_count_upd)
  qed
qed

lemma assign_satisfier_sound:
  assumes wf: "wf_formula F" "0 \<le> v" "v < V F"
    and ok: "satisfier_sound F s" and run: "assign F v sign s = (True, s')"
  shows "satisfier_sound F s'"
proof (cases "assn s v = 0")
  case False
  with ok show ?thesis using assign_set [OF run] by simp
next
  case True
  note loop = assign_True_loop [OF run True]
  note sat = satisfier_assign_loop [OF loop, simplified]
  note a' = assign_assn [OF run True]
  show ?thesis
    unfolding satisfier_sound_def
  proof (rule all_belowI)
    fix c assume c: "0 \<le> c" "c < C F"
    show "satisfier s' c = 0 \<or>
      (\<exists>l\<in>set (clauses F c). varid l + 1 = satisfier s' c \<and> lit_true (assn s') l)"
    proof (cases "satisfier s c = 0")
      case True
      then show ?thesis
        using wf(2) by (auto simp: sat a' agrees_iff_lit [OF wf c] lit_true_def)
    next
      case False
      with ok c obtain l where l: "l \<in> set (clauses F c)" "varid l + 1 = satisfier s c"
          "lit_true (assn s) l"
        by (auto simp: satisfier_sound_def all_below_iff)
      with \<open>assn s v = 0\<close> have "varid l \<noteq> v" by auto
      with l False show ?thesis by (auto simp: sat a')
    qed
  qed
qed

lemma assign_satisfier_complete:
  assumes wf: "wf_formula F" "0 \<le> v" "v < V F"
    and ok: "satisfier_complete F s" and run: "assign F v sign s = (True, s')"
  shows "satisfier_complete F s'"
proof (cases "assn s v = 0")
  case False
  with ok show ?thesis using assign_set [OF run] by simp
next
  case True
  note loop = assign_True_loop [OF run True]
  note sat = satisfier_assign_loop [OF loop, simplified]
  note a' = assign_assn [OF run True]
  show ?thesis
    unfolding satisfier_complete_def
  proof (rule all_belowI, rule impI)
    fix c assume c: "0 \<le> c" "c < C F" and z: "satisfier s' c = 0"
    from z wf(2) have s0: "satisfier s c = 0" and na: "\<not> agrees sign c (appearances F v)"
      by (auto simp: sat split: if_splits)
    from ok c s0 have old: "\<not> clause_sat (assn s) (clauses F c)"
      by (simp add: satisfier_complete_def all_below_iff)
    show "\<not> clause_sat (assn s') (clauses F c)"
      unfolding clause_sat_def
    proof
      assume "\<exists>l\<in>set (clauses F c). lit_true (assn s') l"
      then obtain l where l: "l \<in> set (clauses F c)" "lit_true (assn s') l" by auto
      show False
      proof (cases "varid l = v")
        case True
        with l na show False
          by (auto simp: a' agrees_iff_lit [OF wf c] lit_true_def)
      next
        case False
        with l old show False by (auto simp: a' clause_sat_def)
      qed
    qed
  qed
qed

lemma assign_nunsat_ok:
  assumes wf: "wf_formula F" "0 \<le> v" "v < V F"
    and ok: "nunsat_ok F s" and run: "assign F v sign s = (True, s')"
  shows "nunsat_ok F s'"
proof (cases "assn s v = 0")
  case False
  with ok show ?thesis using assign_set [OF run] by simp
next
  case True
  have "\<forall>a\<in>set (appearances F v). 0 \<le> varid a \<and> varid a < C F"
    using wf_app_range [OF wf] by blast
  from nunsat_assign_loop [OF this _ assign_True_loop [OF run True]] wf(2) ok
  show ?thesis by (simp add: nunsat_ok_def)
qed

lemmas assign_inv_intros =
  assign_rem_ok assign_satisfier_sound assign_satisfier_complete assign_nunsat_ok

lemma assignment_inv_clear_conflict [simp]:
  "assignment_inv F (clear_conflict v s) = assignment_inv F s"
  by (simp add: assignment_inv_defs)

text \<open>
  C4 (invariants I1 to I3 under \<open>assign\<close>): when \<open>assign\<close> of a non-zero
  sign to a variable of a well-formed formula returns true, the state it
  leaves satisfies the assignment invariant again: \<open>rem[c]\<close> is the number of
  unset literals of every clause \<open>c\<close>, a clause has a satisfier exactly when
  one of its literals is true, the satisfier names a variable with a true
  literal in the clause, and \<open>nunsat\<close> is the number of clauses without one.
\<close>

theorem assign_preserves_inv:
  assumes "wf_formula F" "0 \<le> v" "v < V F" "sign \<noteq> 0"
    and "assignment_inv F s" "assign F v sign s = (True, s')"
  shows "assignment_inv F s'"
  using assms unfolding assignment_inv_def by (blast intro: assign_inv_intros)

theorem assign_preserves_inv_witness:
  "fst (assign ex_cnf 0 1 ex_start) \<and> assignment_inv ex_cnf (snd (assign ex_cnf 0 1 ex_start))"
  using assign_preserves_inv [of ex_cnf 0 1 ex_start "snd (assign ex_cnf 0 1 ex_start)"]
    ex_cnf_wf ex_start_inv ex_assign_True
  by (simp add: prod_eq_iff)


section \<open>\<open>unassign\<close> keeps the invariants and undoes \<open>assign\<close>\<close>

lemma unassign_unset: "assn s v = 0 \<Longrightarrow> unassign F v sign s = s"
  by (simp add: unassign_def unassign_upto_def)

lemma unassign_loop_eq:
  "assn s v \<noteq> 0 \<Longrightarrow>
    unassign F v sign s = unassign_loop F v sign (appearances F v) (s\<lparr>assn := (assn s)(v := 0)\<rparr>)"
  by (simp add: unassign_def unassign_upto_def napps_def)

lemma unassign_assn: "assn (unassign F v sign s) = (assn s)(v := 0)"
  by (cases "assn s v = 0") (auto simp: unassign_unset unassign_loop_eq)

lemma unassign_rem_ok:
  assumes wf: "wf_formula F" "0 \<le> v" "v < V F" and ok: "rem_ok F s"
  shows "rem_ok F (unassign F v sign s)"
proof (cases "assn s v = 0")
  case True
  with ok show ?thesis by (simp add: unassign_unset)
next
  case False
  with ok show ?thesis
    by (auto simp: rem_ok_def all_below_iff unassign_loop_eq rem_unassign_loop
        wf_app_count [OF wf] unset_count_clear)
qed

lemma unassign_nunsat_ok:
  assumes wf: "wf_formula F" "0 \<le> v" "v < V F" and ok: "nunsat_ok F s"
  shows "nunsat_ok F (unassign F v sign s)"
proof (cases "assn s v = 0")
  case True
  with ok show ?thesis by (simp add: unassign_unset)
next
  case False
  have "\<forall>a\<in>set (appearances F v). 0 \<le> varid a \<and> varid a < C F"
    using wf_app_range [OF wf] by blast
  from nunsat_unassign_loop [OF this, of v F sign "s\<lparr>assn := (assn s)(v := 0)\<rparr>"] wf(2) ok False
  show ?thesis by (simp add: nunsat_ok_def unassign_loop_eq)
qed

lemma unassign_satisfier_sound:
  assumes wf: "wf_formula F" "0 \<le> v" "v < V F" and ok: "satisfier_sound F s"
    and sign: "0 < assn s v * sign"
  shows "satisfier_sound F (unassign F v sign s)"
  unfolding satisfier_sound_def
proof (rule all_belowI)
  fix c assume c: "0 \<le> c" "c < C F"
  let ?s' = "unassign F v sign s"
  from sign have set: "assn s v \<noteq> 0" by auto
  note sat = satisfier_unassign_loop [of F v sign "appearances F v" "s\<lparr>assn := (assn s)(v := 0)\<rparr>",
      folded unassign_loop_eq [OF set], simplified]
  show "satisfier ?s' c = 0 \<or>
      (\<exists>l\<in>set (clauses F c). varid l + 1 = satisfier ?s' c \<and> lit_true (assn ?s') l)"
  proof (cases "satisfier s c = 0")
    case True
    then show ?thesis by (simp add: sat)
  next
    case False
    with ok c obtain l where l: "l \<in> set (clauses F c)" "varid l + 1 = satisfier s c"
        "lit_true (assn s) l"
      by (auto simp: satisfier_sound_def all_below_iff)
    show ?thesis
    proof (cases "varid l = v")
      case True
      with l sign have "0 < l * sign"
        by (auto simp: lit_true_def mult_sign_pos_iff)
      with l True have "agrees sign c (appearances F v)"
        by (auto simp: agrees_iff_lit [OF wf c])
      with l True show ?thesis by (simp add: sat)
    next
      case False
      with l show ?thesis by (auto simp: sat unassign_assn)
    qed
  qed
qed

lemma unassign_satisfier_complete:
  assumes wf: "wf_formula F" "0 \<le> v" "v < V F" and ok: "satisfier_complete F s"
    and sole: "sole_satisfier F s v"
  shows "satisfier_complete F (unassign F v sign s)"
proof (cases "assn s v = 0")
  case True
  with ok show ?thesis by (simp add: unassign_unset)
next
  case set: False
  let ?s' = "unassign F v sign s"
  note sat = satisfier_unassign_loop [of F v sign "appearances F v" "s\<lparr>assn := (assn s)(v := 0)\<rparr>",
      folded unassign_loop_eq [OF set], simplified]
  show ?thesis
    unfolding satisfier_complete_def
  proof (rule all_belowI, rule impI)
    fix c assume c: "0 \<le> c" "c < C F" and z: "satisfier ?s' c = 0"
    have "varid l = v" if "l \<in> set (clauses F c)" "lit_true (assn s) l" for l
    proof (cases "satisfier s c = 0")
      case True
      with ok c that show ?thesis
        by (auto simp: satisfier_complete_def all_below_iff clause_sat_def)
    next
      case False
      with z have "satisfier s c = v + 1" by (auto simp: sat split: if_splits)
      with sole c that show ?thesis by (auto simp: sole_satisfier_def all_below_iff)
    qed
    then show "\<not> clause_sat (assn ?s') (clauses F c)"
      by (auto simp: clause_sat_def unassign_assn lit_true_def)
  qed
qed

text \<open>
  C16 (round trip I7 for the clause state): a successful \<open>assign\<close> of an
  unset variable followed by \<open>unassign\<close> of the same variable and sign gives
  back the fields \<open>assn\<close>, \<open>rem\<close>, \<open>satisfier\<close> and \<open>nunsat\<close> of the state
  before the \<open>assign\<close>.
\<close>

theorem unassign_undoes_assign:
  assumes wf: "wf_formula F" "0 \<le> v" "v < V F" and sound: "satisfier_sound F s"
    and unset: "assn s v = 0" and sign: "sign \<noteq> 0"
    and run: "assign F v sign s = (True, s1)"
  shows "assn (unassign F v sign s1) = assn s \<and> rem (unassign F v sign s1) = rem s
       \<and> satisfier (unassign F v sign s1) = satisfier s
       \<and> nunsat (unassign F v sign s1) = nunsat s"
proof -
  let ?s2 = "unassign F v sign s1"
  note loop = assign_True_loop [OF run unset]
  note a1 = assign_assn [OF run unset]
  from a1 sign have set1: "assn s1 v \<noteq> 0" by simp
  note un = unassign_loop_eq [OF set1]
  have assn: "assn ?s2 = assn s"
    using unset by (simp add: unassign_assn a1 fun_eq_iff)
  have rem: "rem ?s2 = rem s"
    by (simp add: fun_eq_iff un rem_unassign_loop rem_assign_loop [OF loop])
  have "satisfier ?s2 c = satisfier s c" for c
  proof (cases "agrees sign c (appearances F v)")
    case True
    then obtain a where "a \<in> set (appearances F v)" "varid a = c"
      by (auto simp: agrees_def)
    with no_satisfier_of_unset [OF wf sound unset] have "satisfier s c \<noteq> v + 1"
      by auto
    with True wf(2) show ?thesis
      by (simp add: un satisfier_unassign_loop satisfier_assign_loop [OF loop])
  next
    case False
    then show ?thesis
      by (simp add: un satisfier_unassign_loop satisfier_assign_loop [OF loop])
  qed
  then have sat: "satisfier ?s2 = satisfier s" by (simp add: fun_eq_iff)
  have range: "\<forall>a\<in>set (appearances F v). 0 \<le> varid a \<and> varid a < C F"
    using wf_app_range [OF wf] by blast
  from nunsat_assign_loop [OF range _ loop]
    nunsat_unassign_loop [OF range, of v F sign "s1\<lparr>assn := (assn s1)(v := 0)\<rparr>"] wf(2) sat
  have "nunsat ?s2 = nunsat s" by (simp add: un)
  with assn rem sat show ?thesis by simp
qed

theorem unassign_undoes_assign_witness:
  "rem (unassign ex_cnf 0 1 (snd (assign ex_cnf 0 1 ex_start))) = rem ex_start \<and>
   satisfier (unassign ex_cnf 0 1 (snd (assign ex_cnf 0 1 ex_start))) = satisfier ex_start \<and>
   nunsat (unassign ex_cnf 0 1 (snd (assign ex_cnf 0 1 ex_start))) = nunsat ex_start"
  using unassign_undoes_assign [of ex_cnf 0 ex_start 1 "snd (assign ex_cnf 0 1 ex_start)"]
    ex_cnf_wf ex_start_inv ex_assign_True
  by (simp add: prod_eq_iff assignment_inv_def)


section \<open>Where a failed \<open>assign\<close> stopped\<close>

lemma assign_loop_False_entry:
  assumes "assign_loop F v sign i as s = (False, s')"
  obtains pre a post t where "as = pre @ a # post" "\<not> 0 < a * sign"
    "assign_loop F v sign i pre s = (True, t)"
    "satisfier t (varid a) = 0" "rem t (varid a) = 1"
  using assms
proof (induction as arbitrary: s i thesis)
  case Nil
  then show ?case by simp
next
  case (Cons a as)
  show ?case
  proof (cases "assign_loop F v sign i [a] s")
    case (Pair ok t)
    show ?thesis
    proof (cases ok)
      case True
      with Pair Cons.prems(2) have nxt: "assign_loop F v sign (i + 1) as t = (False, s')"
        by (auto simp: Let_def split: if_splits)
      show ?thesis
      proof (rule Cons.IH [OF _ nxt])
        fix pre b post u
        assume *: "as = pre @ b # post" "\<not> 0 < b * sign"
          "assign_loop F v sign (i + 1) pre t = (True, u)"
          "satisfier u (varid b) = 0" "rem u (varid b) = 1"
        from Pair True *(3) have "assign_loop F v sign i (a # pre) s = (True, u)"
          by (auto simp: Let_def split: if_splits)
        with * show thesis
          by (intro Cons.prems(1) [of "a # pre" b post u]) simp_all
      qed
    next
      case False
      with Pair have "\<not> 0 < a * sign" "satisfier s (varid a) = 0" "rem s (varid a) = 1"
        by (auto simp: Let_def split: if_splits)
      then show ?thesis
        by (intro Cons.prems(1) [of "[]" a as s]) simp_all
    qed
  qed
qed


section \<open>The tracker after a failed \<open>assign\<close>\<close>

lemma unassign_upto_frame [simp, frame]:
  "conflict (unassign_upto F v sign n s) = conflict s"
  "in_conflict (unassign_upto F v sign n s) = in_conflict s"
  "propagation_queue (unassign_upto F v sign n s) = propagation_queue s"
  "npropped (unassign_upto F v sign n s) = npropped s"
  "npropped_at (unassign_upto F v sign n s) = npropped_at s"
  "propping_clause (unassign_upto F v sign n s) = propping_clause s"
  by (simp_all add: unassign_upto_def)

lemma assign_loop_False_in_conflict:
  "assign_loop F v sign i as s = (False, s') \<Longrightarrow> in_conflict s' v = []"
  by (induction as arbitrary: s i) (auto simp: Let_def split: if_splits)

lemma assign_False_in_conflict: "assign F v sign s = (False, s') \<Longrightarrow> \<not> in_conflict_set v s'"
  by (auto simp: assign_def in_conflict_set_def split: if_splits dest: assign_loop_False_in_conflict)


section \<open>The clause a failed \<open>assign\<close> found\<close>

lemma assign_False_clause:
  assumes wf: "wf_formula F" "0 \<le> v" "v < V F"
    and rem: "rem_ok F s" and fail: "assign F v sign s = (False, s')"
  obtains c where "0 \<le> c" "c < C F" "satisfier s c = 0"
    "\<not> agrees sign c (appearances F v)"
    "unset_count (assn s) (clauses F c) = count_where (\<lambda>l. varid l = v) (clauses F c)"
    "\<exists>a\<in>set (appearances F v). varid a = c"
proof -
  let ?s0 = "s\<lparr>assn := (assn s)(v := sign)\<rparr>"
  note unset = assign_False_loop(1) [OF fail] and loop = assign_False_loop(2) [OF fail]
  from loop obtain pre a post t where
    apps: "appearances F v = pre @ a # post" and dis: "\<not> 0 < a * sign"
    and run: "assign_loop F v sign 0 pre ?s0 = (True, t)"
    and t: "satisfier t (varid a) = 0" "rem t (varid a) = 1"
    by (rule assign_loop_False_entry)
  let ?c = "varid a"
  let ?ls = "clauses F ?c"
  have a: "a \<in> set (appearances F v)" using apps by simp
  from wf_app_range [OF wf a] have c: "0 \<le> ?c" "?c < C F" by simp_all
  from t(1) wf(2) have s0: "satisfier s ?c = 0" and npre: "\<not> agrees sign ?c pre"
    by (auto simp: satisfier_assign_loop [OF run] split: if_splits)
  from t(2) have "rem s ?c = count_where (\<lambda>b. varid b = ?c) pre + 1"
    by (simp add: rem_assign_loop [OF run])
  with rem c have uc: "unset_count (assn s) ?ls = count_where (\<lambda>b. varid b = ?c) pre + 1"
    by (simp add: rem_ok_def all_below_iff)
  have vc: "count_where (\<lambda>l. varid l = v) ?ls
      = count_where (\<lambda>b. varid b = ?c) pre + 1 + count_where (\<lambda>b. varid b = ?c) post"
    using wf_app_count [OF wf, of ?c] c by (simp add: apps)
  have le: "count_where (\<lambda>l. varid l = v) ?ls \<le> unset_count (assn s) ?ls"
    unfolding unset_count_def using unset by (intro count_where_mono) auto
  from uc vc le have post: "count_where (\<lambda>b. varid b = ?c) post = 0"
    and eq: "unset_count (assn s) ?ls = count_where (\<lambda>l. varid l = v) ?ls"
    using count_where_nonneg [of "\<lambda>b. varid b = ?c" post] by linarith+
  from post npre dis have "\<not> agrees sign ?c (appearances F v)"
    by (auto simp: apps agrees_def count_where_zero_iff)
  with c s0 eq a show thesis by (intro that [of ?c]) auto
qed

lemma assign_False_falsified:
  assumes wf: "wf_formula F" "0 \<le> v" "v < V F" and sign: "sign \<noteq> 0"
    and rem: "rem_ok F s" and compl: "satisfier_complete F s"
    and fail: "assign F v sign s = (False, s')"
  obtains c where "0 \<le> c" "c < C F" "\<exists>a\<in>set (appearances F v). varid a = c"
    "\<forall>l\<in>set (clauses F c). l * ((assn s)(v := sign)) (varid l) < 0"
proof -
  note unset = assign_False_loop(1) [OF fail]
  from wf rem fail obtain c where c: "0 \<le> c" "c < C F" and s0: "satisfier s c = 0"
    and nagree: "\<not> agrees sign c (appearances F v)"
    and eq: "unset_count (assn s) (clauses F c) = count_where (\<lambda>l. varid l = v) (clauses F c)"
    and app: "\<exists>a\<in>set (appearances F v). varid a = c"
    by (rule assign_False_clause)
  let ?ls = "clauses F c"
  from compl c s0 have old: "\<not> clause_sat (assn s) ?ls"
    by (simp add: satisfier_complete_def all_below_iff)
  have "l * ((assn s)(v := sign)) (varid l) < 0" if l: "l \<in> set ?ls" for l
  proof (cases "varid l = v")
    case True
    from wf_lit [OF wf(1) c l] have "l \<noteq> 0" by simp
    moreover from nagree True l have "\<not> 0 < l * sign"
      by (auto simp: agrees_iff_lit [OF wf c])
    ultimately show ?thesis using True sign
      by (auto simp: mult_less_0_iff zero_less_mult_iff not_less)
  next
    case False
    from wf_lit [OF wf(1) c l] have "l \<noteq> 0" by simp
    moreover have "assn s (varid l) \<noteq> 0"
      using count_where_eq_imp [of ?ls "\<lambda>l. varid l = v" "\<lambda>l. assn s (varid l) = 0" l]
        eq unset l False
      by (auto simp: unset_count_def)
    moreover from old l have "\<not> 0 < l * assn s (varid l)"
      by (auto simp: clause_sat_def lit_true_def)
    ultimately show ?thesis using False
      by (auto simp: mult_less_0_iff zero_less_mult_iff not_less)
  qed
  with c app show thesis by (intro that [of c]) auto
qed

text \<open>
  C17 (a failure is a real conflict): when \<open>assign\<close> of a non-zero sign to a
  variable of a well-formed formula returns false, in a state whose counters
  \<open>rem\<close> are right and whose clauses without satisfier have no true literal,
  some clause of the formula has every literal false under the old values
  extended by the attempted one.
\<close>

theorem assign_conflict_falsified:
  assumes "wf_formula F" "0 \<le> v" "v < V F" "sign \<noteq> 0"
    and "rem_ok F s" "satisfier_complete F s" "assign F v sign s = (False, s')"
  shows "\<exists>c. 0 \<le> c \<and> c < C F \<and>
           (\<forall>l\<in>set (clauses F c). l * ((assn s)(v := sign)) (varid l) < 0)"
  using assign_False_falsified [OF assms] by metis

theorem assign_conflict_falsified_witness:
  "\<exists>c. 0 \<le> c \<and> c < C ex_cnf \<and>
     (\<forall>l\<in>set (clauses ex_cnf c). l * ((assn ex_start)(0 := - 1)) (varid l) < 0)"
  using assign_conflict_falsified [of ex_cnf 0 "- 1" ex_start "snd (assign ex_cnf 0 (- 1) ex_start)"]
    ex_cnf_wf ex_start_inv ex_assign_False
  by (simp add: prod_eq_iff assignment_inv_def)


lemma assignment_inv_cong:
  assumes "assn s' = assn s" "rem s' = rem s" "satisfier s' = satisfier s" "nunsat s' = nunsat s"
  shows "rem_ok F s' = rem_ok F s" "satisfier_sound F s' = satisfier_sound F s"
    "satisfier_complete F s' = satisfier_complete F s" "nunsat_ok F s' = nunsat_ok F s"
    "assignment_inv F s' = assignment_inv F s"
  using assms by (simp_all add: assignment_inv_defs)

section \<open>A state with no unsatisfied clause\<close>

lemma inv_nunsat_zero:
  assumes "0 \<le> C F" "assignment_inv F s" "nunsat s = 0"
  shows "formula_sat F (assn s)"
  using assms
  by (auto simp: formula_sat_def assignment_inv_def satisfier_sound_def nunsat_ok_def
      all_below_iff clause_sat_def zeros_zero_iff)

section \<open>\<open>unassign\<close> and the invariant\<close>

text \<open>
  C24 (invariants I1 to I3 under \<open>unassign\<close>): \<open>unassign\<close> of a variable with
  the sign it holds keeps the assignment invariant, provided the variable is
  the only source of true literals in the clauses it satisfies, which is the
  case for the variable assigned last.
\<close>

theorem unassign_preserves_inv:
  assumes "wf_formula F" "0 \<le> v" "v < V F" "assignment_inv F s"
    and "0 < assn s v * sign" "sole_satisfier F s v"
  shows "assignment_inv F (unassign F v sign s)"
  using assms unfolding assignment_inv_def
  by (blast intro: unassign_rem_ok unassign_satisfier_sound unassign_satisfier_complete
      unassign_nunsat_ok)

theorem unassign_preserves_inv_witness:
  "assignment_inv ex_cnf (unassign ex_cnf 0 1 ex_assigned)"
  using unassign_preserves_inv [of ex_cnf 0 ex_assigned 1]
    ex_cnf_wf ex_assigned_inv ex_assigned_sole ex_assigned_value
  by simp


section \<open>The tallies\<close>

lemma modify_loop_apply:
  "npos_app (modify_loop ls inc s) w = npos_app s w + inc * count_where (\<lambda>l. \<not> l < 0 \<and> l = w) ls"
  "nneg_app (modify_loop ls inc s) w = nneg_app s w + inc * count_where (\<lambda>l. l < 0 \<and> l = w) ls"
  by (induction ls arbitrary: s) (auto simp: algebra_simps)

text \<open>
  C37 (which cells \<open>modify_signed_appearances\<close> writes): the call adds \<open>inc\<close>
  to \<open>npos_app[l]\<close> for every non-negative literal \<open>l\<close> of the clause and to
  \<open>nneg_app[l]\<close> for every negative one: the cell is indexed by the literal
  itself, so a positive literal of variable \<open>l - 1\<close> changes the tally of
  variable \<open>l\<close>, and a negative literal a cell below index 0.
\<close>

theorem modify_signed_appearances_cells:
  "npos_app (modify_signed_appearances F c inc s) w
     = npos_app s w + inc * count_where (\<lambda>l. 0 \<le> l \<and> l = w) (clauses F c) \<and>
   nneg_app (modify_signed_appearances F c inc s) w
     = nneg_app s w + inc * count_where (\<lambda>l. l < 0 \<and> l = w) (clauses F c)"
  by (simp add: modify_signed_appearances_def modify_loop_apply not_less)


section \<open>The queue and the values under \<open>assign\<close>\<close>

lemma unassign_frame [simp, frame]:
  "propagation_queue (unassign F v sign s) = propagation_queue s"
  "npropped (unassign F v sign s) = npropped s"
  "npropped_at (unassign F v sign s) = npropped_at s"
  "propping_clause (unassign F v sign s) = propping_clause s"
  "conflict (unassign F v sign s) = conflict s"
  "in_conflict (unassign F v sign s) = in_conflict s"
  by (simp_all add: unassign_def)

lemma enqueue_loop_queue:
  "n \<le> npropped s \<Longrightarrow> n \<le> npropped (enqueue_loop ls c s)"
  "j < npropped s \<Longrightarrow> propagation_queue (enqueue_loop ls c s) j = propagation_queue s j"
  by (induction ls) simp_all

lemma assign_loop_Cons:
  "assign_loop F v sign i (a # as) s =
     (case assign_loop F v sign i [a] s of
        (True, t) \<Rightarrow> assign_loop F v sign (i + 1) as t
      | (False, t) \<Rightarrow> (False, t))"
  by (simp add: Let_def)

lemma assign_step_queue:
  assumes "assign_loop F v sign i [a] s = (True, t)"
  shows "npropped s \<le> npropped t"
    and "j < npropped s \<Longrightarrow> propagation_queue t j = propagation_queue s j"
  using assms
  by (auto simp: Let_def enqueue_unit_propagation_def enqueue_loop_queue split: if_splits)

lemma assign_loop_True_queue:
  "assign_loop F v sign i as s = (True, s') \<Longrightarrow>
     npropped s \<le> npropped s' \<and>
     (\<forall>j<npropped s. propagation_queue s' j = propagation_queue s j)"
proof (induction as arbitrary: s i)
  case Nil
  then show ?case by simp
next
  case (Cons a as)
  from Cons.prems obtain t where t: "assign_loop F v sign i [a] s = (True, t)"
      and r: "assign_loop F v sign (i + 1) as t = (True, s')"
    unfolding assign_loop_Cons [of F v sign i a as] by (auto split: prod.splits bool.splits)
  from Cons.IH [OF r] assign_step_queue [OF t] show ?case by force
qed

lemma enqueue_loop_new:
  assumes "npropped s \<le> j" "j < npropped (enqueue_loop ls c s)"
  shows "propagation_queue (enqueue_loop ls c s) j \<in> set ls"
  using assms by (induction ls) (auto split: if_splits)

lemma assign_step_new:
  assumes "assign_loop F v sign i [a] s = (True, t)" "npropped s \<le> j" "j < npropped t"
  shows "propagation_queue t j \<in> set (clauses F (varid a))"
  using assms
  by (auto simp: Let_def enqueue_unit_propagation_def enqueue_loop_new split: if_splits)

lemma assign_loop_True_new:
  "assign_loop F v sign i as s = (True, s') \<Longrightarrow> npropped s \<le> j \<Longrightarrow> j < npropped s' \<Longrightarrow>
     \<exists>a\<in>set as. propagation_queue s' j \<in> set (clauses F (varid a))"
proof (induction as arbitrary: s i)
  case Nil
  then show ?case by simp
next
  case (Cons a as)
  from Cons.prems(1) obtain t where t: "assign_loop F v sign i [a] s = (True, t)"
      and r: "assign_loop F v sign (i + 1) as t = (True, s')"
    unfolding assign_loop_Cons [of F v sign i a as] by (auto split: prod.splits bool.splits)
  show ?case
  proof (cases "j < npropped t")
    case True
    with assign_loop_True_queue [OF r] assign_step_new [OF t Cons.prems(2)] show ?thesis
      by simp
  next
    case False
    with Cons.IH [OF r] Cons.prems(3) show ?thesis by auto
  qed
qed

lemma assign_True_queue:
  assumes "assign F v sign s = (True, s')"
  shows "npropped s \<le> npropped s'"
    and "j < npropped s \<Longrightarrow> propagation_queue s' j = propagation_queue s j"
proof -
  show "npropped s \<le> npropped s'"
  proof (cases "assn s v = 0")
    case True
    from assign_loop_True_queue [OF assign_True_loop [OF assms True]] show ?thesis by simp
  qed (use assms in \<open>simp add: assign_def\<close>)
  show "propagation_queue s' j = propagation_queue s j" if "j < npropped s"
  proof (cases "assn s v = 0")
    case True
    from assign_loop_True_queue [OF assign_True_loop [OF assms True]] that show ?thesis by simp
  qed (use assms in \<open>simp add: assign_def\<close>)
qed

lemma assign_True_new:
  assumes wf: "wf_formula F" "0 \<le> v" "v < V F" and run: "assign F v sign s = (True, s')"
    and j: "npropped s \<le> j" "j < npropped s'"
  shows "0 \<le> varid (propagation_queue s' j) \<and> varid (propagation_queue s' j) < V F"
proof (cases "assn s v = 0")
  case True
  from assign_loop_True_new [OF assign_True_loop [OF run True]] j
  obtain a where "a \<in> set (appearances F v)"
      "propagation_queue s' j \<in> set (clauses F (varid a))"
    by auto
  with wf_app_range [OF wf] wf_lit [OF wf(1)] show ?thesis by blast
next
  case False
  with run j show ?thesis by (simp add: assign_def)
qed

lemma assign_True_assn:
  assumes "assign F v sign s = (True, s')" "sign \<noteq> 0"
  shows "assn s' v \<noteq> 0" and "assn s w \<noteq> 0 \<Longrightarrow> assn s' w = assn s w"
  using assms assign_assn [of F v sign s s'] assign_set [of F v sign s s']
  by (cases "assn s v = 0"; auto)+

lemma assign_True_unset_less:
  assumes "0 \<le> V F" "0 \<le> v" "v < V F" "sign \<noteq> 0" "assn s v = 0"
    and "assign F v sign s = (True, s')"
  shows "zeros (V F) (assn s') = zeros (V F) (assn s) - 1"
  using assms by (simp add: assign_assn zeros_upd_set)

end
