(* ===== verification/Units.thy ===== *)
theory Units
  imports Assignment
begin

text \<open>
  Unit clauses and the propagation queue (\<open>src/sat.cpp\<close>, \<open>assign\<close> lines
  157-199 with \<open>enqueue_unit_propagation\<close> lines 126-136). The loop of
  \<open>assign\<close> enqueues the unset literals of a clause at the moment its counter
  \<open>rem\<close> falls to 1. This theory states what a queue entry then is, a
  literal whose variable holds the literal's sign or the last unset literal
  of a clause without satisfier, and shows that an \<open>assign\<close> that returns
  true keeps every entry of the queue such a literal: the entries it adds,
  and the entries that were there.
\<close>

section \<open>What a queue entry is\<close>

text \<open>
  \<open>unit_for F s l\<close>: some clause of the formula has no satisfier, one unset
  literal left, and contains \<open>l\<close>. \<open>entry_ok\<close>: the literal names a variable
  of the formula which, when unset, is the last literal of such a clause and,
  when set, has the sign of the literal. \<open>queue_ok F frm s\<close>: every entry of
  the queue from index \<open>frm\<close> is one. All three are tests on lists.
\<close>

definition unit_for :: "formula \<Rightarrow> solver \<Rightarrow> int \<Rightarrow> bool" where
  "unit_for F s l \<longleftrightarrow>
     list_ex (\<lambda>c. satisfier s c = 0 \<and> rem s c = 1 \<and> l \<in> set (clauses F c)) [0..C F - 1]"

definition entry_ok :: "formula \<Rightarrow> solver \<Rightarrow> int \<Rightarrow> bool" where
  "entry_ok F s l \<longleftrightarrow> 0 \<le> varid l \<and> varid l < V F \<and>
     (if assn s (varid l) = 0 then unit_for F s l else assn s (varid l) = sign_of l)"

definition queue_ok :: "formula \<Rightarrow> int \<Rightarrow> solver \<Rightarrow> bool" where
  "queue_ok F frm s \<longleftrightarrow>
     list_all (\<lambda>j. entry_ok F s (propagation_queue s j)) [frm..npropped s - 1]"

section \<open>Unit clauses\<close>

lemma unit_for_iff:
  "unit_for F s l \<longleftrightarrow>
     (\<exists>c. 0 \<le> c \<and> c < C F \<and> satisfier s c = 0 \<and> rem s c = 1 \<and> l \<in> set (clauses F c))"
  by (auto simp: unit_for_def list_ex_iff)

lemma queue_ok_iff:
  "queue_ok F frm s \<longleftrightarrow>
     (\<forall>j. frm \<le> j \<and> j < npropped s \<longrightarrow> entry_ok F s (propagation_queue s j))"
  by (auto simp: queue_ok_def list_all_iff)

lemma queue_ok_tracker [simp]:
  "queue_ok F frm (clear_conflict v s) = queue_ok F frm s"
  "queue_ok F frm (augment_conflict v s) = queue_ok F frm s"
  "queue_ok F frm (backprop_conflict G v c s) = queue_ok F frm s"
  by (simp_all add: queue_ok_def entry_ok_def unit_for_def)

lemma unit_unique:
  assumes "rem_ok F s" "0 \<le> c" "c < C F" "rem s c = 1"
    and "l \<in> set (clauses F c)" "assn s (varid l) = 0"
    and "l' \<in> set (clauses F c)" "assn s (varid l') = 0"
  shows "l' = l"
  using count_where_one [of "\<lambda>l. assn s (varid l) = 0" "clauses F c" l l'] assms
  by (simp add: rem_ok_def all_below_iff unset_count_def)

lemma unit_count:
  assumes "rem_ok F s" "0 \<le> c" "c < C F" "rem s c = 1"
    and "l \<in> set (clauses F c)" "assn s (varid l) = 0" and "assn s w = 0"
  shows "count_where (\<lambda>l'. varid l' = w) (clauses F c) = (if w = varid l then 1 else 0)"
proof (cases "w = varid l")
  case True
  have "count_where (\<lambda>l'. varid l' = w) (clauses F c) \<le> unset_count (assn s) (clauses F c)"
    unfolding unset_count_def using assms(7) by (intro count_where_mono) auto
  moreover have "0 < count_where (\<lambda>l'. varid l' = w) (clauses F c)"
    using assms(5) True by (auto simp: count_where_pos_iff)
  ultimately show ?thesis using assms(1-4) True by (simp add: rem_ok_def all_below_iff)
next
  case False
  with unit_unique [OF assms(1-6)] assms(7) show ?thesis
    by (auto simp: count_where_zero_iff)
qed

section \<open>The loop of assign on a clause it falsifies\<close>

text \<open>A clause all of whose entries disagree and whose counter equals their number
  makes the loop fail.\<close>

lemma assign_loop_conflict:
  "0 < count_where (\<lambda>b. varid b = c) as \<Longrightarrow> satisfier s c = 0 \<Longrightarrow> \<not> agrees sign c as \<Longrightarrow>
     rem s c = count_where (\<lambda>b. varid b = c) as \<Longrightarrow> \<not> fst (assign_loop F v sign i as s)"
proof (induction as arbitrary: s i)
  case Nil
  then show ?case by simp
next
  case (Cons b as)
  show ?case
  proof (cases "assign_loop F v sign i [b] s")
    case (Pair ok t)
    show ?thesis
    proof (cases ok)
      case False
      with Pair show ?thesis unfolding assign_loop_Cons [of F v sign i b as] by simp
    next
      case True
      with Pair Cons.prems have t: "satisfier t c = 0" "rem t c = count_where (\<lambda>b. varid b = c) as"
        by (auto simp: Let_def split: if_splits)
      with Cons.prems(3) have "0 < count_where (\<lambda>b. varid b = c) as \<or> rem t c = 0"
        using count_where_nonneg [of "\<lambda>b. varid b = c" as] by linarith
      moreover have "rem t c \<noteq> 0 \<or> varid b \<noteq> c"
        using Pair True Cons.prems by (auto simp: Let_def split: if_splits)
      ultimately have "0 < count_where (\<lambda>b. varid b = c) as"
        using Cons.prems(1) t by auto
      from Cons.IH [OF this t(1) _ t(2), of "i + 1"] Cons.prems(3) Pair True show ?thesis
        unfolding assign_loop_Cons [of F v sign i b as] by simp
    qed
  qed
qed

section \<open>The entries that assign adds\<close>

lemma assign_loop_ConsE:
  assumes "assign_loop F v sign i (a # as) s = (True, s')"
  obtains t where "assign_loop F v sign i [a] s = (True, t)"
    "assign_loop F v sign (i + 1) as t = (True, s')"
  using assms unfolding assign_loop_Cons [of F v sign i a as]
  by (auto split: prod.splits bool.splits)

lemma enqueue_loop_new_unset:
  assumes "npropped s \<le> j" "j < npropped (enqueue_loop ls c s)" "assn s = f"
  shows "f (varid (propagation_queue (enqueue_loop ls c s) j)) = 0"
  using assms by (induction ls) (auto split: if_splits)

lemma assign_step_new_entry:
  assumes "assign_loop F v sign i [a] s = (True, t)" "npropped s \<le> j" "j < npropped t"
  shows "\<not> 0 < a * sign" "satisfier s (varid a) = 0" "rem s (varid a) = 2"
    "assn s (varid (propagation_queue t j)) = 0"
  using assms
  by (auto simp: Let_def enqueue_unit_propagation_def enqueue_loop_new_unset split: if_splits)

lemma assign_loop_True_new_entry:
  assumes "assign_loop F v sign i as s = (True, s')" "npropped s \<le> j" "j < npropped s'"
  obtains pre a post t where "as = pre @ a # post" "\<not> 0 < a * sign"
    "assign_loop F v sign i pre s = (True, t)"
    "satisfier t (varid a) = 0" "rem t (varid a) = 2"
    "propagation_queue s' j \<in> set (clauses F (varid a))"
    "assn s (varid (propagation_queue s' j)) = 0"
  using assms
proof (induction as arbitrary: s i thesis)
  case Nil
  then show ?case by simp
next
  case (Cons a as)
  from Cons.prems(2) obtain t where t: "assign_loop F v sign i [a] s = (True, t)"
      and r: "assign_loop F v sign (i + 1) as t = (True, s')"
    by (rule assign_loop_ConsE)
  note kept = assign_loop_True_queue [OF r]
  show ?case
  proof (cases "j < npropped t")
    case True
    with kept have "propagation_queue s' j = propagation_queue t j" by simp
    with assign_step_new_entry [OF t Cons.prems(3) True] assign_step_new [OF t Cons.prems(3) True]
    show ?thesis by (intro Cons.prems(1) [of "[]" a as s]) simp_all
  next
    case False
    show ?thesis
    proof (rule Cons.IH [OF _ r])
      show "npropped t \<le> j" using False by simp
      show "j < npropped s'" by fact
      fix pre b post u
      assume *: "as = pre @ b # post" "\<not> 0 < b * sign"
        "assign_loop F v sign (i + 1) pre t = (True, u)"
        "satisfier u (varid b) = 0" "rem u (varid b) = 2"
        "propagation_queue s' j \<in> set (clauses F (varid b))"
        "assn t (varid (propagation_queue s' j)) = 0"
      from t *(3) have "assign_loop F v sign i (a # pre) s = (True, u)"
        unfolding assign_loop_Cons [of F v sign i a pre] by simp
      moreover from assign_loop_True_frame [OF t] *(7)
      have "assn s (varid (propagation_queue s' j)) = 0" by simp
      ultimately show thesis using *
        by (intro Cons.prems(1) [of "a # pre" b post u]) simp_all
    qed
  qed
qed

text \<open>
  When a clause with two unset literals left holds an unset literal of another
  variable than \<open>v\<close>, the entry of \<open>appearances[v]\<close> being processed is the
  last one for that clause.
\<close>

lemma last_appearance:
  assumes wf: "wf_formula F" "0 \<le> v" "v < V F" and rem: "rem_ok F s"
    and unset: "assn s v = 0" and apps: "appearances F v = pre @ a # post"
    and r: "rem s (varid a) = count_where (\<lambda>b. varid b = varid a) pre + 2"
    and mem: "l \<in> set (clauses F (varid a))" and u: "varid l \<noteq> v" "assn s (varid l) = 0"
  shows "count_where (\<lambda>b. varid b = varid a) post = 0"
proof -
  let ?c = "varid a" and ?ls = "clauses F (varid a)"
  have "a \<in> set (appearances F v)" using apps by simp
  from wf_app_range [OF wf this] have c: "0 \<le> ?c" "?c < C F" by simp_all
  from r rem c have uc: "unset_count (assn s) ?ls = count_where (\<lambda>b. varid b = ?c) pre + 2"
    by (simp add: rem_ok_def all_below_iff)
  have vc: "count_where (\<lambda>l. varid l = v) ?ls
      = count_where (\<lambda>b. varid b = ?c) pre + 1 + count_where (\<lambda>b. varid b = ?c) post"
    using wf_app_count [OF wf, of ?c] c by (simp add: apps)
  have "count_where (\<lambda>l. varid l = v) ?ls + count_where (\<lambda>k. varid k = varid l) ?ls
      \<le> unset_count (assn s) ?ls"
    unfolding unset_count_def using unset u by (intro count_where_disjoint_le) auto
  moreover have "0 < count_where (\<lambda>k. varid k = varid l) ?ls"
    using mem by (auto simp: count_where_pos_iff)
  ultimately show ?thesis
    using uc vc count_where_nonneg [of "\<lambda>b. varid b = ?c" post] by linarith
qed

lemma assign_True_new_entry_ok:
  assumes wf: "wf_formula F" "0 \<le> v" "v < V F" and rem: "rem_ok F s"
    and unset: "assn s v = 0" and sign: "sign \<noteq> 0"
    and run: "assign F v sign s = (True, s')" and j: "npropped s \<le> j" "j < npropped s'"
  shows "entry_ok F s' (propagation_queue s' j)"
proof -
  let ?s0 = "s\<lparr>assn := (assn s)(v := sign)\<rparr>"
  let ?l = "propagation_queue s' j"
  note loop = assign_True_loop [OF run unset]
  from j have "npropped ?s0 \<le> j" by simp
  from loop this j(2) obtain pre a post t where
    apps: "appearances F v = pre @ a # post" and dis: "\<not> 0 < a * sign"
    and runp: "assign_loop F v sign 0 pre ?s0 = (True, t)"
    and t: "satisfier t (varid a) = 0" "rem t (varid a) = 2"
    and mem: "?l \<in> set (clauses F (varid a))" and un: "assn ?s0 (varid ?l) = 0"
    by (rule assign_loop_True_new_entry)
  let ?c = "varid a"
  from un sign have u: "varid ?l \<noteq> v" "assn s (varid ?l) = 0" by (auto split: if_splits)
  have "a \<in> set (appearances F v)" using apps by simp
  from wf_app_range [OF wf this] have c: "0 \<le> ?c" "?c < C F" by simp_all
  from wf_lit [OF wf(1) c mem] have valid: "0 \<le> varid ?l" "varid ?l < V F" by simp_all
  from t(1) wf(2) have s0: "satisfier s ?c = 0" and npre: "\<not> agrees sign ?c pre"
    by (auto simp: satisfier_assign_loop [OF runp] split: if_splits)
  from t(2) have r: "rem s ?c = count_where (\<lambda>b. varid b = ?c) pre + 2"
    by (simp add: rem_assign_loop [OF runp])
  note post = last_appearance [OF wf rem unset apps r mem u]
  with npre dis have "\<not> agrees sign ?c (appearances F v)"
    by (auto simp: apps agrees_def count_where_zero_iff)
  with s0 have "satisfier s' ?c = 0" by (simp add: satisfier_assign_loop [OF loop])
  moreover from post r have "rem s' ?c = 1"
    by (simp add: rem_assign_loop [OF loop] apps)
  moreover from u have "assn s' (varid ?l) = 0" by (simp add: assign_assn [OF run unset])
  ultimately show ?thesis using c mem valid by (auto simp: entry_ok_def unit_for_iff)
qed

section \<open>The entries that were in the queue\<close>

text \<open>
  An \<open>assign\<close> of the variable of a unit clause's last literal that returns
  true gave it the sign of that literal.
\<close>

lemma unit_entry_sign:
  assumes wf: "wf_formula F" "0 \<le> varid l" "varid l < V F" and rem: "rem_ok F s"
    and unset: "assn s (varid l) = 0" and sign: "sign = 1 \<or> sign = - 1"
    and run: "assign F (varid l) sign s = (True, s')"
    and c: "0 \<le> c" "c < C F" and sat: "satisfier s c = 0" and r1: "rem s c = 1"
    and mem: "l \<in> set (clauses F c)"
  shows "sign = sign_of l"
proof (rule ccontr)
  assume ne: "sign \<noteq> sign_of l"
  let ?v = "varid l"
  from unit_count [OF rem c r1 mem unset unset] wf_app_count [OF wf, of c] c
  have entries: "count_where (\<lambda>a. varid a = c) (appearances F ?v) = 1" by simp
  have "\<not> agrees sign c (appearances F ?v)"
  proof
    assume "agrees sign c (appearances F ?v)"
    then obtain l' where l': "l' \<in> set (clauses F c)" "varid l' = ?v" "0 < l' * sign"
      by (auto simp: agrees_iff_lit [OF wf c])
    with unit_unique [OF rem c r1 mem unset l'(1)] unset have "l' = l" by simp
    with l'(3) sign_of_differs [OF sign ne] show False by simp
  qed
  from assign_loop_conflict [of c "appearances F ?v" "s\<lparr>assn := (assn s)(?v := sign)\<rparr>" sign F ?v 0]
    entries sat r1 this assign_True_loop [OF run unset]
  show False by simp
qed

lemma assign_True_old_entry_ok:
  assumes wf: "wf_formula F" "0 \<le> v" "v < V F" and rem: "rem_ok F s"
    and unset: "assn s v = 0" and sign: "sign = 1 \<or> sign = - 1"
    and run: "assign F v sign s = (True, s')" and ok: "entry_ok F s l"
  shows "entry_ok F s' l"
proof (cases "assn s (varid l) = 0")
  case False
  with ok assign_True_assn(2) [OF run, of "varid l"] sign show ?thesis
    by (auto simp: entry_ok_def)
next
  case True
  note loop = assign_True_loop [OF run unset]
  from ok True obtain c where c: "0 \<le> c" "c < C F" and sat: "satisfier s c = 0"
      and r1: "rem s c = 1" and mem: "l \<in> set (clauses F c)"
    by (auto simp: entry_ok_def unit_for_iff)
  note cnt = unit_count [OF rem c r1 mem True unset]
  have entries: "count_where (\<lambda>a. varid a = c) (appearances F v) = (if v = varid l then 1 else 0)"
    using wf_app_count [OF wf, of c] c cnt by simp
  show ?thesis
  proof (cases "v = varid l")
    case False
    with entries have none: "\<forall>a\<in>set (appearances F v). varid a \<noteq> c"
      by (auto simp: count_where_zero_iff)
    then have "\<not> agrees sign c (appearances F v)" by (auto simp: agrees_def)
    with sat have "satisfier s' c = 0" by (simp add: satisfier_assign_loop [OF loop])
    moreover from entries False r1 have "rem s' c = 1" by (simp add: rem_assign_loop [OF loop])
    moreover from False True have "assn s' (varid l) = 0"
      by (simp add: assign_assn [OF run unset])
    ultimately show ?thesis using ok c mem by (auto simp: entry_ok_def unit_for_iff)
  next
    case v: True
    from unit_entry_sign [OF wf(1) _ _ rem True sign _ c sat r1 mem] wf(2,3) run v
    have "sign = sign_of l" by simp
    with ok v sign show ?thesis
      by (auto simp: entry_ok_def assign_assn [OF run unset])
  qed
qed

lemma assign_True_queue_ok:
  assumes wf: "wf_formula F" "0 \<le> v" "v < V F" and rem: "rem_ok F s"
    and sign: "sign = 1 \<or> sign = - 1"
    and run: "assign F v sign s = (True, s')" and ok: "queue_ok F frm s"
  shows "queue_ok F frm s'"
proof (cases "assn s v = 0")
  case False
  with run ok show ?thesis by (simp add: assign_def)
next
  case True
  from sign have s0: "sign \<noteq> 0" by auto
  show ?thesis
    unfolding queue_ok_iff
  proof (intro allI impI)
    fix j assume j: "frm \<le> j \<and> j < npropped s'"
    show "entry_ok F s' (propagation_queue s' j)"
    proof (cases "j < npropped s")
      case old: True
      with ok j have "entry_ok F s (propagation_queue s j)" by (simp add: queue_ok_iff)
      from assign_True_old_entry_ok [OF wf rem True sign run this] assign_True_queue(2) [OF run old]
      show ?thesis by simp
    next
      case False
      with assign_True_new_entry_ok [OF wf rem True s0 run] j show ?thesis by simp
    qed
  qed
qed

lemma ex_start_queue_ok: "queue_ok ex_cnf 0 ex_start"
  by code_simp

text \<open>
  C19 (queue entries stay forced literals): when \<open>assign\<close> of a sign 1 or
  -1 to a variable of a well-formed formula returns true, in a state whose
  counters \<open>rem\<close> are right, and every queue entry from \<open>frm\<close> was a literal
  whose variable holds its sign or the last unset literal of a clause without
  satisfier, then the same holds of the queue after the call, the entries the
  call added included.
\<close>

theorem queue_entries_stay_units:
  assumes "wf_formula F" "0 \<le> v" "v < V F" "rem_ok F s" "sign = 1 \<or> sign = - 1"
    and "assign F v sign s = (True, s')" "queue_ok F frm s"
  shows "queue_ok F frm s'"
  using assms by (rule assign_True_queue_ok)

theorem queue_entries_stay_units_witness:
  "queue_ok ex_cnf 0 ex_assigned"
  using queue_entries_stay_units [of ex_cnf 0 ex_start 1 ex_assigned 0]
    ex_cnf_wf ex_start_inv ex_assign_True ex_start_queue_ok
  by (simp add: prod_eq_iff assignment_inv_def)

end
