(* ===== verification/Propagation.thy ===== *)
theory Propagation
  imports Assignment
begin

text \<open>
  The propagation engine of \<open>src/sat.cpp\<close>: \<open>undo_unit_propagations\<close> and
  \<open>do_unit_propagations\<close> over the queue \<open>propagation_queue[0..npropped)\<close>
  of the solver state. The loop of \<open>do_unit_propagations\<close> runs while the
  queue it drains grows, so it is a partial function: \<open>None\<close> is a run that
  does not return.
\<close>

section \<open>Operations\<close>

definition undo_step :: "formula \<Rightarrow> int \<Rightarrow> solver \<Rightarrow> solver" where
  "undo_step F i s =
     (let app = propagation_queue s i;
          vid = varid app;
          s1 = backprop_conflict F vid (propping_clause s vid) s;
          sign = sign_of app
      in unassign F vid sign s1)"

definition undo_unit_propagations :: "formula \<Rightarrow> int \<Rightarrow> int \<Rightarrow> solver \<Rightarrow> solver" where
  "undo_unit_propagations F low high s =
     (fold (undo_step F) (rev [low..high - 1]) s)\<lparr>npropped := low\<rparr>"

partial_function (option) do_unit_propagations_loop ::
    "formula \<Rightarrow> int \<Rightarrow> int \<Rightarrow> solver \<Rightarrow> (bool \<times> solver) option" where
  "do_unit_propagations_loop F frm i s =
     (if i < npropped s then
        (let app = propagation_queue s i;
             vid = varid app;
             s1 = clear_conflict vid s;
             sign = sign_of app
         in case assign F vid sign s1 of
              (ok, s2) \<Rightarrow>
                if \<not> ok then Some (False, undo_unit_propagations F frm i s2)
                else do_unit_propagations_loop F frm (i + 1) s2)
      else Some (True, s))"

declare do_unit_propagations_loop.simps [code]

definition do_unit_propagations :: "formula \<Rightarrow> int \<Rightarrow> solver \<Rightarrow> (bool \<times> solver) option" where
  "do_unit_propagations F frm s = do_unit_propagations_loop F frm frm s"

section \<open>Predicates on the queue\<close>

text \<open>
  \<open>queue_valid F frm s\<close>: the entries \<open>frm ..< npropped\<close> of the queue name
  variables of the formula. \<open>drained frm i s\<close>: the variables named by the
  entries \<open>frm ..< i\<close> are set. \<open>loop_order F\<close> is the order in which the
  loop of \<open>do_unit_propagations\<close> descends: the number of unset variables,
  then the number of entries still to read.
\<close>

definition queue_valid :: "formula \<Rightarrow> int \<Rightarrow> solver \<Rightarrow> bool" where
  "queue_valid F frm s \<longleftrightarrow>
     list_all (\<lambda>j. 0 \<le> varid (propagation_queue s j) \<and> varid (propagation_queue s j) < V F)
       [frm..npropped s - 1]"

definition drained :: "int \<Rightarrow> int \<Rightarrow> solver \<Rightarrow> bool" where
  "drained frm i s \<longleftrightarrow>
     list_all (\<lambda>j. assn s (varid (propagation_queue s j)) \<noteq> 0) [frm..i - 1]"

definition loop_order :: "formula \<Rightarrow> ((solver \<times> int) \<times> (solver \<times> int)) set" where
  "loop_order F =
     measures [\<lambda>(s, i). nat (zeros (V F) (assn s)), \<lambda>(s, i). nat (npropped s - i)]"


section \<open>Undoing propagations\<close>

lemma undo_step_simps [simp]:
  "assn (undo_step F i s) = (assn s)(varid (propagation_queue s i) := 0)"
  "propagation_queue (undo_step F i s) = propagation_queue s"
  "npropped (undo_step F i s) = npropped s"
  "npropped_at (undo_step F i s) = npropped_at s"
  "propping_clause (undo_step F i s) = propping_clause s"
  by (simp_all add: undo_step_def Let_def unassign_assn)

lemma undo_fold:
  "propagation_queue (fold (undo_step F) js s) = propagation_queue s"
  "assn (fold (undo_step F) js s) w =
     (if w \<in> (\<lambda>j. varid (propagation_queue s j)) ` set js then 0 else assn s w)"
  by (induction js arbitrary: s) auto

text \<open>
  C31 (what \<open>undo_unit_propagations\<close> leaves): the call sets \<open>npropped\<close> to
  \<open>low\<close>, leaves the queue cells as they are, unsets every variable named by
  an entry \<open>low ..< high\<close> of the queue and changes the value of no other
  variable.
\<close>

theorem undo_unit_propagations_unsets:
  "npropped (undo_unit_propagations F low high s) = low \<and>
   propagation_queue (undo_unit_propagations F low high s) = propagation_queue s \<and>
   assn (undo_unit_propagations F low high s) w =
     (if \<exists>j. low \<le> j \<and> j < high \<and> varid (propagation_queue s j) = w then 0 else assn s w)"
  by (auto simp: undo_unit_propagations_def undo_fold)


section \<open>The loop of \<open>do_unit_propagations\<close>\<close>

lemma queue_valid_iff:
  "queue_valid F frm s \<longleftrightarrow>
     (\<forall>j. frm \<le> j \<and> j < npropped s \<longrightarrow>
        0 \<le> varid (propagation_queue s j) \<and> varid (propagation_queue s j) < V F)"
  by (auto simp: queue_valid_def list_all_iff)

lemma assign_True_queue_valid:
  assumes wf: "wf_formula F" "0 \<le> v" "v < V F" and run: "assign F v sign s = (True, s')"
    and ok: "queue_valid F frm s"
  shows "queue_valid F frm s'"
  unfolding queue_valid_iff
proof (intro allI impI)
  fix j assume j: "frm \<le> j \<and> j < npropped s'"
  show "0 \<le> varid (propagation_queue s' j) \<and> varid (propagation_queue s' j) < V F"
  proof (cases "j < npropped s")
    case True
    with ok j assign_True_queue(2) [OF run] show ?thesis by (simp add: queue_valid_iff)
  next
    case False
    with assign_True_new [OF wf run] j show ?thesis by simp
  qed
qed

lemma loop_done:
  "\<not> i < npropped s \<Longrightarrow> do_unit_propagations_loop F frm i s = Some (True, s)"
  by (simp add: do_unit_propagations_loop.simps)

lemma loop_step:
  assumes "i < npropped s"
    "assign F (varid (propagation_queue s i)) (sign_of (propagation_queue s i))
       (clear_conflict (varid (propagation_queue s i)) s) = (ok, s2)"
  shows "do_unit_propagations_loop F frm i s =
     (if ok then do_unit_propagations_loop F frm (i + 1) s2
      else Some (False, undo_unit_propagations F frm i s2))"
  using assms by (subst do_unit_propagations_loop.simps) (simp add: Let_def)

lemma queue_valid_clear_conflict [simp]:
  "queue_valid F frm (clear_conflict v s) = queue_valid F frm s"
  by (simp add: queue_valid_def)

lemma queue_valid_Suc: "queue_valid F i s \<Longrightarrow> queue_valid F (i + 1) s"
  by (simp add: queue_valid_iff)

lemma drained_iff:
  "drained frm i s \<longleftrightarrow>
     (\<forall>j. frm \<le> j \<and> j < i \<longrightarrow> assn s (varid (propagation_queue s j)) \<noteq> 0)"
  by (auto simp: drained_def list_all_iff)

lemma drained_step:
  assumes "drained frm i s" "i < npropped s"
    and "assign F (varid (propagation_queue s i)) (sign_of (propagation_queue s i))
       (clear_conflict (varid (propagation_queue s i)) s) = (True, s2)"
  shows "drained frm (i + 1) s2"
  unfolding drained_iff
proof (intro allI impI)
  fix j assume j: "frm \<le> j \<and> j < i + 1"
  let ?s1 = "clear_conflict (varid (propagation_queue s i)) s"
  from j assms(2) have q: "propagation_queue s2 j = propagation_queue s j"
    using assign_True_queue(2) [OF assms(3), of j] by simp
  show "assn s2 (varid (propagation_queue s2 j)) \<noteq> 0"
  proof (cases "j = i")
    case True
    with assign_True_assn(1) [OF assms(3)] q show ?thesis by simp
  next
    case False
    with j assms(1) have "assn ?s1 (varid (propagation_queue s j)) \<noteq> 0"
      by (simp add: drained_iff)
    with assign_True_assn(2) [OF assms(3)] q show ?thesis by simp
  qed
qed

lemma wf_loop_order: "wf (loop_order F)"
  by (simp add: loop_order_def)

lemma loop_progress:
  assumes wf: "wf_formula F" and valid: "queue_valid F i s" and i: "i < npropped s"
    and run: "assign F (varid (propagation_queue s i)) (sign_of (propagation_queue s i))
       (clear_conflict (varid (propagation_queue s i)) s) = (True, s2)"
  shows "queue_valid F (i + 1) s2" and "((s2, i + 1), (s, i)) \<in> loop_order F"
proof -
  let ?v = "varid (propagation_queue s i)"
  from valid i have v: "0 \<le> ?v" "?v < V F" by (simp_all add: queue_valid_iff)
  from assign_True_queue_valid [OF wf v run] valid
  show "queue_valid F (i + 1) s2" by (simp add: queue_valid_Suc)
  show "((s2, i + 1), (s, i)) \<in> loop_order F"
  proof (cases "assn s ?v = 0")
    case True
    from assign_True_unset_less [OF wf_V [OF wf] v _ _ run] True
    have "zeros (V F) (assn s2) = zeros (V F) (assn s) - 1" by simp
    moreover have "0 < zeros (V F) (assn s)"
      using v True zeros_zero_iff [of "V F" "assn s"] zeros_nonneg [of "V F" "assn s"]
      by (metis less_le)
    ultimately show ?thesis by (simp add: loop_order_def)
  next
    case False
    with run have "s2 = clear_conflict ?v s" by (simp add: assign_def)
    with i show ?thesis by (simp add: loop_order_def)
  qed
qed

lemma loop_terminates:
  assumes wf: "wf_formula F"
  shows "queue_valid F i s \<Longrightarrow> \<exists>r. do_unit_propagations_loop F frm i s = Some r"
proof (induction "(s, i)" arbitrary: s i
    rule: wf_induct_rule [OF wf_loop_order [of F]])
  case 1
  show ?case
  proof (cases "i < npropped s")
    case False
    then show ?thesis by (auto simp: loop_done)
  next
    case True
    obtain ok s2 where run:
      "assign F (varid (propagation_queue s i)) (sign_of (propagation_queue s i))
         (clear_conflict (varid (propagation_queue s i)) s) = (ok, s2)"
      by (cases "assign F (varid (propagation_queue s i)) (sign_of (propagation_queue s i))
         (clear_conflict (varid (propagation_queue s i)) s)")
    show ?thesis
    proof (cases ok)
      case False
      with loop_step [OF True run] show ?thesis by auto
    next
      case ok: True
      with run loop_progress [OF wf "1.prems" True, of s2]
      have "queue_valid F (i + 1) s2" "((s2, i + 1), (s, i)) \<in> loop_order F" by simp_all
      from "1.hyps" [OF this(2,1)] loop_step [OF True run] ok show ?thesis by simp
    qed
  qed
qed

lemma loop_True:
  assumes loop: "do_unit_propagations_loop F frm i s = Some y"
  shows "fst y \<longrightarrow> drained frm i s \<longrightarrow>
     drained frm (npropped (snd y)) (snd y) \<and> npropped s \<le> npropped (snd y) \<and>
     (\<forall>w. assn s w \<noteq> 0 \<longrightarrow> assn (snd y) w = assn s w)"
proof (rule do_unit_propagations_loop.raw_induct [where P = "\<lambda>F frm i s y. fst y \<longrightarrow> drained frm i s \<longrightarrow>
     drained frm (npropped (snd y)) (snd y) \<and> npropped s \<le> npropped (snd y) \<and>
     (\<forall>w. assn s w \<noteq> 0 \<longrightarrow> assn (snd y) w = assn s w)", OF _ loop], intro impI)
  fix rec F frm i s y
  assume IH: "\<And>F frm i s y. rec F frm i s = Some y \<Longrightarrow> fst y \<longrightarrow> drained frm i s \<longrightarrow>
     drained frm (npropped (snd y)) (snd y) \<and> npropped s \<le> npropped (snd y) \<and>
     (\<forall>w. assn s w \<noteq> 0 \<longrightarrow> assn (snd y) w = assn s w)"
    and body: "(if i < npropped s
      then let app = propagation_queue s i; vid = varid app;
               s1 = clear_conflict vid s; sign = sign_of app
           in case assign F vid sign s1 of
              (ok, s2) \<Rightarrow>
                if \<not> ok then Some (False, undo_unit_propagations F frm i s2)
                else rec F frm (i + 1) s2
      else Some (True, s)) = Some y"
    and y: "fst y" and inv: "drained frm i s"
  show "drained frm (npropped (snd y)) (snd y) \<and> npropped s \<le> npropped (snd y) \<and>
     (\<forall>w. assn s w \<noteq> 0 \<longrightarrow> assn (snd y) w = assn s w)"
  proof (cases "i < npropped s")
    case False
    with body inv show ?thesis by (auto simp: drained_iff)
  next
    case True
    let ?v = "varid (propagation_queue s i)"
    obtain ok s2 where run: "assign F ?v (sign_of (propagation_queue s i)) (clear_conflict ?v s) = (ok, s2)"
      by (cases "assign F ?v (sign_of (propagation_queue s i)) (clear_conflict ?v s)")
    with body y True have ok: ok and rec: "rec F frm (i + 1) s2 = Some y"
      by (auto simp: Let_def split: if_splits)
    from run ok have run': "assign F ?v (sign_of (propagation_queue s i)) (clear_conflict ?v s) = (True, s2)"
      by simp
    from IH [OF rec] y drained_step [OF inv True run']
      assign_True_queue(1) [OF run'] assign_True_assn(2) [OF run']
    show ?thesis by simp
  qed
qed

lemma loop_False:
  assumes loop: "do_unit_propagations_loop F frm i s = Some y"
  shows "\<not> fst y \<longrightarrow> npropped (snd y) = frm"
  by (rule do_unit_propagations_loop.raw_induct
        [where P = "\<lambda>F frm i s y. \<not> fst y \<longrightarrow> npropped (snd y) = frm", OF _ loop])
     (auto simp: Let_def undo_unit_propagations_def split: if_splits prod.splits)


lemma loop_True_inv:
  assumes loop: "do_unit_propagations_loop F frm i s = Some y"
  shows "wf_formula F \<longrightarrow> fst y \<longrightarrow> queue_valid F i s \<longrightarrow> assignment_inv F s \<longrightarrow>
     assignment_inv F (snd y)"
proof (rule do_unit_propagations_loop.raw_induct [where P = "\<lambda>F frm i s y. wf_formula F \<longrightarrow>
    fst y \<longrightarrow> queue_valid F i s \<longrightarrow> assignment_inv F s \<longrightarrow> assignment_inv F (snd y)", OF _ loop],
    intro impI)
  fix rec F frm i s y
  assume IH: "\<And>F frm i s y. rec F frm i s = Some y \<Longrightarrow> wf_formula F \<longrightarrow> fst y \<longrightarrow>
      queue_valid F i s \<longrightarrow> assignment_inv F s \<longrightarrow> assignment_inv F (snd y)"
    and body: "(if i < npropped s
      then let app = propagation_queue s i; vid = varid app;
               s1 = clear_conflict vid s; sign = sign_of app
           in case assign F vid sign s1 of
              (ok, s2) \<Rightarrow>
                if \<not> ok then Some (False, undo_unit_propagations F frm i s2)
                else rec F frm (i + 1) s2
      else Some (True, s)) = Some y"
    and wf: "wf_formula F" and y: "fst y" and valid: "queue_valid F i s"
    and inv: "assignment_inv F s"
  show "assignment_inv F (snd y)"
  proof (cases "i < npropped s")
    case False
    with body inv show ?thesis by auto
  next
    case True
    let ?v = "varid (propagation_queue s i)"
    obtain ok s2 where run: "assign F ?v (sign_of (propagation_queue s i)) (clear_conflict ?v s) = (ok, s2)"
      by (cases "assign F ?v (sign_of (propagation_queue s i)) (clear_conflict ?v s)")
    with body y True have ok: ok and rec: "rec F frm (i + 1) s2 = Some y"
      by (auto simp: Let_def split: if_splits)
    from run ok have run': "assign F ?v (sign_of (propagation_queue s i)) (clear_conflict ?v s) = (True, s2)"
      by simp
    from valid True have v: "0 \<le> ?v" "?v < V F" by (simp_all add: queue_valid_iff)
    from inv have "assignment_inv F (clear_conflict ?v s)" by simp
    with wf v run' sign_of_nonzero [of "propagation_queue s i"] have "assignment_inv F s2"
      unfolding assignment_inv_def by (blast intro: assign_inv_intros)
    with IH [OF rec] wf y loop_progress(1) [OF wf valid True run'] show ?thesis by simp
  qed
qed


section \<open>The contract of \<open>do_unit_propagations\<close>\<close>

lemma ex_queue_valid: "queue_valid ex_cnf 0 ex_assigned"
  by code_simp

lemma ex_propagated:
  "do_unit_propagations ex_cnf 0 ex_assigned \<noteq> None"
  "fst (the (do_unit_propagations ex_cnf 0 ex_assigned))"
  by code_simp+

text \<open>
  C14 (the propagation loop ends): for a well-formed formula and a queue
  whose entries from \<open>frm\<close> on name variables of the formula,
  \<open>do_unit_propagations\<close> returns: every round either stops, or sets a
  variable that was unset, or reads an entry whose variable is set already
  and adds none.
\<close>

theorem do_unit_propagations_terminates:
  assumes "wf_formula F" "queue_valid F frm s"
  shows "\<exists>r. do_unit_propagations F frm s = Some r"
  using loop_terminates [OF assms] by (simp add: do_unit_propagations_def)

theorem do_unit_propagations_terminates_witness:
  "\<exists>r. do_unit_propagations ex_cnf 0 ex_assigned = Some r"
  using do_unit_propagations_terminates [of ex_cnf 0 ex_assigned] ex_cnf_wf ex_queue_valid
  by simp

text \<open>
  C22 (what \<open>do_unit_propagations\<close> returns): when it returns true, every
  variable named by a queue entry from \<open>frm\<close> up to the final \<open>npropped\<close> is
  set, the queue has not shrunk, and every variable that was set keeps its
  value; when it returns false, \<open>npropped\<close> is \<open>frm\<close> again.
\<close>

theorem do_unit_propagations_result:
  assumes "do_unit_propagations F frm s = Some (ok, s')"
  shows "if ok then drained frm (npropped s') s' \<and> npropped s \<le> npropped s' \<and>
                 (\<forall>w. assn s w \<noteq> 0 \<longrightarrow> assn s' w = assn s w)
         else npropped s' = frm"
  using assms loop_True [of F frm frm s "(ok, s')"] loop_False [of F frm frm s "(ok, s')"]
  by (simp add: do_unit_propagations_def drained_iff)

theorem do_unit_propagations_result_witness:
  "drained 0 (npropped (snd (the (do_unit_propagations ex_cnf 0 ex_assigned))))
     (snd (the (do_unit_propagations ex_cnf 0 ex_assigned)))"
  using do_unit_propagations_result [of ex_cnf 0 ex_assigned True
      "snd (the (do_unit_propagations ex_cnf 0 ex_assigned))"] ex_propagated
  by (auto simp: prod_eq_iff)

text \<open>
  C20 (propagation keeps the invariants I1 to I3): when \<open>do_unit_propagations\<close>
  returns true for a well-formed formula, from a state that satisfies the
  assignment invariant and whose queue entries from \<open>frm\<close> on name variables
  of the formula, the state it leaves satisfies the assignment invariant.
\<close>

theorem do_unit_propagations_preserves_inv:
  assumes "wf_formula F" "queue_valid F frm s" "assignment_inv F s"
    and "do_unit_propagations F frm s = Some (True, s')"
  shows "assignment_inv F s'"
  using loop_True_inv [of F frm frm s "(True, s')"] assms
  by (simp add: do_unit_propagations_def)

theorem do_unit_propagations_preserves_inv_witness:
  "assignment_inv ex_cnf (snd (the (do_unit_propagations ex_cnf 0 ex_assigned)))"
  using do_unit_propagations_preserves_inv [of ex_cnf 0 ex_assigned
      "snd (the (do_unit_propagations ex_cnf 0 ex_assigned))"]
    ex_cnf_wf ex_queue_valid ex_assigned_inv ex_propagated
  by (auto simp: prod_eq_iff)

end
