(* ===== verification/Restore.thy ===== *)
theory Restore
  imports Units Propagation
begin

text \<open>
  Undoing (\<open>src/sat.cpp\<close>, \<open>unassign\<close> lines 227-229,
  \<open>undo_unit_propagations\<close> lines 231-241, and the failing branch of
  \<open>assign\<close>, lines 181-191). The search undoes a batch of propagations from
  its last queue entry down to its first. This is not always the reverse of
  the order in which the variables were set: an entry can name a variable
  that the decision or an earlier entry had set already, and undoing it
  unsets that variable while variables set after it still hold their values.
  This theory shows that the order does not matter: the satisfier of a clause
  is the variable that was set first among its true literals, so that
  unsetting variables in any order leaves the clause state determined by the
  values that remain. The relations below compare a state
  with the state \<open>b\<close> at the start of the batch.
\<close>

section \<open>Relations between a state and a later one\<close>

text \<open>
  \<open>vars_kept F s s'\<close>: the variables set in \<open>s\<close> have the same value and
  the same queue mark in \<open>s'\<close>, and the clauses satisfied in \<open>s\<close> keep their
  satisfier. \<open>queue_kept s s'\<close>: the queue of \<open>s'\<close> extends the one of \<open>s\<close>.
  \<open>fresh F s lo hi s'\<close>: the entries \<open>lo \<le> j < hi\<close> of the queue of \<open>s'\<close> name
  variables of the formula that are unset in \<open>s\<close>. \<open>covered s lo hi s'\<close>: a
  variable set in \<open>s'\<close> and unset in \<open>s\<close> is named by one of these entries.
\<close>

definition vars_kept :: "formula \<Rightarrow> solver \<Rightarrow> solver \<Rightarrow> bool" where
  "vars_kept F s s' \<longleftrightarrow>
     (\<forall>w. assn s w \<noteq> 0 \<longrightarrow> assn s' w = assn s w \<and> npropped_at s' w = npropped_at s w) \<and>
     (\<forall>c. 0 \<le> c \<and> c < C F \<and> satisfier s c \<noteq> 0 \<longrightarrow> satisfier s' c = satisfier s c)"

definition queue_kept :: "solver \<Rightarrow> solver \<Rightarrow> bool" where
  "queue_kept s s' \<longleftrightarrow>
     npropped s \<le> npropped s' \<and>
     (\<forall>j<npropped s. propagation_queue s' j = propagation_queue s j)"

definition fresh :: "formula \<Rightarrow> solver \<Rightarrow> int \<Rightarrow> int \<Rightarrow> solver \<Rightarrow> bool" where
  "fresh F s lo hi s' \<longleftrightarrow>
     (\<forall>j. lo \<le> j \<and> j < hi \<longrightarrow>
        0 \<le> varid (propagation_queue s' j) \<and> varid (propagation_queue s' j) < V F \<and>
        assn s (varid (propagation_queue s' j)) = 0)"

definition covered :: "solver \<Rightarrow> int \<Rightarrow> int \<Rightarrow> solver \<Rightarrow> bool" where
  "covered s lo hi s' \<longleftrightarrow>
     (\<forall>w. assn s' w \<noteq> 0 \<and> assn s w = 0 \<longrightarrow>
        (\<exists>j. lo \<le> j \<and> j < hi \<and> varid (propagation_queue s' j) = w))"

text \<open>
  \<open>undoable F b lo hi t\<close> is the invariant of the loop of
  \<open>undo_unit_propagations\<close>: the counters and satisfiers of \<open>t\<close> are right
  for its values (completeness of the satisfiers apart, which the undo of an
  entry for a variable set earlier breaks in between), the state extends \<open>b\<close>, and each entry to undo
  names a variable that is unset or holds the sign of the entry.
  \<open>restored F s s'\<close> is what a failed call leaves: the values of \<open>s\<close>, the
  assignment invariant, and a queue that extends the one of \<open>s\<close> by entries
  for variables unset in \<open>s\<close>.
\<close>

definition undoable :: "formula \<Rightarrow> solver \<Rightarrow> int \<Rightarrow> int \<Rightarrow> solver \<Rightarrow> bool" where
  "undoable F b lo hi t \<longleftrightarrow>
     rem_ok F t \<and> satisfier_sound F t \<and> nunsat_ok F t \<and> vars_kept F b t \<and>
     fresh F b lo hi t \<and>
     (\<forall>j. lo \<le> j \<and> j < hi \<longrightarrow>
        assn t (varid (propagation_queue t j)) = 0 \<or>
        assn t (varid (propagation_queue t j)) = sign_of (propagation_queue t j))"

definition restored :: "formula \<Rightarrow> solver \<Rightarrow> solver \<Rightarrow> bool" where
  "restored F s s' \<longleftrightarrow>
     assn s' = assn s \<and> assignment_inv F s' \<and> vars_kept F s s' \<and> queue_kept s s' \<and>
     fresh F s (npropped s) (npropped s') s'"

section \<open>The relations are preorders\<close>

declare sign_of_square [simp]

lemma vars_kept_refl [simp]: "vars_kept F s s"
  by (simp add: vars_kept_def)

lemma vars_kept_trans: "vars_kept F s t \<Longrightarrow> vars_kept F t u \<Longrightarrow> vars_kept F s u"
  unfolding vars_kept_def by metis

lemma queue_kept_refl [simp]: "queue_kept s s"
  by (simp add: queue_kept_def)

lemma queue_kept_trans: "queue_kept s t \<Longrightarrow> queue_kept t u \<Longrightarrow> queue_kept s u"
  unfolding queue_kept_def by (metis order_trans order_less_le_trans)

lemma vars_kept_unset: "vars_kept F s t \<Longrightarrow> assn t w = 0 \<Longrightarrow> assn s w = 0"
  unfolding vars_kept_def by metis

lemma vars_kept_cong:
  assumes "assn t' = assn t" "npropped_at t' = npropped_at t" "satisfier t' = satisfier t"
  shows "vars_kept F s t' = vars_kept F s t"
  using assms by (simp add: vars_kept_def)

lemma queue_kept_cong:
  assumes "npropped t' = npropped t" "propagation_queue t' = propagation_queue t"
  shows "queue_kept s t' = queue_kept s t"
  using assms by (simp add: queue_kept_def)

lemma kept_tracker [simp]:
  "vars_kept F s (clear_conflict v t) = vars_kept F s t"
  "vars_kept F s (augment_conflict v t) = vars_kept F s t"
  "vars_kept F s (backprop_conflict G v c t) = vars_kept F s t"
  "queue_kept s (clear_conflict v t) = queue_kept s t"
  "queue_kept s (augment_conflict v t) = queue_kept s t"
  "queue_kept s (backprop_conflict G v c t) = queue_kept s t"
  by (simp_all add: vars_kept_def queue_kept_def)

lemma inv_tracker [simp]:
  "rem_ok F (clear_conflict v s) = rem_ok F s"
  "rem_ok F (augment_conflict v s) = rem_ok F s"
  "rem_ok F (backprop_conflict G v c s) = rem_ok F s"
  "satisfier_sound F (clear_conflict v s) = satisfier_sound F s"
  "satisfier_sound F (augment_conflict v s) = satisfier_sound F s"
  "satisfier_sound F (backprop_conflict G v c s) = satisfier_sound F s"
  "satisfier_complete F (clear_conflict v s) = satisfier_complete F s"
  "satisfier_complete F (augment_conflict v s) = satisfier_complete F s"
  "satisfier_complete F (backprop_conflict G v c s) = satisfier_complete F s"
  "nunsat_ok F (clear_conflict v s) = nunsat_ok F s"
  "nunsat_ok F (augment_conflict v s) = nunsat_ok F s"
  "nunsat_ok F (backprop_conflict G v c s) = nunsat_ok F s"
  by (simp_all add: assignment_inv_defs)

lemma inv_tracker_inv [simp]:
  "assignment_inv F (augment_conflict v s) = assignment_inv F s"
  "assignment_inv F (backprop_conflict G v c s) = assignment_inv F s"
  by (simp_all add: assignment_inv_def)

lemma restored_refl: "assignment_inv F s \<Longrightarrow> restored F s s"
  by (simp add: restored_def fresh_def)

lemma restored_trans:
  assumes "restored F s t" "restored F t u"
  shows "restored F s u"
proof -
  have "fresh F s (npropped s) (npropped u) u"
    unfolding fresh_def
  proof (intro allI impI)
    fix j assume j: "npropped s \<le> j \<and> j < npropped u"
    show "0 \<le> varid (propagation_queue u j) \<and> varid (propagation_queue u j) < V F \<and>
        assn s (varid (propagation_queue u j)) = 0"
    proof (cases "j < npropped t")
      case True
      with assms j show ?thesis by (auto simp: restored_def fresh_def queue_kept_def)
    next
      case False
      with assms j show ?thesis by (auto simp: restored_def fresh_def)
    qed
  qed
  with assms show ?thesis
    by (auto simp: restored_def intro: vars_kept_trans queue_kept_trans)
qed

lemma restored_tracker [simp]:
  "restored F s (clear_conflict v t) = restored F s t"
  "restored F s (augment_conflict v t) = restored F s t"
  "restored F (clear_conflict v s) t = restored F s t"
  "restored F (augment_conflict v s) t = restored F s t"
  by (simp_all add: restored_def fresh_def vars_kept_def queue_kept_def)

lemma restored_inv: "restored F s t \<Longrightarrow> assignment_inv F t"
  by (simp add: restored_def)

lemma restored_assn: "restored F s t \<Longrightarrow> assn t = assn s"
  by (simp add: restored_def)

lemma prologue_restored:
  assumes "assignment_inv F s" "assn s v = 0"
  shows "restored F s (clear_conflict v (s\<lparr>npropped_at := (npropped_at s)(v := n)\<rparr>))"
  using assms by (auto simp: restored_def fresh_def vars_kept_def queue_kept_def
      assignment_inv_defs)

section \<open>assign and unassign keep what was set\<close>

text \<open>A satisfier names a set variable.\<close>

lemma satisfier_set:
  assumes "wf_formula F" "satisfier_sound F s" "0 \<le> c" "c < C F" "satisfier s c \<noteq> 0"
  shows "assn s (satisfier s c - 1) \<noteq> 0"
proof -
  from assms obtain l where "l \<in> set (clauses F c)" "varid l + 1 = satisfier s c"
      "lit_true (assn s) l"
    by (auto simp: satisfier_sound_def all_below_iff)
  then have "satisfier s c - 1 = varid l" "assn s (varid l) \<noteq> 0"
    by (auto simp: lit_true_def)
  then show ?thesis by simp
qed

lemma assign_True_vars_kept:
  assumes "assign F v sign s = (True, s')" "sign \<noteq> 0"
  shows "vars_kept F s s'"
proof (cases "assn s v = 0")
  case False
  with assms show ?thesis by (simp add: assign_def)
next
  case True
  note loop = assign_True_loop [OF assms(1) True]
  from assign_loop_True_frame [OF loop] assign_True_assn(2) [OF assms] show ?thesis
    by (simp add: vars_kept_def satisfier_assign_loop [OF loop])
qed

lemma assign_True_queue_kept: "assign F v sign s = (True, s') \<Longrightarrow> queue_kept s s'"
  using assign_True_queue [of F v sign s s'] by (simp add: queue_kept_def)

lemma unassign_satisfier:
  "satisfier (unassign F v sign s) c =
     (if assn s v \<noteq> 0 \<and> satisfier s c = v + 1 \<and> agrees sign c (appearances F v) then 0
      else satisfier s c)"
  by (cases "assn s v = 0") (simp_all add: unassign_unset unassign_loop_eq satisfier_unassign_loop)

lemma unassign_vars_kept:
  assumes wf: "wf_formula F" and sound: "satisfier_sound F s" and kept: "vars_kept F s t"
    and unset: "assn s u = 0"
  shows "vars_kept F s (unassign F u sign t)"
proof -
  have "satisfier t c \<noteq> u + 1" if c: "0 \<le> c" "c < C F" "satisfier s c \<noteq> 0" for c
    using satisfier_set [OF wf sound c] kept c unset by (auto simp: vars_kept_def)
  with kept unset show ?thesis
    by (auto simp: vars_kept_def unassign_assn unassign_satisfier)
qed

section \<open>A failed assign\<close>

lemma assign_step_False_queue:
  assumes "assign_loop F v sign i [a] s = (False, t)"
  shows "npropped t = npropped s" "propagation_queue t = propagation_queue s"
    "npropped_at t = npropped_at s"
  using assms by (auto simp: Let_def split: if_splits)

lemma assign_step_True_npropped_at:
  "assign_loop F v sign i [a] s = (True, t) \<Longrightarrow> npropped_at t = npropped_at s"
  using assign_loop_True_frame [of F v sign i "[a]" s t] by simp

lemma assign_loop_False_queue:
  "assign_loop F v sign i as s = (False, s') \<Longrightarrow>
     queue_kept s s' \<and> npropped_at s' = npropped_at s"
proof (induction as arbitrary: s i)
  case Nil
  then show ?case by simp
next
  case (Cons a as)
  show ?case
  proof (cases "assign_loop F v sign i [a] s")
    case (Pair ok t)
    show ?thesis
    proof (cases ok)
      case False
      with Pair Cons.prems have "s' = t"
        unfolding assign_loop_Cons [of F v sign i a as] by simp
      with Pair False assign_step_False_queue [of F v sign i a s t] show ?thesis
        by (simp add: queue_kept_def)
    next
      case True
      with Pair Cons.prems have r: "assign_loop F v sign (i + 1) as t = (False, s')"
        unfolding assign_loop_Cons [of F v sign i a as] by simp
      from Pair True have t: "assign_loop F v sign i [a] s = (True, t)" by simp
      from assign_loop_True_queue [OF t] have "queue_kept s t" by (simp add: queue_kept_def)
      with Cons.IH [OF r] assign_step_True_npropped_at [OF t] show ?thesis
        by (auto intro: queue_kept_trans)
    qed
  qed
qed

lemma assign_loop_False_new:
  "assign_loop F v sign i as s = (False, s') \<Longrightarrow> npropped s \<le> j \<Longrightarrow> j < npropped s' \<Longrightarrow>
     (\<exists>a\<in>set as. propagation_queue s' j \<in> set (clauses F (varid a))) \<and>
     assn s (varid (propagation_queue s' j)) = 0"
proof (induction as arbitrary: s i)
  case Nil
  then show ?case by simp
next
  case (Cons a as)
  show ?case
  proof (cases "assign_loop F v sign i [a] s")
    case (Pair ok t)
    show ?thesis
    proof (cases ok)
      case False
      with Pair Cons.prems(1) have "s' = t"
        unfolding assign_loop_Cons [of F v sign i a as] by simp
      with Pair False assign_step_False_queue(1) [of F v sign i a s t] Cons.prems(2,3)
      show ?thesis by simp
    next
      case True
      with Pair Cons.prems(1) have r: "assign_loop F v sign (i + 1) as t = (False, s')"
        unfolding assign_loop_Cons [of F v sign i a as] by simp
      from Pair True have t: "assign_loop F v sign i [a] s = (True, t)" by simp
      from assign_loop_False_queue [OF r]
      have kept: "\<forall>j<npropped t. propagation_queue s' j = propagation_queue t j"
        by (simp add: queue_kept_def)
      show ?thesis
      proof (cases "j < npropped t")
        case old: True
        with kept assign_step_new [OF t Cons.prems(2) old]
          assign_step_new_entry(4) [OF t Cons.prems(2) old]
        show ?thesis by simp
      next
        case False
        with Cons.IH [OF r _ Cons.prems(3)] assign_loop_True_frame [OF t] show ?thesis
          by auto
      qed
    qed
  qed
qed

lemma assign_False_kept:
  assumes wf: "wf_formula F" "0 \<le> v" "v < V F" and sound: "satisfier_sound F s"
    and sign: "sign \<noteq> 0" and fail: "assign F v sign s = (False, s')"
  shows "vars_kept F s s'" "queue_kept s s'" "fresh F s (npropped s) (npropped s') s'"
proof -
  let ?s0 = "s\<lparr>assn := (assn s)(v := sign)\<rparr>"
  note loop = assign_False_loop(2) [OF fail]
  note fields = assign_False_fields [OF wf sound fail sign]
  from assign_loop_False_queue [OF loop] show "queue_kept s s'"
    by (simp add: queue_kept_def)
  from assign_loop_False_queue [OF loop] fields show "vars_kept F s s'"
    by (simp add: vars_kept_def)
  show "fresh F s (npropped s) (npropped s') s'"
    unfolding fresh_def
  proof (intro allI impI)
    fix j assume j: "npropped s \<le> j \<and> j < npropped s'"
    with assign_loop_False_new [OF loop, of j] obtain a where
      a: "a \<in> set (appearances F v)" "propagation_queue s' j \<in> set (clauses F (varid a))"
      and un: "assn ?s0 (varid (propagation_queue s' j)) = 0"
      by auto
    from wf_lit [OF wf(1) _ _ a(2)] wf_app_range [OF wf a(1)] un sign
    show "0 \<le> varid (propagation_queue s' j) \<and> varid (propagation_queue s' j) < V F \<and>
        assn s (varid (propagation_queue s' j)) = 0"
      by (auto split: if_splits)
  qed
qed

lemma assign_False_restored:
  assumes wf: "wf_formula F" "0 \<le> v" "v < V F" and inv: "assignment_inv F s"
    and sign: "sign \<noteq> 0" and fail: "assign F v sign s = (False, s')"
  shows "restored F s s'"
proof -
  from inv have sound: "satisfier_sound F s" by (simp add: assignment_inv_def)
  note fields = assign_False_fields [OF wf sound fail sign]
  then have f: "assn s' = assn s" "rem s' = rem s" "satisfier s' = satisfier s"
      "nunsat s' = nunsat s"
    by simp_all
  from inv assign_False_kept [OF wf sound sign fail] f(1) show ?thesis
    by (simp add: restored_def assignment_inv_cong(5) [OF f])
qed

section \<open>The loop of undo_unit_propagations\<close>

lemma unassign_satisfier_sound_entry:
  assumes "wf_formula F" "0 \<le> v" "v < V F" "satisfier_sound F s"
    and "assn s v = 0 \<or> assn s v = sign_of l"
  shows "satisfier_sound F (unassign F v (sign_of l) s)"
proof (cases "assn s v = 0")
  case True
  with assms(4) show ?thesis by (simp add: unassign_unset)
next
  case False
  with assms(5) have "0 < assn s v * sign_of l" by simp
  from unassign_satisfier_sound [OF assms(1-4) this] show ?thesis .
qed

lemma undo_step_undoable:
  assumes wf: "wf_formula F" and sound: "satisfier_sound F b"
    and t: "undoable F b lo hi t" and j: "lo \<le> j" "j < hi"
  shows "undoable F b lo hi (undo_step F j t)"
proof -
  let ?q = "propagation_queue t j"
  let ?t1 = "backprop_conflict F (varid ?q) (propping_clause t (varid ?q)) t"
  from t j have v: "0 \<le> varid ?q" "varid ?q < V F" and un: "assn b (varid ?q) = 0"
    and sg: "assn t (varid ?q) = 0 \<or> assn t (varid ?q) = sign_of ?q"
    by (auto simp: undoable_def fresh_def)
  have eq: "undo_step F j t = unassign F (varid ?q) (sign_of ?q) ?t1"
    by (simp add: undo_step_def Let_def)
  from t have t1: "rem_ok F ?t1" "satisfier_sound F ?t1" "nunsat_ok F ?t1" "vars_kept F b ?t1"
    by (simp_all add: undoable_def)
  from sg have sg1: "assn ?t1 (varid ?q) = 0 \<or> assn ?t1 (varid ?q) = sign_of ?q" by simp
  have "rem_ok F (undo_step F j t)" "nunsat_ok F (undo_step F j t)"
    "satisfier_sound F (undo_step F j t)" "vars_kept F b (undo_step F j t)"
    unfolding eq
    using unassign_rem_ok [OF wf v t1(1)] unassign_nunsat_ok [OF wf v t1(3)]
      unassign_satisfier_sound_entry [OF wf v t1(2) sg1]
      unassign_vars_kept [OF wf sound t1(4) un]
    by simp_all
  with t show ?thesis
    by (auto simp: undoable_def fresh_def)
qed

lemma undo_fold_undoable:
  assumes wf: "wf_formula F" and sound: "satisfier_sound F b"
    and t: "undoable F b lo hi t" and js: "\<forall>j\<in>set js. lo \<le> j \<and> j < hi"
  shows "undoable F b lo hi (fold (undo_step F) js t)"
  using js t by (intro fold_invariant [where P = "undoable F b lo hi"])
    (auto intro: undo_step_undoable [OF wf sound])

lemma undo_restores:
  assumes wf: "wf_formula F" and sound: "satisfier_sound F b"
    and t: "undoable F b lo hi t" and cov: "covered b lo hi t"
  shows "undoable F b lo hi (undo_unit_propagations F lo hi t)"
    and "assn (undo_unit_propagations F lo hi t) = assn b"
proof -
  let ?r = "fold (undo_step F) (rev [lo..hi - 1]) t"
  have r: "undoable F b lo hi ?r"
    by (rule undo_fold_undoable [OF wf sound t]) simp
  then show "undoable F b lo hi (undo_unit_propagations F lo hi t)"
    by (simp add: undo_unit_propagations_def undoable_def vars_kept_def fresh_def
        assignment_inv_defs)
  have "assn ?r w = assn b w" for w
  proof (cases "\<exists>j. lo \<le> j \<and> j < hi \<and> varid (propagation_queue t j) = w")
    case True
    with t show ?thesis by (auto simp: undo_fold undoable_def fresh_def)
  next
    case False
    then have "assn ?r w = assn t w" by (auto simp: undo_fold)
    moreover have "assn t w = assn b w"
    proof (cases "assn b w = 0")
      case True
      with cov False show ?thesis by (auto simp: covered_def)
    next
      case False
      with t show ?thesis by (simp add: undoable_def vars_kept_def)
    qed
    ultimately show ?thesis by simp
  qed
  then show "assn (undo_unit_propagations F lo hi t) = assn b"
    by (simp add: undo_unit_propagations_def fun_eq_iff)
qed

lemma complete_from_base:
  assumes "satisfier_complete F b" "assn r = assn b" "vars_kept F b r"
  shows "satisfier_complete F r"
  using assms unfolding satisfier_complete_def all_below_iff vars_kept_def by metis

end
