(* ===== verification/Propagation_Contract.thy ===== *)
theory Propagation_Contract
  imports Restore
begin

text \<open>
  The contract of \<open>do_unit_propagations\<close> (\<open>src/sat.cpp\<close> lines 243-256)
  for a batch that starts in a state \<open>b\<close> satisfying the assignment
  invariant. When it returns true, the state satisfies the invariant, extends
  \<open>b\<close>, and every variable it set is named by a queue entry of the batch and
  holds that entry's sign. When it returns false, the values and the clause
  state of \<open>b\<close> are back and the queue is cut to where the batch started.
  The second half uses the theory \<open>Restore\<close>, the first the theory \<open>Units\<close>.
\<close>

section \<open>The invariant of the loop and its two outcomes\<close>

text \<open>
  \<open>batch F b frm i t\<close> is the invariant of the loop at index \<open>i\<close>;
  \<open>rewound F b frm r\<close> is the state after a failed batch; \<open>loop_post\<close>
  chooses between them by the verdict.
\<close>

definition batch :: "formula \<Rightarrow> solver \<Rightarrow> int \<Rightarrow> int \<Rightarrow> solver \<Rightarrow> bool" where
  "batch F b frm i t \<longleftrightarrow>
     assignment_inv F t \<and> vars_kept F b t \<and> queue_kept b t \<and> queue_ok F frm t \<and>
     fresh F b frm (npropped t) t \<and> drained frm i t \<and> covered b frm i t"

definition rewound :: "formula \<Rightarrow> solver \<Rightarrow> int \<Rightarrow> solver \<Rightarrow> bool" where
  "rewound F b frm r \<longleftrightarrow>
     assn r = assn b \<and> assignment_inv F r \<and> vars_kept F b r \<and> npropped r = frm \<and>
     (\<forall>j<npropped b. propagation_queue r j = propagation_queue b j)"

definition loop_post :: "formula \<Rightarrow> solver \<Rightarrow> int \<Rightarrow> bool \<times> solver \<Rightarrow> bool" where
  "loop_post F b frm y \<longleftrightarrow>
     (if fst y then batch F b frm (npropped (snd y)) (snd y) else rewound F b frm (snd y))"

text \<open>
  The formula \<open>\<not>x1 \<or> x2\<close>, \<open>\<not>x1 \<or> \<not>x2\<close>: setting \<open>x1\<close> to true enqueues
  \<open>x2\<close> and \<open>\<not>x2\<close>, and the second propagation fails.
\<close>

abbreviation clash_cnf :: formula where
  "clash_cnf \<equiv> mk_formula 2 2 [[- 1, 2], [- 1, - 2]]"

abbreviation clash_start :: solver where
  "clash_start \<equiv> ex_start\<lparr>rem := (\<lambda>c. if c = 0 \<or> c = 1 then 2 else 0)\<rparr>"

abbreviation clash_assigned :: solver where
  "clash_assigned \<equiv> snd (assign clash_cnf 0 1 clash_start)"

section \<open>One round of the loop\<close>

declare sign_of_cases [simp]

lemma assign_True_assn_eq:
  "assign F v sign s = (True, s') \<Longrightarrow>
     assn s' w = (if w = v \<and> assn s v = 0 then sign else assn s w)"
  using assign_assn [of F v sign s s'] assign_set [of F v sign s s']
  by (cases "assn s v = 0") auto

lemma assign_True_new_unset:
  assumes "assign F v sign s = (True, s')" "sign \<noteq> 0" "npropped s \<le> j" "j < npropped s'"
  shows "assn s' (varid (propagation_queue s' j)) = 0"
proof (cases "assn s v = 0")
  case True
  let ?s0 = "s\<lparr>assn := (assn s)(v := sign)\<rparr>"
  from assms(3) have "npropped ?s0 \<le> j" by simp
  from assign_True_loop [OF assms(1) True] this assms(4)
  obtain pre a post t where "assn ?s0 (varid (propagation_queue s' j)) = 0"
    by (rule assign_loop_True_new_entry)
  then show ?thesis by (simp add: assign_assn [OF assms(1) True])
next
  case False
  with assms show ?thesis by (simp add: assign_def)
qed

text \<open>One round of the propagation loop whose \<open>assign\<close> returns true.\<close>

lemma batch_step_fresh:
  assumes b: "batch F b frm i t" and vk: "vars_kept F b t2" and qok: "queue_ok F frm t2"
    and run: "assign F v sign (clear_conflict v t) = (True, t2)" and sign: "sign \<noteq> 0"
  shows "fresh F b frm (npropped t2) t2"
  unfolding fresh_def
proof (intro allI impI)
  fix j assume j: "frm \<le> j \<and> j < npropped t2"
  note qk = assign_True_queue_kept [OF run]
  show "0 \<le> varid (propagation_queue t2 j) \<and> varid (propagation_queue t2 j) < V F \<and>
      assn b (varid (propagation_queue t2 j)) = 0"
  proof (cases "j < npropped t")
    case True
    with b j qk show ?thesis by (auto simp: batch_def fresh_def queue_kept_def)
  next
    case False
    with j qok have ok: "entry_ok F t2 (propagation_queue t2 j)" by (simp add: queue_ok_iff)
    from False j assign_True_new_unset [OF run sign, of j]
    have "assn t2 (varid (propagation_queue t2 j)) = 0" by simp
    with vars_kept_unset [OF vk] ok show ?thesis by (simp add: entry_ok_def)
  qed
qed

lemma batch_step_covered:
  assumes b: "batch F b frm i t" and i: "frm \<le> i" "i < npropped t"
    and run: "assign F (varid (propagation_queue t i)) sign
       (clear_conflict (varid (propagation_queue t i)) t) = (True, t2)"
  shows "covered b frm (i + 1) t2"
  unfolding covered_def
proof (intro allI impI)
  fix w assume w: "assn t2 w \<noteq> 0 \<and> assn b w = 0"
  have cells: "propagation_queue t2 j = propagation_queue t j" if "j \<le> i" for j
    using assign_True_queue_kept [OF run] that i by (simp add: queue_kept_def)
  show "\<exists>j. frm \<le> j \<and> j < i + 1 \<and> varid (propagation_queue t2 j) = w"
  proof (cases "assn t w = 0")
    case True
    with w have "w = varid (propagation_queue t i)"
      by (auto simp: assign_True_assn_eq [OF run] split: if_splits)
    with i cells [of i] show ?thesis by (intro exI [of _ i]) simp
  next
    case False
    with b w obtain j where "frm \<le> j" "j < i" "varid (propagation_queue t j) = w"
      by (auto simp: batch_def covered_def)
    with cells [of j] show ?thesis by (intro exI [of _ j]) simp
  qed
qed

lemma batch_step:
  assumes wf: "wf_formula F" and b: "batch F b frm i t" and i: "frm \<le> i" "i < npropped t"
    and run: "assign F (varid (propagation_queue t i)) (sign_of (propagation_queue t i))
       (clear_conflict (varid (propagation_queue t i)) t) = (True, t2)"
  shows "batch F b frm (i + 1) t2"
proof -
  let ?q = "propagation_queue t i"
  let ?t1 = "clear_conflict (varid ?q) t"
  from b i have v: "0 \<le> varid ?q" "varid ?q < V F" by (auto simp: batch_def fresh_def)
  from b have inv1: "assignment_inv F ?t1" by (simp add: batch_def)
  with wf v run sign_of_nonzero [of ?q] have inv2: "assignment_inv F t2"
    unfolding assignment_inv_def by (blast intro: assign_inv_intros)
  note kept = assign_True_vars_kept [OF run sign_of_nonzero] and qk = assign_True_queue_kept [OF run]
  from b kept have vk: "vars_kept F b t2"
    by (auto simp: batch_def intro: vars_kept_trans [of F b ?t1])
  from b qk have qkb: "queue_kept b t2"
    by (auto simp: batch_def intro: queue_kept_trans [of b ?t1])
  from b inv1 have "queue_ok F frm ?t1" "rem_ok F ?t1"
    by (simp_all add: batch_def assignment_inv_def)
  from assign_True_queue_ok [OF wf v this(2) sign_of_cases run this(1)]
  have qok: "queue_ok F frm t2" .
  from b have "drained frm i t" by (simp add: batch_def)
  from inv2 vk qkb qok batch_step_fresh [OF b vk qok run sign_of_nonzero]
    drained_step [OF this i(2) run] batch_step_covered [OF b i run]
  show ?thesis by (simp add: batch_def)
qed

lemma batch_step_bound:
  assumes "assign F v sign (clear_conflict v t) = (True, t2)" "i < npropped t"
  shows "i + 1 \<le> npropped t2"
  using assign_True_queue_kept [OF assms(1)] assms(2) by (simp add: queue_kept_def)

lemma batch_signs:
  assumes "batch F b frm i t" "frm \<le> j" "j < i" "i \<le> npropped t"
  shows "assn t (varid (propagation_queue t j)) = sign_of (propagation_queue t j)"
  using assms by (auto simp: batch_def queue_ok_iff drained_iff entry_ok_def)

lemma batch_fail:
  assumes wf: "wf_formula F" and b: "batch F b frm i t" and i: "frm \<le> i" "i < npropped t"
    and fail: "assign F (varid (propagation_queue t i)) (sign_of (propagation_queue t i))
       (clear_conflict (varid (propagation_queue t i)) t) = (False, t2)"
  shows "undoable F b frm i t2" "covered b frm i t2"
    "\<forall>j<npropped b. propagation_queue t2 j = propagation_queue b j"
proof -
  let ?q = "propagation_queue t i"
  let ?t1 = "clear_conflict (varid ?q) t"
  from b i have v: "0 \<le> varid ?q" "varid ?q < V F" by (auto simp: batch_def fresh_def)
  from b have inv1: "assignment_inv F ?t1" by (simp add: batch_def)
  then have sound1: "satisfier_sound F ?t1" by (simp add: assignment_inv_def)
  note fields = assign_False_fields [OF wf v sound1 fail sign_of_nonzero]
  note kept = assign_False_kept [OF wf v sound1 sign_of_nonzero fail]
  from fields have f: "assn t2 = assn t" "rem t2 = rem t" "satisfier t2 = satisfier t"
      "nunsat t2 = nunsat t"
    by simp_all
  from kept(2) have cells: "propagation_queue t2 j = propagation_queue t j" if "j < npropped t" for j
    using that by (simp add: queue_kept_def)
  from b kept(1) have vk: "vars_kept F b t2"
    by (auto simp: batch_def intro: vars_kept_trans [of F b ?t1])
  from b f have inv: "rem_ok F t2" "satisfier_sound F t2" "nunsat_ok F t2"
    by (simp_all add: batch_def assignment_inv_def assignment_inv_cong [OF f])
  have fr: "fresh F b frm i t2"
    using b i cells by (auto simp: batch_def fresh_def)
  have sg: "assn t2 (varid (propagation_queue t2 j)) = sign_of (propagation_queue t2 j)"
    if "frm \<le> j" "j < i" for j
    using batch_signs [OF b that] i that cells [of j] f by simp
  from inv vk fr sg show "undoable F b frm i t2" by (simp add: undoable_def)
  from b i cells f show "covered b frm i t2"
    unfolding batch_def covered_def by (metis order_less_trans)
  from b cells show "\<forall>j<npropped b. propagation_queue t2 j = propagation_queue b j"
    by (auto simp: batch_def queue_kept_def)
qed

lemma rewoundI:
  assumes wf: "wf_formula F" and base: "assignment_inv F b"
    and t: "undoable F b frm i t" and cov: "covered b frm i t"
    and cells: "\<forall>j<npropped b. propagation_queue t j = propagation_queue b j"
  shows "rewound F b frm (undo_unit_propagations F frm i t)"
proof -
  let ?r = "undo_unit_propagations F frm i t"
  from base have sound: "satisfier_sound F b" and compl: "satisfier_complete F b"
    by (simp_all add: assignment_inv_def)
  note r = undo_restores [OF wf sound t cov]
  from r(1) have vk: "vars_kept F b ?r" by (simp add: undoable_def)
  from complete_from_base [OF compl r(2) vk] r(1) have "assignment_inv F ?r"
    by (simp add: undoable_def assignment_inv_def)
  with r(2) vk cells show ?thesis
    by (simp add: rewound_def undo_unit_propagations_def undo_fold)
qed

lemma batch_fail_rewound:
  assumes wf: "wf_formula F" and base: "assignment_inv F b" and b: "batch F b frm i t"
    and i: "frm \<le> i" "i < npropped t"
    and fail: "assign F (varid (propagation_queue t i)) (sign_of (propagation_queue t i))
       (clear_conflict (varid (propagation_queue t i)) t) = (False, t2)"
  shows "loop_post F b frm (False, undo_unit_propagations F frm i t2)"
  using rewoundI [OF wf base batch_fail [OF wf b i fail]] by (simp add: loop_post_def)

section \<open>The loop\<close>

lemma loop_contract:
  assumes loop: "do_unit_propagations_loop F frm i s = Some y"
  shows "\<forall>b. wf_formula F \<longrightarrow> assignment_inv F b \<longrightarrow> batch F b frm i s \<longrightarrow> frm \<le> i \<longrightarrow>
     i \<le> npropped s \<longrightarrow> loop_post F b frm y"
proof (rule do_unit_propagations_loop.raw_induct [where P = "\<lambda>F frm i s y.
    \<forall>b. wf_formula F \<longrightarrow> assignment_inv F b \<longrightarrow> batch F b frm i s \<longrightarrow> frm \<le> i \<longrightarrow>
     i \<le> npropped s \<longrightarrow> loop_post F b frm y", OF _ loop], intro allI impI)
  fix rec F frm i s y b
  assume IH: "\<And>F frm i s y. rec F frm i s = Some y \<Longrightarrow>
      \<forall>b. wf_formula F \<longrightarrow> assignment_inv F b \<longrightarrow> batch F b frm i s \<longrightarrow> frm \<le> i \<longrightarrow>
       i \<le> npropped s \<longrightarrow> loop_post F b frm y"
    and body: "(if i < npropped s
      then let app = propagation_queue s i; vid = varid app;
               s1 = clear_conflict vid s; sign = sign_of app
           in case assign F vid sign s1 of
              (ok, s2) \<Rightarrow>
                if \<not> ok then Some (False, undo_unit_propagations F frm i s2)
                else rec F frm (i + 1) s2
      else Some (True, s)) = Some y"
    and wf: "wf_formula F" and base: "assignment_inv F b" and b: "batch F b frm i s"
    and i: "frm \<le> i" and le: "i \<le> npropped s"
  show "loop_post F b frm y"
  proof (cases "i < npropped s")
    case False
    with le have "i = npropped s" by simp
    with body False b show ?thesis by (auto simp: loop_post_def)
  next
    case True
    let ?v = "varid (propagation_queue s i)"
    obtain ok s2 where run: "assign F ?v (sign_of (propagation_queue s i)) (clear_conflict ?v s) = (ok, s2)"
      by (cases "assign F ?v (sign_of (propagation_queue s i)) (clear_conflict ?v s)")
    show ?thesis
    proof (cases ok)
      case ok: True
      with run body True have rec: "rec F frm (i + 1) s2 = Some y"
        by (simp add: Let_def)
      from run ok batch_step [OF wf b i True] batch_step_bound [OF _ True]
      have "batch F b frm (i + 1) s2" "i + 1 \<le> npropped s2" by simp_all
      with IH [OF rec] wf base i show ?thesis by simp
    next
      case False
      with run body True have "y = (False, undo_unit_propagations F frm i s2)"
        by (simp add: Let_def)
      with run False batch_fail_rewound [OF wf base b i True, of s2] show ?thesis by simp
    qed
  qed
qed

lemma propagate_contract:
  assumes wf: "wf_formula F" and base: "assignment_inv F b" and ok: "queue_ok F frm b"
    and fr: "fresh F b frm (npropped b) b" and le: "frm \<le> npropped b"
    and run: "do_unit_propagations F frm b = Some y"
  shows "if fst y then batch F b frm (npropped (snd y)) (snd y) else rewound F b frm (snd y)"
proof -
  from base ok fr have "batch F b frm frm b"
    by (simp add: batch_def drained_iff covered_def)
  with loop_contract [of F frm frm b y] run wf base le show ?thesis
    by (simp add: do_unit_propagations_def loop_post_def)
qed

section \<open>A decision and its batch\<close>

lemma decision_batch:
  assumes wf: "wf_formula F" "0 \<le> v" "v < V F" and inv: "assignment_inv F s"
    and unset: "assn s v = 0" and sign: "sign = 1 \<or> sign = - 1"
    and run: "assign F v sign s = (True, s1)"
  shows "assignment_inv F s1" "queue_ok F (npropped s) s1"
    "fresh F s1 (npropped s) (npropped s1) s1" "npropped s \<le> npropped s1"
proof -
  from sign have s0: "sign \<noteq> 0" by auto
  from wf s0 inv run show "assignment_inv F s1"
    unfolding assignment_inv_def by (blast intro: assign_inv_intros)
  from inv have rem: "rem_ok F s" by (simp add: assignment_inv_def)
  have "queue_ok F (npropped s) s" by (auto simp: queue_ok_iff)
  from assign_True_queue_ok [OF wf rem sign run this] show "queue_ok F (npropped s) s1" .
  from assign_True_new [OF wf run] assign_True_new_unset [OF run s0]
  show "fresh F s1 (npropped s) (npropped s1) s1" by (simp add: fresh_def)
  from assign_True_queue(1) [OF run] show "npropped s \<le> npropped s1" .
qed

lemma decision_propagated:
  assumes wf: "wf_formula F" "0 \<le> v" "v < V F" and inv: "assignment_inv F s"
    and unset: "assn s v = 0" and sign: "sign = 1 \<or> sign = - 1"
    and npat: "npropped_at s v = npropped s"
    and a: "assign F v sign s = (True, s1)"
    and p: "do_unit_propagations F (npropped_at s1 v) s1 = Some (ok, s2)"
  shows "npropped_at s1 v = npropped s" "assn s1 v \<noteq> 0"
    "if ok then batch F s1 (npropped s) (npropped s2) s2 else rewound F s1 (npropped s) s2"
proof -
  from assign_loop_True_frame [OF assign_True_loop [OF a unset]] npat
  show n1: "npropped_at s1 v = npropped s" by simp
  from assign_assn [OF a unset] sign show "assn s1 v \<noteq> 0" by auto
  from propagate_contract [OF wf(1) decision_batch [OF wf inv unset sign a]] p n1
  show "if ok then batch F s1 (npropped s) (npropped s2) s2 else rewound F s1 (npropped s) s2"
    by auto
qed

lemma fresh_queue_valid: "fresh F b frm (npropped t) t \<Longrightarrow> queue_valid F frm t"
  by (simp add: fresh_def queue_valid_iff)

text \<open>After a decision and its propagation fewer variables are unset.\<close>

lemma decision_progress:
  assumes wf: "wf_formula F" "0 \<le> v" "v < V F" and inv: "assignment_inv F s"
    and unset: "assn s v = 0" and sign: "sign = 1 \<or> sign = - 1"
    and a: "assign F v sign s = (True, s1)"
    and p: "do_unit_propagations F (npropped s) s1 = Some (True, s2)"
  shows "assignment_inv F s2" "zeros (V F) (assn s2) < zeros (V F) (assn s)"
proof -
  note d = decision_batch [OF wf inv unset sign a]
  from propagate_contract [OF wf(1) d(1,2,3,4) p]
  have b: "batch F s1 (npropped s) (npropped s2) s2" by simp
  then show "assignment_inv F s2" by (simp add: batch_def)
  from b have vk: "vars_kept F s1 s2" by (simp add: batch_def)
  from sign have s0: "sign \<noteq> 0" by auto
  have "assn s2 w \<noteq> 0" if "assn s1 w \<noteq> 0" for w
    using vk that by (auto simp: vars_kept_def)
  with assign_assn [OF a unset] s0 have "assn s2 v \<noteq> 0" "\<And>w. assn s w \<noteq> 0 \<Longrightarrow> assn s2 w \<noteq> 0"
    by auto
  with zeros_less [of v "V F" "assn s" "assn s2"] wf(2,3) unset
  show "zeros (V F) (assn s2) < zeros (V F) (assn s)"
    by blast
qed

lemma final_unassign:
  assumes wf: "wf_formula F" "0 \<le> v" "v < V F" and inv: "assignment_inv F s"
    and unset: "assn s v = 0" and sign: "sign \<noteq> 0"
    and run: "assign F v sign s = (True, s1)" and rw: "rewound F s1 (npropped s) r"
  shows "restored F s (unassign F v sign r)"
    "npropped (unassign F v sign r) = npropped s"
    "npropped_at (unassign F v sign r) v = npropped_at s v"
proof -
  let ?f = "unassign F v sign r"
  from inv have sound: "satisfier_sound F s" and compl: "satisfier_complete F s"
    by (simp_all add: assignment_inv_def)
  from rw have r: "assn r = assn s1" "assignment_inv F r" "vars_kept F s1 r"
      "npropped r = npropped s"
      and cells: "\<forall>j<npropped s1. propagation_queue r j = propagation_queue s1 j"
    by (simp_all add: rewound_def)
  note a1 = assign_assn [OF run unset]
  from r(1) a1 unset have assn: "assn ?f = assn s"
    by (simp add: unassign_assn fun_eq_iff)
  from r(1) a1 sign have pos: "0 < assn r v * sign" by (auto simp: zero_less_mult_iff)
  from r(2) have "rem_ok F r" "satisfier_sound F r" "nunsat_ok F r"
    by (simp_all add: assignment_inv_def)
  with unassign_rem_ok [OF wf] unassign_satisfier_sound [OF wf _ pos] unassign_nunsat_ok [OF wf]
  have inv': "rem_ok F ?f" "satisfier_sound F ?f" "nunsat_ok F ?f" by simp_all
  from vars_kept_trans [OF assign_True_vars_kept [OF run sign] r(3)]
  have "vars_kept F s r" .
  from unassign_vars_kept [OF wf(1) sound this unset] have vk: "vars_kept F s ?f" .
  from complete_from_base [OF compl assn vk] inv' have inv'': "assignment_inv F ?f"
    by (simp add: assignment_inv_def)
  from assign_True_queue [OF run] cells r(4) have qk: "queue_kept s ?f"
    by (simp add: queue_kept_def)
  from assn inv'' vk qk r(4) show "restored F s ?f"
    by (simp add: restored_def fresh_def)
  from r(4) show "npropped ?f = npropped s" by simp
  from r(3) a1 sign assign_loop_True_frame [OF assign_True_loop [OF run unset]]
  show "npropped_at ?f v = npropped_at s v"
    by (simp add: vars_kept_def)
qed

lemma rewound_after_failure:
  assumes wf: "wf_formula F" and base: "assignment_inv F b"
    and b2: "batch F b frm (npropped s2) s2" and res: "restored F s2 s3"
  shows "rewound F b frm (undo_unit_propagations F frm (npropped s3) s3)"
proof (rule rewoundI [OF wf base])
  from res have eq: "assn s3 = assn s2" and inv3: "assignment_inv F s3"
    and vk: "vars_kept F s2 s3" and qk: "queue_kept s2 s3"
    and fr: "fresh F s2 (npropped s2) (npropped s3) s3"
    by (simp_all add: restored_def)
  from qk have cells: "propagation_queue s3 j = propagation_queue s2 j" if "j < npropped s2" for j
    using that by (simp add: queue_kept_def)
  from b2 have vk2: "vars_kept F b s2" and qk2: "queue_kept b s2" by (simp_all add: batch_def)
  have entry: "0 \<le> varid (propagation_queue s3 j) \<and> varid (propagation_queue s3 j) < V F \<and>
      assn b (varid (propagation_queue s3 j)) = 0 \<and>
      (assn s3 (varid (propagation_queue s3 j)) = 0 \<or>
       assn s3 (varid (propagation_queue s3 j)) = sign_of (propagation_queue s3 j))"
    if j: "frm \<le> j" "j < npropped s3" for j
  proof (cases "j < npropped s2")
    case True
    with b2 j batch_signs [OF b2 j(1) True] cells [OF True] eq show ?thesis
      by (simp add: batch_def fresh_def)
  next
    case False
    with fr j have "0 \<le> varid (propagation_queue s3 j) \<and> varid (propagation_queue s3 j) < V F \<and>
        assn s2 (varid (propagation_queue s3 j)) = 0"
      by (simp add: fresh_def)
    with vars_kept_unset [OF vk2] eq show ?thesis by simp
  qed
  with inv3 vars_kept_trans [OF vk2 vk] show "undoable F b frm (npropped s3) s3"
    by (simp add: undoable_def fresh_def assignment_inv_def)
  from b2 qk eq cells show "covered b frm (npropped s3) s3"
    unfolding batch_def covered_def queue_kept_def by (metis order_less_le_trans)
  from qk2 cells show "\<forall>j<npropped b. propagation_queue s3 j = propagation_queue b j"
    by (auto simp: queue_kept_def)
qed

lemma batch_kept_var:
  assumes "batch F b frm i s2" "restored F s2 s3" "assn b v \<noteq> 0"
  shows "npropped_at s3 v = npropped_at b v"
  using assms unfolding batch_def restored_def vars_kept_def by metis

section \<open>The examples\<close>

lemma clash_cnf_wf: "wf_formula clash_cnf"
  by code_simp

lemma clash_start_inv: "assignment_inv clash_cnf clash_start"
  by code_simp

lemma clash_assign_True: "fst (assign clash_cnf 0 1 clash_start)"
  by code_simp

lemma clash_propagated:
  "do_unit_propagations clash_cnf 0 clash_assigned \<noteq> None"
  "\<not> fst (the (do_unit_propagations clash_cnf 0 clash_assigned))"
  by code_simp+

lemma ex_propagated_length:
  "0 < npropped (snd (the (do_unit_propagations ex_cnf 0 ex_assigned)))"
  by code_simp

section \<open>What a batch of propagations leaves\<close>

text \<open>
  C7 (a failed batch is rewound): after a decision on an unset variable in a
  state that satisfies the assignment invariant, when the unit propagations
  from the queue length before the decision return false, the values are the
  ones right after the decision, the state satisfies the assignment
  invariant, and the queue is as long as it was before the decision.
\<close>

theorem propagation_failure_rewinds:
  assumes wf: "wf_formula F" "0 \<le> v" "v < V F" and inv: "assignment_inv F s"
    and unset: "assn s v = 0" and sign: "sign = 1 \<or> sign = - 1"
    and a: "assign F v sign s = (True, s1)"
    and p: "do_unit_propagations F (npropped s) s1 = Some (False, s2)"
  shows "assn s2 = assn s1 \<and> assignment_inv F s2 \<and> npropped s2 = npropped s"
  using propagate_contract [OF wf(1) decision_batch [OF wf inv unset sign a] p]
  by (simp add: rewound_def)

theorem propagation_failure_rewinds_witness:
  "assn (snd (the (do_unit_propagations clash_cnf 0 clash_assigned))) = assn clash_assigned \<and>
   assignment_inv clash_cnf (snd (the (do_unit_propagations clash_cnf 0 clash_assigned))) \<and>
   npropped (snd (the (do_unit_propagations clash_cnf 0 clash_assigned))) = 0"
  using propagation_failure_rewinds [of clash_cnf 0 clash_start 1 clash_assigned
      "snd (the (do_unit_propagations clash_cnf 0 clash_assigned))"]
    clash_cnf_wf clash_start_inv clash_assign_True clash_propagated
  by (auto simp: prod_eq_iff)

text \<open>
  C15 (propagated literals are forced): after a decision on an unset variable
  in a state that satisfies the assignment invariant, when the unit
  propagations return true, every queue entry of the batch names a variable
  that the decision had left unset and that now holds the sign of the entry,
  and every variable set by the batch is named by such an entry.
\<close>

theorem propagation_sets_forced:
  assumes wf: "wf_formula F" "0 \<le> v" "v < V F" and inv: "assignment_inv F s"
    and unset: "assn s v = 0" and sign: "sign = 1 \<or> sign = - 1"
    and a: "assign F v sign s = (True, s1)"
    and p: "do_unit_propagations F (npropped s) s1 = Some (True, s2)"
  shows "(\<forall>j. npropped s \<le> j \<and> j < npropped s2 \<longrightarrow>
            assn s1 (varid (propagation_queue s2 j)) = 0 \<and>
            assn s2 (varid (propagation_queue s2 j)) = sign_of (propagation_queue s2 j)) \<and>
         (\<forall>w. assn s2 w \<noteq> 0 \<and> assn s1 w = 0 \<longrightarrow>
            (\<exists>j. npropped s \<le> j \<and> j < npropped s2 \<and> varid (propagation_queue s2 j) = w))"
proof -
  from propagate_contract [OF wf(1) decision_batch [OF wf inv unset sign a] p]
  have b: "batch F s1 (npropped s) (npropped s2) s2" by simp
  with batch_signs [OF b] show ?thesis
    by (simp add: batch_def fresh_def covered_def)
qed

theorem propagation_sets_forced_witness:
  "assn (snd (the (do_unit_propagations ex_cnf 0 ex_assigned)))
     (varid (propagation_queue (snd (the (do_unit_propagations ex_cnf 0 ex_assigned))) 0)) =
   sign_of (propagation_queue (snd (the (do_unit_propagations ex_cnf 0 ex_assigned))) 0)"
  using propagation_sets_forced [of ex_cnf 0 ex_start 1 ex_assigned
      "snd (the (do_unit_propagations ex_cnf 0 ex_assigned))"]
    ex_cnf_wf ex_start_inv ex_assign_True ex_propagated ex_propagated_length
  by (auto simp: prod_eq_iff)

end
