(* ===== verification/Search.thy ===== *)
theory Search
  imports Propagation
begin

text \<open>
  The search driver of \<open>src/sat.cpp\<close>: \<open>most_constrained_var\<close>, \<open>try_value\<close>,
  \<open>dfs\<close>, and the part of \<open>main\<close> that initialises the solver state, calls
  \<open>dfs(0)\<close> and prints the result. The recursion of \<open>dfs\<close> through
  \<open>try_value\<close> is bounded by a fuel argument, the depth still allowed;
  \<open>None\<close> is a run that needs more depth or whose propagation does not
  return.
\<close>

section \<open>Initial state\<close>

fun tally_clause :: "int list \<Rightarrow> int array \<times> int array \<Rightarrow> int array \<times> int array" where
  "tally_clause [] t = t"
| "tally_clause (v # vs) (np, nn) =
     tally_clause vs
       (if v < 0 then (np, nn(varid v := nn (varid v) + 1))
        else (np(varid v := np (varid v) + 1), nn))"

definition tally_clauses :: "formula \<Rightarrow> int array \<times> int array" where
  "tally_clauses F = fold (\<lambda>c. tally_clause (clauses F c)) [0..C F - 1] (\<lambda>_. 0, \<lambda>_. 0)"

text \<open>
  \<open>alloc_solver\<close> is the solver state as \<open>main\<close> allocates it before it reads
  the clauses: \<open>calloc\<close> gives arrays of zeros, \<open>new set<int>[V]\<close> gives empty
  sets, and \<open>npropped\<close> is set to 0. \<open>propping_clause\<close> comes from \<open>malloc\<close>,
  and \<open>assn\<close>, \<open>satisfier\<close> and \<open>rem\<close> are allocated later; the model takes 0
  for the cells the code has not written. \<open>init_solver\<close> is the state after
  the first pass has filled the tallies and \<open>main\<close> has set \<open>assn\<close>,
  \<open>satisfier\<close>, \<open>rem\<close> and \<open>nunsat\<close>.
\<close>

definition alloc_solver :: solver where
  "alloc_solver =
     \<lparr>conflict = (\<lambda>_. []), in_conflict = (\<lambda>_. []),
      assn = (\<lambda>_. 0), satisfier = (\<lambda>_. 0), rem = (\<lambda>_. 0), nunsat = 0,
      npos_app = (\<lambda>_. 0), nneg_app = (\<lambda>_. 0),
      propagation_queue = (\<lambda>_. 0), npropped = 0,
      npropped_at = (\<lambda>_. 0), propping_clause = (\<lambda>_. 0)\<rparr>"

definition init_solver :: "formula \<Rightarrow> solver" where
  "init_solver F =
     alloc_solver
       \<lparr>npos_app := fst (tally_clauses F), nneg_app := snd (tally_clauses F),
        assn := (\<lambda>_. 0), satisfier := (\<lambda>_. 0),
        rem := (\<lambda>c. if 0 \<le> c \<and> c < C F then csizes F c else 0),
        nunsat := C F\<rparr>"

section \<open>The driver\<close>

definition select_step :: "solver \<Rightarrow> int \<Rightarrow> int \<times> int \<Rightarrow> int \<times> int" where
  "select_step s i = (\<lambda>(mapp, v).
     if assn s i \<noteq> 0 then (mapp, v)
     else if npos_app s i + nneg_app s i > mapp then (npos_app s i + nneg_app s i, i)
     else (mapp, v))"

definition most_constrained_var :: "formula \<Rightarrow> solver \<Rightarrow> int" where
  "most_constrained_var F s = snd (fold (select_step s) [0..V F - 1] (0, - 1))"

text \<open>
  \<open>score s i\<close> is the number the loop compares; \<open>select_inv s n\<close> is what
  holds of the pair \<open>(mapp, v)\<close> after the indices below \<open>n\<close>.
\<close>

definition score :: "solver \<Rightarrow> int \<Rightarrow> int" where
  "score s i = npos_app s i + nneg_app s i"

definition select_inv :: "solver \<Rightarrow> int \<Rightarrow> int \<times> int \<Rightarrow> bool" where
  "select_inv s n = (\<lambda>(mapp, v).
     (\<forall>i. 0 \<le> i \<and> i < n \<and> assn s i = 0 \<longrightarrow> score s i \<le> mapp) \<and>
     ((v = - 1 \<and> mapp = 0) \<or>
      (0 \<le> v \<and> v < n \<and> assn s v = 0 \<and> score s v = mapp \<and> 0 < mapp \<and>
       (\<forall>i. 0 \<le> i \<and> i < v \<and> assn s i = 0 \<longrightarrow> score s i < mapp))))"

definition try_value ::
    "(int \<Rightarrow> solver \<Rightarrow> (bool \<times> solver) option) \<Rightarrow> formula \<Rightarrow> int \<Rightarrow> int \<Rightarrow> int \<Rightarrow> solver
      \<Rightarrow> (bool \<times> solver) option" where
  "try_value rec F v sign l s =
     (case assign F v sign s of
        (True, s1) \<Rightarrow>
          (case do_unit_propagations F (npropped_at s1 v) s1 of
             None \<Rightarrow> None
           | Some (True, s2) \<Rightarrow>
               (case rec (l + 1) s2 of
                  None \<Rightarrow> None
                | Some (True, s3) \<Rightarrow> Some (True, s3)
                | Some (False, s3) \<Rightarrow>
                    Some (False, unassign F v sign
                      (undo_unit_propagations F (npropped_at s3 v) (npropped s3) s3)))
           | Some (False, s2) \<Rightarrow> Some (False, unassign F v sign s2))
      | (False, s1) \<Rightarrow> Some (False, s1))"

fun dfs :: "nat \<Rightarrow> formula \<Rightarrow> int \<Rightarrow> solver \<Rightarrow> (bool \<times> solver) option" where
  "dfs 0 F l s = None"
| "dfs (Suc n) F l s =
     (if nunsat s = 0 then Some (True, s)
      else let v = most_constrained_var F s in
        if v = - 1 then Some (False, s)
        else let first_try = (if npos_app s v > nneg_app s v then 1 else - 1);
                 second_try = (if npos_app s v > nneg_app s v then - 1 else 1);
                 s1 = clear_conflict v (s\<lparr>npropped_at := (npropped_at s)(v := npropped s)\<rparr>)
          in case try_value (\<lambda>l' s'. dfs n F l' s') F v first_try l s1 of
               None \<Rightarrow> None
             | Some (True, s2) \<Rightarrow> Some (True, s2)
             | Some (False, s2) \<Rightarrow>
                 if in_conflict_set v s2
                 then try_value (\<lambda>l' s'. dfs n F l' s') F v second_try l (augment_conflict v s2)
                 else Some (False, s2))"

section \<open>The program\<close>

datatype result = SAT "(int \<times> int) list" | UNSAT

definition print_assignment :: "formula \<Rightarrow> solver \<Rightarrow> (int \<times> int) list" where
  "print_assignment F s = map (\<lambda>i. (i + 1, if assn s i > 0 then 1 else 0)) [0..V F - 1]"

definition solve :: "nat \<Rightarrow> formula \<Rightarrow> result option" where
  "solve n F =
     (case dfs n F 0 (init_solver F) of
        None \<Rightarrow> None
      | Some (True, s) \<Rightarrow> Some (SAT (print_assignment F s))
      | Some (False, s) \<Rightarrow> Some UNSAT)"

text \<open>
  The third scenario of the specification, \<open>p cnf 3 3\<close> with the clauses
  \<open>1 0\<close>, \<open>-1 2 0\<close>, \<open>-2 3 0\<close>.
\<close>

abbreviation chain_cnf :: formula where
  "chain_cnf \<equiv> mk_formula 3 3 [[1], [- 1, 2], [- 2, 3]]"

text \<open>
  A formula on which the first decision is followed by a propagation:
  \<open>p cnf 3 3\<close> with the clauses \<open>1 2 0\<close>, \<open>-1 3 0\<close>, \<open>-3 -2 0\<close>.
\<close>

abbreviation branch_cnf :: formula where
  "branch_cnf \<equiv> mk_formula 3 3 [[1, 2], [- 1, 3], [- 3, - 2]]"

section \<open>The initial state\<close>

lemma init_solver_simps [simp]:
  "conflict (init_solver F) = (\<lambda>_. [])" "in_conflict (init_solver F) = (\<lambda>_. [])"
  "assn (init_solver F) = (\<lambda>_. 0)" "satisfier (init_solver F) = (\<lambda>_. 0)"
  "rem (init_solver F) = (\<lambda>c. if 0 \<le> c \<and> c < C F then csizes F c else 0)"
  "nunsat (init_solver F) = C F" "npropped (init_solver F) = 0"
  by (simp_all add: init_solver_def alloc_solver_def)

lemma init_assignment_inv:
  assumes "0 \<le> C F"
  shows "assignment_inv F (init_solver F)"
  using assms
  by (auto simp: assignment_inv_def rem_ok_def satisfier_sound_def satisfier_complete_def
      nunsat_ok_def all_below_iff csizes_def unset_count_def count_where_def clause_sat_def
      zeros_all)

lemma init_tracker:
  "tracker_irrefl n (init_solver F)" "tracker_sets_ok n (init_solver F)" "tracker_sym n (init_solver F)"
  by (simp_all add: tracker_irrefl_def irrefl_at_def tracker_sets_ok_def sets_ok_at_def
      tracker_sym_def all_below_iff intset_inv_def)

lemma init_queue_valid: "0 \<le> frm \<Longrightarrow> queue_valid F frm (init_solver F)"
  by (simp add: queue_valid_iff)

lemma tally_clause_apply:
  "fst (tally_clause ls (np, nn)) v = np v + count_where (\<lambda>l. \<not> l < 0 \<and> varid l = v) ls"
  "snd (tally_clause ls (np, nn)) v = nn v + count_where (\<lambda>l. l < 0 \<and> varid l = v) ls"
  by (induction ls arbitrary: np nn) auto

lemma tally_fold_apply:
  "fst (fold (\<lambda>c. tally_clause (clauses F c)) cs t) v
     = fst t v + count_where (\<lambda>l. \<not> l < 0 \<and> varid l = v) (concat (map (clauses F) cs))"
  "snd (fold (\<lambda>c. tally_clause (clauses F c)) cs t) v
     = snd t v + count_where (\<lambda>l. l < 0 \<and> varid l = v) (concat (map (clauses F) cs))"
  by (induction cs arbitrary: t) (auto simp: tally_clause_apply count_where_append split: prod.splits)

lemma count_where_occurrences:
  "count_where (\<lambda>a. 0 < a) (occurrences F v)
     = count_where (\<lambda>l. \<not> l < 0 \<and> varid l = v) (concat (map (clauses F) [0..C F - 1]))"
  "count_where (\<lambda>a. a < 0) (occurrences F v)
     = count_where (\<lambda>l. l < 0 \<and> varid l = v) (concat (map (clauses F) [0..C F - 1]))"
  unfolding occurrences_def count_where_concat map_map comp_def count_where_map count_where_filter
  by (auto intro!: arg_cong [where f = sum_list] count_where_cong simp: app_enc_def)

text \<open>
  C35 (invariant I4 holds initially): after the first pass of \<open>main\<close>,
  \<open>npos_app[v]\<close> is the number of positive and \<open>nneg_app[v]\<close> the number of
  negative occurrences of variable \<open>v\<close> in the formula.
\<close>

theorem init_tallies:
  "npos_app (init_solver F) v = count_where (\<lambda>a. 0 < a) (occurrences F v) \<and>
   nneg_app (init_solver F) v = count_where (\<lambda>a. a < 0) (occurrences F v)"
  by (simp add: init_solver_def alloc_solver_def tally_clauses_def tally_fold_apply count_where_occurrences)


section \<open>A conflict met by \<open>assign\<close> itself\<close>

lemma try_value_assign_False:
  "assign F v sign s = (False, s') \<Longrightarrow> try_value rec F v sign l s = Some (False, s')"
  by (simp add: try_value_def)

lemma chain_select: "most_constrained_var chain_cnf (init_solver chain_cnf) = 0"
  by code_simp

lemma chain_sign: "npos_app (init_solver chain_cnf) 0 = nneg_app (init_solver chain_cnf) 0"
  by code_simp

lemma chain_assign_False:
  "\<not> fst (assign chain_cnf 0 (- 1) (clear_conflict 0
      ((init_solver chain_cnf)\<lparr>npropped_at := (npropped_at (init_solver chain_cnf))(0 := 0)\<rparr>)))"
  by code_simp

text \<open>
  C10 (no second value after a direct conflict): when the clauses are not all
  satisfied, a variable is selected, and \<open>assign\<close> of its first value fails
  in \<open>try_value\<close>, \<open>dfs\<close> returns false with the state that \<open>assign\<close> left,
  at any depth: \<open>backprop_conflict\<close> has emptied \<open>in_conflict[v]\<close>, so the
  test \<open>in_conflict_set(v)\<close> fails and the second value is never tried.
\<close>

theorem dfs_direct_conflict:
  assumes "nunsat s \<noteq> 0" "most_constrained_var F s \<noteq> - 1"
    and "assign F (most_constrained_var F s)
           (if npos_app s (most_constrained_var F s) > nneg_app s (most_constrained_var F s) then 1 else - 1)
           (clear_conflict (most_constrained_var F s)
             (s\<lparr>npropped_at := (npropped_at s)(most_constrained_var F s := npropped s)\<rparr>))
         = (False, s')"
  shows "dfs (Suc n) F l s = Some (False, s')"
  using assms by (simp add: Let_def try_value_assign_False assign_False_in_conflict)

theorem dfs_direct_conflict_witness:
  "\<exists>s'. dfs (Suc 0) chain_cnf 0 (init_solver chain_cnf) = Some (False, s')"
  using dfs_direct_conflict [of "init_solver chain_cnf" chain_cnf _ 0 0]
    chain_select chain_sign chain_assign_False
  by (simp add: prod_eq_iff)

section \<open>Variable selection\<close>

lemma select_inv_step:
  assumes "select_inv s n acc" "0 \<le> n"
  shows "select_inv s (n + 1) (select_step s n acc)"
proof (cases acc)
  case (Pair mapp v)
  have *: "i < n + 1 \<longleftrightarrow> i < n \<or> i = n" for i by auto
  from assms Pair show ?thesis
    unfolding select_inv_def select_step_def score_def
    by (simp add: * split: if_splits) (smt (verit))
qed

lemma select_fold:
  "0 \<le> n \<Longrightarrow> select_inv s n (fold (select_step s) [0..n - 1] (0, - 1))"
proof (induction n rule: int_ge_induct)
  case base
  then show ?case by (simp add: select_inv_def)
next
  case (step n)
  then show ?case
    using select_inv_step [of s n "fold (select_step s) [0..n - 1] (0, - 1)"]
    by (simp add: upto_rec2 [of 0 n])
qed

text \<open>
  C23 (most-constrained variable): \<open>most_constrained_var\<close> returns \<open>-1\<close> exactly
  when no unset variable has a positive tally sum; otherwise it returns an
  unset variable below \<open>V\<close> whose tally sum is positive and maximal among the
  unset variables, the one of lowest index among those of maximal sum.
\<close>

theorem most_constrained_var_spec:
  assumes "0 \<le> V F"
  shows "(most_constrained_var F s = - 1 \<and>
            (\<forall>i. 0 \<le> i \<and> i < V F \<and> assn s i = 0 \<longrightarrow> score s i \<le> 0))
       \<or> (0 \<le> most_constrained_var F s \<and> most_constrained_var F s < V F
          \<and> assn s (most_constrained_var F s) = 0 \<and> 0 < score s (most_constrained_var F s)
          \<and> (\<forall>i. 0 \<le> i \<and> i < V F \<and> assn s i = 0 \<longrightarrow>
                score s i \<le> score s (most_constrained_var F s)
                \<and> (score s i = score s (most_constrained_var F s) \<longrightarrow> most_constrained_var F s \<le> i)))"
  using select_fold [OF assms, of s] unfolding most_constrained_var_def select_inv_def
  by (cases "fold (select_step s) [0..V F - 1] (0, - 1)") (simp, smt (verit))

theorem most_constrained_var_spec_witness:
  "most_constrained_var chain_cnf (init_solver chain_cnf) = 0 \<and>
   0 < score (init_solver chain_cnf) 0 \<and>
   score (init_solver chain_cnf) 1 \<le> score (init_solver chain_cnf) 0"
  using most_constrained_var_spec [of chain_cnf "init_solver chain_cnf"] chain_select
  by simp


section \<open>Case analysis of the driver\<close>

lemma try_valueE:
  assumes "try_value rec F v sign l s = Some y"
  obtains (conflict) s1 where "assign F v sign s = (False, s1)" "y = (False, s1)"
  | (propagation) s1 s2 where "assign F v sign s = (True, s1)"
      "do_unit_propagations F (npropped_at s1 v) s1 = Some (False, s2)"
      "y = (False, unassign F v sign s2)"
  | (found) s1 s2 s3 where "assign F v sign s = (True, s1)"
      "do_unit_propagations F (npropped_at s1 v) s1 = Some (True, s2)"
      "rec (l + 1) s2 = Some (True, s3)" "y = (True, s3)"
  | (backtrack) s1 s2 s3 where "assign F v sign s = (True, s1)"
      "do_unit_propagations F (npropped_at s1 v) s1 = Some (True, s2)"
      "rec (l + 1) s2 = Some (False, s3)"
      "y = (False, unassign F v sign
             (undo_unit_propagations F (npropped_at s3 v) (npropped s3) s3))"
  using assms unfolding try_value_def
  by (auto split: prod.splits bool.splits option.splits)

lemma most_constrained_var_unset:
  assumes "0 \<le> V F" "most_constrained_var F s \<noteq> - 1"
  shows "0 \<le> most_constrained_var F s" "most_constrained_var F s < V F"
    "assn s (most_constrained_var F s) = 0"
  using select_fold [OF assms(1), of s] assms(2)
  unfolding most_constrained_var_def select_inv_def
  by (cases "fold (select_step s) [0..V F - 1] (0, - 1)"; simp)+

section \<open>Well-formedness of the examples\<close>

lemma branch_cnf_wf: "wf_formula branch_cnf"
  by code_simp

lemma chain_cnf_wf: "wf_formula chain_cnf"
  by code_simp

end
