(* ===== verification/Soundness.thy ===== *)
theory Soundness
  imports Propagation_Contract Search
begin

text \<open>
  The search (\<open>src/sat.cpp\<close>, \<open>try_value\<close> lines 258-270 and \<open>dfs\<close> lines
  315-353). From the contracts of \<open>assign\<close> and \<open>do_unit_propagations\<close> this
  theory derives the contract of \<open>dfs\<close> by induction on the fuel: a call
  that returns true ends in a state with the assignment invariant and no
  unsatisfied clause, and a call that returns false ends in a state with the
  values it started from. It then shows that a satisfying answer is right,
  that the fuel \<open>V + 1\<close> is enough for any well-formed formula, and that more
  fuel does not change the answer.
\<close>

section \<open>The postcondition of the search\<close>

text \<open>
  \<open>dfs_post F s y\<close> is what a call from state \<open>s\<close> with result \<open>y\<close> promises.
  \<open>printed_model xs\<close> reads the lines \<open>i 1\<close> and \<open>i 0\<close> the program prints as
  an assignment, true for 1 and false for 0.
\<close>

definition dfs_post :: "formula \<Rightarrow> solver \<Rightarrow> bool \<times> solver \<Rightarrow> bool" where
  "dfs_post F s y \<longleftrightarrow>
     (if fst y then assignment_inv F (snd y) \<and> nunsat (snd y) = 0 else restored F s (snd y))"

definition printed_model :: "(int \<times> int) list \<Rightarrow> int array" where
  "printed_model xs i = (if (i + 1, 1) \<in> set xs then 1 else - 1)"

section \<open>One value of a variable\<close>

lemma try_value_contract:
  assumes wf: "wf_formula F" "0 \<le> v" "v < V F" and inv: "assignment_inv F s"
    and unset: "assn s v = 0" and sign: "sign = 1 \<or> sign = - 1"
    and npat: "npropped_at s v = npropped s"
    and rec_ok: "\<forall>l' t y. assignment_inv F t \<longrightarrow> rec l' t = Some y \<longrightarrow> dfs_post F t y"
    and run: "try_value rec F v sign l s = Some y"
  shows "dfs_post F s y \<and> (fst (assign F v sign s) \<longrightarrow> \<not> fst y \<longrightarrow>
           npropped (snd y) = npropped s \<and> npropped_at (snd y) v = npropped_at s v)"
proof -
  from sign have s0: "sign \<noteq> 0" by auto
  note fin = final_unassign [OF wf inv unset s0]
  from run show ?thesis
  proof (cases rule: try_valueE)
    case (conflict s1)
    with assign_False_restored [OF wf inv s0, of s1] show ?thesis
      by (simp add: dfs_post_def)
  next
    case (propagation s1 s2)
    from decision_propagated [OF wf inv unset sign npat propagation(1,2)]
    have "rewound F s1 (npropped s) s2" by simp
    with fin [OF propagation(1)] propagation(3) show ?thesis
      by (simp add: dfs_post_def)
  next
    case (found s1 s2 s3)
    from decision_propagated [OF wf inv unset sign npat found(1,2)]
    have "assignment_inv F s2" by (simp add: batch_def)
    from rec_ok [rule_format, OF this found(3)] found(4) show ?thesis
      by (simp add: dfs_post_def)
  next
    case (backtrack s1 s2 s3)
    note d = decision_propagated [OF wf inv unset sign npat backtrack(1,2)]
    from d(3) have b2: "batch F s1 (npropped s) (npropped s2) s2" by simp
    then have "assignment_inv F s2" by (simp add: batch_def)
    from rec_ok [rule_format, OF this backtrack(3)] have res: "restored F s2 s3"
      by (simp add: dfs_post_def)
    from batch_kept_var [OF b2 res d(2)] d(1) have "npropped_at s3 v = npropped s" by simp
    with fin [OF backtrack(1) rewound_after_failure [OF wf(1)
          decision_batch(1) [OF wf inv unset sign backtrack(1)] b2 res]] backtrack(4)
    show ?thesis by (simp add: dfs_post_def)
  qed
qed

text \<open>
  The state in which \<open>dfs\<close> tries the first value of the variable it chose,
  and the state in which it tries the second one after the first failed with
  the variable in the conflict set.
\<close>

lemma first_try_ready:
  assumes inv: "assignment_inv F s" and unset: "assn s v = 0"
  defines "sA \<equiv> clear_conflict v (s\<lparr>npropped_at := (npropped_at s)(v := npropped s)\<rparr>)"
  shows "restored F s sA" "assignment_inv F sA" "assn sA v = 0" "npropped_at sA v = npropped sA"
  using prologue_restored [OF inv unset, of "npropped s"]
    restored_inv [OF prologue_restored [OF inv unset, of "npropped s"]] unset
  by (simp_all add: sA_def)

lemma second_try_ready:
  assumes wf: "wf_formula F" "0 \<le> v" "v < V F" and inv: "assignment_inv F s"
    and unset: "assn s v = 0" and sign: "sign = 1 \<or> sign = - 1"
    and npat: "npropped_at s v = npropped s"
    and rec: "\<forall>l' t y. assignment_inv F t \<longrightarrow> rec l' t = Some y \<longrightarrow> dfs_post F t y"
    and run: "try_value rec F v sign l s = Some y" and fail: "\<not> fst y"
    and inc: "in_conflict_set v (snd y)"
  defines "sB \<equiv> augment_conflict v (snd y)"
  shows "restored F s sB" "assignment_inv F sB" "assn sB v = 0" "npropped_at sB v = npropped sB"
proof -
  note c = try_value_contract [OF wf inv unset sign npat rec run]
  with fail have r: "restored F s (snd y)" by (simp add: dfs_post_def)
  have ok: "fst (assign F v sign s)"
  proof (rule ccontr)
    assume "\<not> fst (assign F v sign s)"
    then obtain t where t: "assign F v sign s = (False, t)"
      by (cases "assign F v sign s") auto
    from try_value_assign_False [OF t] run have "snd y = t" by auto
    with assign_False_in_conflict [OF t] inc show False by simp
  qed
  from r show "restored F s sB" by (simp add: sB_def)
  from c ok fail npat restored_assn [OF r] unset restored_inv [OF r]
  show "assignment_inv F sB" "assn sB v = 0" "npropped_at sB v = npropped sB"
    by (simp_all add: sB_def)
qed

section \<open>The recursion\<close>

lemma dfs_step:
  assumes wf: "wf_formula F" and inv: "assignment_inv F s"
    and rec: "\<forall>l' t y. assignment_inv F t \<longrightarrow> dfs n F l' t = Some y \<longrightarrow> dfs_post F t y"
    and run: "dfs (Suc n) F l s = Some y"
  shows "dfs_post F s y"
proof (cases "nunsat s = 0 \<or> most_constrained_var F s = - 1")
  case True
  with run inv show ?thesis
    by (auto simp: dfs_post_def restored_refl Let_def split: if_splits)
next
  case False
  let ?v = "most_constrained_var F s"
  let ?first = "if npos_app s ?v > nneg_app s ?v then 1 else - 1 :: int"
  let ?second = "if npos_app s ?v > nneg_app s ?v then - 1 else 1 :: int"
  let ?sA = "clear_conflict ?v (s\<lparr>npropped_at := (npropped_at s)(?v := npropped s)\<rparr>)"
  from False have nz: "nunsat s \<noteq> 0" "?v \<noteq> - 1" by simp_all
  note v = most_constrained_var_unset [OF wf_V [OF wf] nz(2)]
  note A = first_try_ready [OF inv v(3)]
  from run nz obtain y1 where y1: "try_value (dfs n F) F ?v ?first l ?sA = Some y1"
    by (auto simp: Let_def split: option.splits)
  have sg: "?first = 1 \<or> ?first = - 1" "?second = 1 \<or> ?second = - 1" by simp_all
  note c1 = try_value_contract [OF wf v(1,2) A(2,3) sg(1) A(4) rec y1]
  show ?thesis
  proof (cases "fst y1 \<or> \<not> in_conflict_set ?v (snd y1)")
    case True
    with run nz y1 have "y = y1" by (cases y1) (auto simp: Let_def split: bool.splits)
    with c1 restored_trans [OF A(1)] show ?thesis by (auto simp: dfs_post_def)
  next
    case False
    let ?sB = "augment_conflict ?v (snd y1)"
    from run nz y1 False have y2: "try_value (dfs n F) F ?v ?second l ?sB = Some y"
      by (cases y1) (auto simp: Let_def)
    from False have f: "\<not> fst y1" "in_conflict_set ?v (snd y1)" by simp_all
    note B = second_try_ready [OF wf v(1,2) A(2,3) sg(1) A(4) rec y1 f]
    note c2 = try_value_contract [OF wf v(1,2) B(2,3) sg(2) B(4) rec y2]
    with restored_trans [OF restored_trans [OF A(1) B(1)]] show ?thesis
      by (auto simp: dfs_post_def)
  qed
qed

lemma dfs_contract:
  assumes "wf_formula F"
  shows "assignment_inv F s \<Longrightarrow> dfs n F l s = Some y \<Longrightarrow> dfs_post F s y"
proof (induction n arbitrary: l s y)
  case 0
  then show ?case by simp
next
  case (Suc n)
  then have "\<forall>l' t y. assignment_inv F t \<longrightarrow> dfs n F l' t = Some y \<longrightarrow> dfs_post F t y"
    by blast
  from dfs_step [OF assms Suc.prems(1) this Suc.prems(2)] show ?case .
qed

section \<open>The search returns\<close>

lemma try_value_returns:
  assumes wf: "wf_formula F" "0 \<le> v" "v < V F" and inv: "assignment_inv F s"
    and unset: "assn s v = 0" and sign: "sign = 1 \<or> sign = - 1"
    and npat: "npropped_at s v = npropped s"
    and rec: "\<forall>l' t. assignment_inv F t \<longrightarrow> zeros (V F) (assn t) < zeros (V F) (assn s) \<longrightarrow>
                (\<exists>y. rec l' t = Some y)"
  shows "\<exists>y. try_value rec F v sign l s = Some y"
proof -
  obtain ok s1 where a: "assign F v sign s = (ok, s1)" by (cases "assign F v sign s")
  show ?thesis
  proof (cases ok)
    case False
    with a show ?thesis by (auto simp: try_value_def)
  next
    case True
    with a have a1: "assign F v sign s = (True, s1)" by simp
    note d = decision_batch [OF wf inv unset sign a1]
    from assign_loop_True_frame [OF assign_True_loop [OF a1 unset]] npat
    have n1: "npropped_at s1 v = npropped s" by simp
    from loop_terminates [OF wf(1) fresh_queue_valid [OF d(3)], of "npropped s"]
    obtain ok2 s2 where p: "do_unit_propagations F (npropped s) s1 = Some (ok2, s2)"
      by (auto simp: do_unit_propagations_def)
    show ?thesis
    proof (cases ok2)
      case False
      with a1 n1 p show ?thesis by (auto simp: try_value_def)
    next
      case True
      with p have p': "do_unit_propagations F (npropped s) s1 = Some (True, s2)" by simp
      from decision_progress [OF wf inv unset sign a1 p'] rec
      obtain q where "rec (l + 1) s2 = Some q" by blast
      with a1 n1 p' show ?thesis
        by (cases q) (auto simp: try_value_def split: bool.splits)
    qed
  qed
qed

lemma dfs_returns_step:
  assumes wf: "wf_formula F" and inv: "assignment_inv F s"
    and ok: "\<forall>l' t y. assignment_inv F t \<longrightarrow> dfs n F l' t = Some y \<longrightarrow> dfs_post F t y"
    and rec: "\<forall>l' t. assignment_inv F t \<longrightarrow> zeros (V F) (assn t) < zeros (V F) (assn s) \<longrightarrow>
                (\<exists>y. dfs n F l' t = Some y)"
  shows "\<exists>y. dfs (Suc n) F l s = Some y"
proof (cases "nunsat s = 0 \<or> most_constrained_var F s = - 1")
  case True
  then show ?thesis by (auto simp: Let_def)
next
  case False
  let ?v = "most_constrained_var F s"
  let ?first = "if npos_app s ?v > nneg_app s ?v then 1 else - 1 :: int"
  let ?second = "if npos_app s ?v > nneg_app s ?v then - 1 else 1 :: int"
  let ?sA = "clear_conflict ?v (s\<lparr>npropped_at := (npropped_at s)(?v := npropped s)\<rparr>)"
  from False have nz: "nunsat s \<noteq> 0" "?v \<noteq> - 1" by simp_all
  note v = most_constrained_var_unset [OF wf_V [OF wf] nz(2)]
  note A = first_try_ready [OF inv v(3)]
  have sg: "?first = 1 \<or> ?first = - 1" "?second = 1 \<or> ?second = - 1" by simp_all
  from rec have recA: "\<forall>l' t. assignment_inv F t \<longrightarrow>
      zeros (V F) (assn t) < zeros (V F) (assn ?sA) \<longrightarrow> (\<exists>y. dfs n F l' t = Some y)"
    by simp
  from try_value_returns [OF wf v(1,2) A(2,3) sg(1) A(4) recA]
  obtain y1 where y1: "try_value (dfs n F) F ?v ?first l ?sA = Some y1" by blast
  show ?thesis
  proof (cases "fst y1 \<or> \<not> in_conflict_set ?v (snd y1)")
    case True
    with nz y1 show ?thesis by (cases y1) (auto simp: Let_def split: bool.splits)
  next
    case False
    let ?sB = "augment_conflict ?v (snd y1)"
    from False have f: "\<not> fst y1" "in_conflict_set ?v (snd y1)" by simp_all
    note B = second_try_ready [OF wf v(1,2) A(2,3) sg(1) A(4) ok y1 f]
    from rec restored_assn [OF B(1)] have recB: "\<forall>l' t. assignment_inv F t \<longrightarrow>
        zeros (V F) (assn t) < zeros (V F) (assn ?sB) \<longrightarrow> (\<exists>y. dfs n F l' t = Some y)"
      by simp
    from try_value_returns [OF wf v(1,2) B(2,3) sg(2) B(4) recB]
    obtain y2 where "try_value (dfs n F) F ?v ?second l ?sB = Some y2" by blast
    with nz y1 f show ?thesis by (cases y1) (auto simp: Let_def)
  qed
qed

lemma dfs_returns_aux:
  assumes wf: "wf_formula F"
  shows "assignment_inv F s \<Longrightarrow> zeros (V F) (assn s) < int n \<Longrightarrow> \<exists>y. dfs n F l s = Some y"
proof (induction n arbitrary: l s)
  case 0
  then show ?case using zeros_nonneg [of "V F" "assn s"] by simp
next
  case (Suc n)
  have ok: "\<forall>l' t y. assignment_inv F t \<longrightarrow> dfs n F l' t = Some y \<longrightarrow> dfs_post F t y"
    using dfs_contract [OF wf] by blast
  from Suc have "\<forall>l' t. assignment_inv F t \<longrightarrow> zeros (V F) (assn t) < zeros (V F) (assn s) \<longrightarrow>
      (\<exists>y. dfs n F l' t = Some y)"
    by (metis add_diff_cancel_left' less_le_trans of_nat_Suc zle_diff1_eq add.commute)
  from dfs_returns_step [OF wf Suc.prems(1) ok this] show ?case .
qed

section \<open>More fuel\<close>

lemma try_value_mono:
  assumes rec: "\<And>l' t y. rec l' t = Some y \<Longrightarrow> rec' l' t = Some y"
    and run: "try_value rec F v sign l s = Some y"
  shows "try_value rec' F v sign l s = Some y"
  using run
  by (cases rule: try_valueE) (simp_all add: try_value_def rec)

lemma dfs_mono_Suc: "dfs n F l s = Some y \<Longrightarrow> dfs (Suc n) F l s = Some y"
proof (induction n arbitrary: l s y)
  case 0
  then show ?case by simp
next
  case (Suc n)
  note mono = try_value_mono [of "dfs n F" "dfs (Suc n) F", OF Suc.IH]
  from Suc.prems show ?case
    by (auto simp: Let_def mono split: if_splits option.splits bool.splits)
qed

lemma dfs_mono: "dfs n F l s = Some y \<Longrightarrow> n \<le> m \<Longrightarrow> dfs m F l s = Some y"
proof (induction m)
  case 0
  then show ?case by simp
next
  case (Suc m)
  show ?case
  proof (cases "n = Suc m")
    case True
    with Suc.prems show ?thesis by simp
  next
    case False
    with Suc.prems have "n \<le> m" by simp
    from dfs_mono_Suc [OF Suc.IH [OF Suc.prems(1) this]] show ?thesis .
  qed
qed

section \<open>The printed assignment\<close>

lemma printed_model_print:
  "0 \<le> i \<Longrightarrow> i < V F \<Longrightarrow>
     printed_model (print_assignment F s) i = (if assn s i > 0 then 1 else - 1)"
  by (auto simp: printed_model_def print_assignment_def image_iff split: if_splits)

lemma printed_model_sat:
  assumes wf: "wf_formula F" and sat: "formula_sat F (assn s)"
  shows "formula_sat F (printed_model (print_assignment F s))"
  unfolding formula_sat_def all_below_iff clause_sat_def
proof (intro allI impI)
  fix c assume c: "0 \<le> c \<and> c < C F"
  with sat obtain l where l: "l \<in> set (clauses F c)" "lit_true (assn s) l"
    by (auto simp: formula_sat_def all_below_iff clause_sat_def)
  from wf_lit [OF wf _ _ l(1)] c have "0 \<le> varid l" "varid l < V F" by simp_all
  with l(2) have "lit_true (printed_model (print_assignment F s)) l"
    by (auto simp: lit_true_def printed_model_print zero_less_mult_iff split: if_splits)
  with l(1) show "\<exists>l\<in>set (clauses F c). lit_true (printed_model (print_assignment F s)) l" ..
qed

section \<open>The answers of solve\<close>

lemma solve_total:
  assumes "wf_formula F"
  shows "\<exists>r. solve (nat (V F) + 1) F = Some r"
proof -
  from zeros_le [OF wf_V [OF assms], of "assn (init_solver F)"] wf_V [OF assms]
  have "zeros (V F) (assn (init_solver F)) < int (nat (V F) + 1)" by simp
  from dfs_returns_aux [OF assms init_assignment_inv [OF wf_C [OF assms]] this, of 0]
  show ?thesis by (auto simp: solve_def split: bool.splits)
qed

lemma solve_model:
  assumes "wf_formula F" "solve n F = Some (SAT xs)"
  shows "formula_sat F (printed_model xs)"
proof -
  from assms(2) obtain s where run: "dfs n F 0 (init_solver F) = Some (True, s)"
    and xs: "xs = print_assignment F s"
    by (auto simp: solve_def split: option.splits bool.splits)
  from dfs_contract [OF assms(1) init_assignment_inv [OF wf_C [OF assms(1)]] run]
  have "formula_sat F (assn s)"
    using inv_nunsat_zero [OF wf_C [OF assms(1)], of s] by (simp add: dfs_post_def)
  with xs printed_model_sat [OF assms(1)] show ?thesis by simp
qed

section \<open>Runs on the examples\<close>

lemma branch_run:
  "dfs 3 branch_cnf 0 (init_solver branch_cnf) \<noteq> None"
  "fst (the (dfs 3 branch_cnf 0 (init_solver branch_cnf)))"
  by code_simp+

lemma chain_run:
  "dfs 4 chain_cnf 0 (init_solver chain_cnf) \<noteq> None"
  "\<not> fst (the (dfs 4 chain_cnf 0 (init_solver chain_cnf)))"
  by code_simp+

lemma clash_try:
  "try_value (dfs 2 clash_cnf) clash_cnf 0 1 0 clash_start \<noteq> None"
  "\<not> fst (the (try_value (dfs 2 clash_cnf) clash_cnf 0 1 0 clash_start))"
  by code_simp+

section \<open>Correctness of the search\<close>

text \<open>
  C1 (a satisfying answer is right): when \<open>dfs\<close> returns true from a state
  that satisfies the assignment invariant, on a well-formed formula, the
  values \<open>assn\<close> of the state it returns make every clause true.
\<close>

theorem dfs_sound:
  assumes "wf_formula F" "assignment_inv F s" "dfs n F l s = Some (True, s')"
  shows "formula_sat F (assn s')"
  using dfs_contract [OF assms] inv_nunsat_zero [OF wf_C [OF assms(1)], of s']
  by (simp add: dfs_post_def)

theorem dfs_sound_witness:
  "formula_sat branch_cnf (assn (snd (the (dfs 3 branch_cnf 0 (init_solver branch_cnf)))))"
  using dfs_sound [of branch_cnf "init_solver branch_cnf" 3 0
      "snd (the (dfs 3 branch_cnf 0 (init_solver branch_cnf)))"]
    branch_cnf_wf init_assignment_inv [OF wf_C [OF branch_cnf_wf]] branch_run
  by (auto simp: prod_eq_iff)

text \<open>
  C5 (a failed search leaves the values it found): when \<open>dfs\<close> returns false
  from a state that satisfies the assignment invariant, on a well-formed
  formula, the values \<open>assn\<close> are the ones of the state it started from and the
  state it returns satisfies the assignment invariant.
\<close>

theorem dfs_failure_restores:
  assumes "wf_formula F" "assignment_inv F s" "dfs n F l s = Some (False, s')"
  shows "assn s' = assn s \<and> assignment_inv F s'"
  using dfs_contract [OF assms] by (simp add: dfs_post_def restored_def)

theorem dfs_failure_restores_witness:
  "assn (snd (the (dfs 4 chain_cnf 0 (init_solver chain_cnf)))) = assn (init_solver chain_cnf) \<and>
   assignment_inv chain_cnf (snd (the (dfs 4 chain_cnf 0 (init_solver chain_cnf))))"
  using dfs_failure_restores [of chain_cnf "init_solver chain_cnf" 4 0
      "snd (the (dfs 4 chain_cnf 0 (init_solver chain_cnf)))"]
    chain_cnf_wf init_assignment_inv [OF wf_C [OF chain_cnf_wf]] chain_run
  by (auto simp: prod_eq_iff)

text \<open>
  C3 (the search returns): from a state that satisfies the assignment
  invariant, on a well-formed formula, \<open>dfs\<close> with more fuel than there are
  unset variables returns: every recursive call is made with at least one
  variable more set, and every batch of unit propagations ends.
\<close>

theorem dfs_returns:
  assumes "wf_formula F" "assignment_inv F s" "zeros (V F) (assn s) < int n"
  shows "\<exists>y. dfs n F l s = Some y"
  using dfs_returns_aux [OF assms] .

theorem dfs_returns_witness:
  "\<exists>y. dfs 4 chain_cnf 0 (init_solver chain_cnf) = Some y"
  using dfs_returns [of chain_cnf "init_solver chain_cnf" 4 0]
    chain_cnf_wf init_assignment_inv [OF wf_C [OF chain_cnf_wf]]
  by (simp add: init_solver_simps)

text \<open>
  C18 (a failed \<open>try_value\<close> leaves the values it found): when \<open>try_value\<close>
  for an unset variable whose queue mark is the queue length returns false,
  whether \<open>assign\<close>, the unit propagations or the recursive search failed, the
  values \<open>assn\<close> are the ones before the call and the assignment invariant
  holds.
\<close>

theorem try_value_failure_restores:
  assumes wf: "wf_formula F" "0 \<le> v" "v < V F" and inv: "assignment_inv F s"
    and unset: "assn s v = 0" and sign: "sign = 1 \<or> sign = - 1"
    and npat: "npropped_at s v = npropped s"
    and run: "try_value (dfs n F) F v sign l s = Some (False, s')"
  shows "assn s' = assn s \<and> assignment_inv F s'"
proof -
  have "\<forall>l' t y. assignment_inv F t \<longrightarrow> dfs n F l' t = Some y \<longrightarrow> dfs_post F t y"
    using dfs_contract [OF wf(1)] by blast
  from try_value_contract [OF wf inv unset sign npat this run] show ?thesis
    by (simp add: dfs_post_def restored_def)
qed

theorem try_value_failure_restores_witness:
  "assn (snd (the (try_value (dfs 2 clash_cnf) clash_cnf 0 1 0 clash_start))) = assn clash_start \<and>
   assignment_inv clash_cnf (snd (the (try_value (dfs 2 clash_cnf) clash_cnf 0 1 0 clash_start)))"
  using try_value_failure_restores [of clash_cnf 0 clash_start 1 2 0
      "snd (the (try_value (dfs 2 clash_cnf) clash_cnf 0 1 0 clash_start))"]
    clash_cnf_wf clash_start_inv clash_try
  by (auto simp: prod_eq_iff)

section \<open>An answer that is wrong\<close>

lemma chain_satisfiable: "formula_sat chain_cnf (\<lambda>_. 1)"
  by code_simp

lemma chain_unit: "clauses chain_cnf 0 = [1]"
  by (simp add: mk_formula_def)

lemma unit_clause_assign_fails:
  assumes wf: "wf_formula F" and c: "0 \<le> c" "c < C F" "clauses F c = [l]"
    and s: "assn s (varid l) = 0" "satisfier s c = 0" "rem s c = 1"
    and dis: "\<not> 0 < l * sign"
  shows "\<not> fst (assign F (varid l) sign s)"
proof -
  let ?v = "varid l"
  from wf_lit [OF wf c(1,2), of l] c(3) have v: "0 \<le> ?v" "?v < V F" by simp_all
  from wf_app_count [OF wf v, of c] c
  have cnt: "count_where (\<lambda>a. varid a = c) (appearances F ?v) = 1" by simp
  from dis c(3) have "\<not> agrees sign c (appearances F ?v)"
    by (simp add: agrees_iff_lit [OF wf v c(1,2)])
  from assign_loop_conflict [of c "appearances F ?v" "s\<lparr>assn := (assn s)(?v := sign)\<rparr>" sign F ?v 0]
    cnt this s
  show ?thesis by (simp add: assign_def)
qed

text \<open>
  C9 (a unit clause against the first decision): on a well-formed formula
  that has a unit clause whose variable is the first one selected, when the
  first value tried for it makes the literal of the clause false, the program
  answers \<open>UNSAT\<close> at every search depth, whatever the other clauses are:
  \<open>assign\<close> fails on the unit clause, \<open>backprop_conflict\<close> leaves
  \<open>in_conflict[v]\<close> empty, and \<open>dfs\<close> returns without trying the other value.
  The formula of the witness is satisfied by setting every variable to true.
\<close>

theorem unit_clause_reported_unsat:
  assumes wf: "wf_formula F" and c: "0 \<le> c" "c < C F" "clauses F c = [l]"
    and v: "most_constrained_var F (init_solver F) = varid l"
    and dis: "\<not> 0 < l * (if npos_app (init_solver F) (varid l) > nneg_app (init_solver F) (varid l)
                          then 1 else - 1)"
  shows "solve (Suc n) F = Some UNSAT"
proof -
  let ?s = "init_solver F" and ?v = "varid l"
  let ?first = "if npos_app ?s ?v > nneg_app ?s ?v then 1 else - 1 :: int"
  let ?sA = "clear_conflict ?v (?s\<lparr>npropped_at := (npropped_at ?s)(?v := npropped ?s)\<rparr>)"
  from wf_lit [OF wf c(1,2), of l] c(3) have v0: "0 \<le> ?v" by simp
  from c have "\<not> fst (assign F ?v ?first ?sA)"
    by (intro unit_clause_assign_fails [OF wf c _ _ _ dis]) (simp_all add: csizes_def)
  then obtain s' where "assign F ?v ?first ?sA = (False, s')"
    by (cases "assign F ?v ?first ?sA") auto
  with v v0 c have "dfs (Suc n) F 0 ?s = Some (False, s')"
    by (simp add: Let_def try_value_assign_False assign_False_in_conflict)
  then show ?thesis by (simp add: solve_def)
qed

theorem unit_clause_reported_unsat_witness:
  "solve 4 chain_cnf = Some UNSAT \<and> formula_sat chain_cnf (\<lambda>_. 1)"
  using unit_clause_reported_unsat [of chain_cnf 0 1 3] chain_cnf_wf chain_select chain_sign
    chain_satisfiable chain_unit
  by (simp add: numeral_eq_Suc)

end
