(* ===== verification/Text_IO.thy ===== *)
theory Text_IO
  imports Main
begin

text \<open>
  The text interface of \<open>src/sat.cpp\<close>: what \<open>scanf\<close> reads and \<open>printf\<close>
  writes. The C library is not part of the sources, so that the conversions
  \<open>%d\<close> of the two functions are modelled from their specification: \<open>printf\<close>
  writes a decimal numeral with a minus sign for a negative number, and
  \<open>scanf\<close> skips white space, reads an optional sign and the longest run of
  digits, and fails when there is none. Integers are unbounded here; a
  numeral outside the range of \<open>int\<close> has no defined conversion in C.
  Standard input and the output streams are strings.
\<close>

section \<open>Characters\<close>

definition digit_char :: "nat \<Rightarrow> char" where
  "digit_char d = char_of (48 + d)"

definition digit_val :: "char \<Rightarrow> nat" where
  "digit_val c = of_char c - 48"

definition is_digit :: "char \<Rightarrow> bool" where
  "is_digit c \<longleftrightarrow> 48 \<le> (of_char c :: nat) \<and> (of_char c :: nat) \<le> 57"

definition is_space :: "char \<Rightarrow> bool" where
  "is_space c \<longleftrightarrow> (of_char c :: nat) = 32 \<or> (9 \<le> (of_char c :: nat) \<and> (of_char c :: nat) \<le> 13)"

definition newline :: char where
  "newline = CHR 0x0A"

section \<open>printf of an integer\<close>

fun show_nat :: "nat \<Rightarrow> string" where
  "show_nat n = (if n < 10 then [digit_char n] else show_nat (n div 10) @ [digit_char (n mod 10)])"

definition show_int :: "int \<Rightarrow> string" where
  "show_int i = (if i < 0 then CHR ''-'' # show_nat (nat (- i)) else show_nat (nat i))"

section \<open>scanf of an integer\<close>

text \<open>
  \<open>scan_int\<close> is one \<open>scanf("%d", &v)\<close>: the value and the rest of the input,
  or \<open>None\<close> when the conversion fails. \<open>scan_ints\<close> is the sequence of values
  that repeated calls read, up to the first failure. \<open>delimited r\<close>: the text
  \<open>r\<close> does not start with a digit.
\<close>

definition skip_ws :: "string \<Rightarrow> string" where
  "skip_ws = dropWhile is_space"

definition digits_val :: "string \<Rightarrow> nat" where
  "digits_val ds = foldl (\<lambda>a c. 10 * a + digit_val c) 0 ds"

definition scan_nat :: "string \<Rightarrow> (nat \<times> string) option" where
  "scan_nat cs =
     (if takeWhile is_digit cs = [] then None
      else Some (digits_val (takeWhile is_digit cs), dropWhile is_digit cs))"

definition scan_int :: "string \<Rightarrow> (int \<times> string) option" where
  "scan_int cs =
     (case skip_ws cs of
        [] \<Rightarrow> None
      | c # r \<Rightarrow>
          if c = CHR ''-'' then map_option (\<lambda>(n, r'). (- int n, r')) (scan_nat r)
          else if c = CHR ''+'' then map_option (\<lambda>(n, r'). (int n, r')) (scan_nat r)
          else map_option (\<lambda>(n, r'). (int n, r')) (scan_nat (c # r)))"

definition delimited :: "string \<Rightarrow> bool" where
  "delimited r \<longleftrightarrow> (case r of [] \<Rightarrow> True | c # _ \<Rightarrow> \<not> is_digit c)"

section \<open>Digits\<close>

declare show_nat.simps [simp del]

lemma digit_char_val [simp]: "d < 10 \<Longrightarrow> digit_val (digit_char d) = d"
  by (simp add: digit_val_def digit_char_def)

lemma is_digit_digit_char [simp]: "d < 10 \<Longrightarrow> is_digit (digit_char d)"
  by (simp add: is_digit_def digit_char_def)

lemma not_space_digit: "is_digit c \<Longrightarrow> \<not> is_space c"
  by (auto simp: is_digit_def is_space_def)

lemma show_nat_digits: "list_all is_digit (show_nat n)"
  by (induction n rule: show_nat.induct) (subst show_nat.simps, simp)

lemma show_nat_nonempty [simp]: "show_nat n \<noteq> []"
  by (subst show_nat.simps) simp

lemma digits_val_snoc [simp]: "digits_val (ds @ [c]) = 10 * digits_val ds + digit_val c"
  by (simp add: digits_val_def)

lemma digits_val_show_nat [simp]: "digits_val (show_nat n) = n"
proof (induction n rule: show_nat.induct)
  case (1 n)
  show ?case
  proof (cases "n < 10")
    case True
    then show ?thesis by (subst show_nat.simps) (simp add: digits_val_def)
  next
    case False
    with 1 show ?thesis by (subst show_nat.simps) simp
  qed
qed

lemma show_nat_hd: "show_nat n = c # cs \<Longrightarrow> is_digit c"
  using show_nat_digits [of n] by simp

lemma digit_not_sign: "is_digit c \<Longrightarrow> c \<noteq> CHR ''-'' \<and> c \<noteq> CHR ''+''"
  by (auto simp: is_digit_def)

lemma show_int_0: "show_int 0 = ''0''"
  by code_simp

section \<open>Reading back what was printed\<close>

lemma takeWhile_digits:
  assumes "list_all is_digit ds" "delimited r"
  shows "takeWhile is_digit (ds @ r) = ds" "dropWhile is_digit (ds @ r) = r"
  using assms
  by (induction ds) (auto simp: delimited_def takeWhile_eq_Nil_iff dropWhile_eq_self_iff
      split: list.splits)

lemma scan_nat_show_nat: "delimited r \<Longrightarrow> scan_nat (show_nat n @ r) = Some (n, r)"
  by (simp add: scan_nat_def takeWhile_digits [OF show_nat_digits])

lemma skip_ws_show_nat [simp]: "skip_ws (show_nat n @ r) = show_nat n @ r"
  using show_nat_hd [of n] not_space_digit
  by (cases "show_nat n") (auto simp: skip_ws_def)

lemma delimited_simps [simp]:
  "delimited []" "delimited (CHR '' '' # r)" "delimited (newline # r)"
  by (simp_all add: delimited_def is_digit_def newline_def)

lemma is_space_simps [simp]: "is_space CHR '' ''" "is_space newline"
  by (simp_all add: is_space_def newline_def)

text \<open>
  Print and scan: \<open>scanf("%d")\<close> on the numeral that \<open>printf("%d")\<close>
  writes for an integer, followed by text that does not start with a digit,
  reads that integer and leaves the text.
\<close>

theorem scan_int_show_int:
  assumes "delimited r"
  shows "scan_int (show_int i @ r) = Some (i, r)"
proof (cases "i < 0")
  case True
  have "\<not> is_space CHR ''-''" by (simp add: is_space_def)
  with True scan_nat_show_nat [OF assms, of "nat (- i)"] show ?thesis
    by (simp add: scan_int_def show_int_def skip_ws_def)
next
  case False
  obtain c cs where c: "show_nat (nat i) = c # cs" by (cases "show_nat (nat i)") simp_all
  with show_nat_hd [OF c] digit_not_sign [of c] False scan_nat_show_nat [OF assms, of "nat i"]
    skip_ws_show_nat [of "nat i" r]
  show ?thesis by (simp add: scan_int_def show_int_def)
qed

theorem scan_int_show_int_witness:
  "scan_int (show_int (- 12) @ '' 0'') = Some (- 12, '' 0'')"
  using scan_int_show_int [of "'' 0''" "- 12"] by simp

section \<open>A scan consumes input\<close>

lemma scan_nat_shorter:
  assumes "scan_nat cs = Some (n, r)"
  shows "length r < length cs"
proof -
  from assms have "takeWhile is_digit cs \<noteq> []" "r = dropWhile is_digit cs"
    by (auto simp: scan_nat_def split: if_splits)
  moreover have "length cs = length (takeWhile is_digit cs) + length (dropWhile is_digit cs)"
    by (metis length_append takeWhile_dropWhile_id)
  ultimately show ?thesis by simp
qed

lemma scan_int_shorter:
  assumes "scan_int cs = Some (n, r)"
  shows "length r < length cs"
proof -
  have le: "length (skip_ws cs) \<le> length cs" by (simp add: skip_ws_def length_dropWhile_le)
  from assms obtain c t where t: "skip_ws cs = c # t"
    by (auto simp: scan_int_def split: list.splits)
  from assms t consider m where "scan_nat t = Some (m, r)" | m where "scan_nat (c # t) = Some (m, r)"
    by (auto simp: scan_int_def split: if_splits)
  then have "length r < length (c # t)"
  proof cases
    case 1
    with scan_nat_shorter [of t m r] show ?thesis by simp
  next
    case 2
    with scan_nat_shorter [of "c # t" m r] show ?thesis by simp
  qed
  with le t show ?thesis by simp
qed

lemma scan_int_ws [simp]: "is_space c \<Longrightarrow> scan_int (c # cs) = scan_int cs"
  by (simp add: scan_int_def skip_ws_def)

section \<open>The sequence of integers of a text\<close>

function scan_ints :: "string \<Rightarrow> int list" where
  "scan_ints cs = (case scan_int cs of None \<Rightarrow> [] | Some (n, r) \<Rightarrow> n # scan_ints r)"
  by pat_completeness auto
termination
  by (relation "measure length") (auto simp: scan_int_shorter)

declare scan_ints.simps [simp del]

lemma scan_ints_ws [simp]: "is_space c \<Longrightarrow> scan_ints (c # cs) = scan_ints cs"
  by (subst (1 2) scan_ints.simps) simp

lemma scan_ints_Nil [simp]: "scan_ints [] = []"
  by (subst scan_ints.simps) (simp add: scan_int_def skip_ws_def)

lemma scan_ints_show [simp]:
  "delimited r \<Longrightarrow> scan_ints (show_int i @ r) = i # scan_ints r"
  by (subst scan_ints.simps) (simp add: scan_int_show_int)

end
