(* ===== verification/Program.thy ===== *)
theory Program
  imports Soundness Text_IO
begin

text \<open>
  The program (\<open>src/sat.cpp\<close>, \<open>main\<close>, lines 355-489): the scan for the
  problem line, the header, the clauses, the search and the output.
  \<open>run_main n input\<close> is the outcome of the program on the standard input
  \<open>input\<close> with search depth \<open>n\<close>: \<open>None\<close> when the program does not end or
  leaves the behaviour C defines (no \<open>p\<close> in the input, a clause that ends
  with the input or overruns its row), \<open>Read_failed\<close> for the exit with the
  diagnostic, \<open>Answer\<close> for an exit after the search. The allocations are
  the arrays of the model, total functions, and \<open>free\<close> has no counterpart.
\<close>

section \<open>The input\<close>

text \<open>
  \<open>skip_to_p\<close> is the loop \<open>while(ch != 'p') scanf("%c", &ch)\<close>: when the
  input ends, \<open>scanf\<close> leaves \<open>ch\<close> as it is and the loop goes on for ever,
  which is the value \<open>None\<close>. \<open>scan_header\<close> is \<open>scanf(" cnf %d %d", &V, &C)\<close>
  with its test \<open>< 2\<close>: \<open>None\<close> when fewer than two numbers were read.
\<close>

fun skip_to_p :: "string \<Rightarrow> string option" where
  "skip_to_p [] = None"
| "skip_to_p (ch # cs) = (if ch = CHR ''p'' then Some cs else skip_to_p cs)"

definition match_lit :: "string \<Rightarrow> string \<Rightarrow> string option" where
  "match_lit p cs = (if take (length p) cs = p then Some (drop (length p) cs) else None)"

definition scan_header :: "string \<Rightarrow> (int \<times> int \<times> string) option" where
  "scan_header cs =
     (case match_lit ''cnf'' (skip_ws cs) of
        None \<Rightarrow> None
      | Some r \<Rightarrow>
          (case scan_int r of
             None \<Rightarrow> None
           | Some (nv, r1) \<Rightarrow>
               (case scan_int r1 of
                  None \<Rightarrow> None
                | Some (nc, r2) \<Rightarrow> Some (nv, nc, r2))))"

section \<open>The outcome\<close>

datatype outcome = Read_failed | Answer result

definition run_main :: "nat \<Rightarrow> string \<Rightarrow> outcome option" where
  "run_main n input =
     (case skip_to_p input of
        None \<Rightarrow> None
      | Some r \<Rightarrow>
          (case scan_header r of
             None \<Rightarrow> Some Read_failed
           | Some (nv, nc, r') \<Rightarrow>
               (case load nv nc (scan_ints r') of
                  None \<Rightarrow> None
                | Some F \<Rightarrow> map_option Answer (solve n F))))"

fun exit_code :: "outcome \<Rightarrow> int" where
  "exit_code Read_failed = 1"
| "exit_code (Answer r) = 0"

fun stderr_text :: "outcome \<Rightarrow> string" where
  "stderr_text Read_failed = ''Failed to read input'' @ [newline]"
| "stderr_text (Answer r) = []"

fun stdout_text :: "outcome \<Rightarrow> string" where
  "stdout_text Read_failed = []"
| "stdout_text (Answer UNSAT) = ''UNSAT'' @ [newline]"
| "stdout_text (Answer (SAT xs)) =
     concat (map (\<lambda>(i, b). show_int i @ '' '' @ show_int b @ [newline]) xs)"

section \<open>The text of a problem\<close>

text \<open>
  \<open>dimacs_text nv cs\<close> is a DIMACS text of the clauses \<open>cs\<close> over \<open>nv\<close>
  variables: the problem line, then one line per clause. \<open>valid_problem\<close>:
  the literals are non-zero and name variables up to \<open>nv\<close>, and no clause is
  longer than a row of \<open>clauses\<close>.
\<close>

definition clause_text :: "int list \<Rightarrow> string" where
  "clause_text ls = concat (map (\<lambda>l. show_int l @ '' '') ls) @ ''0'' @ [newline]"

definition dimacs_text :: "int \<Rightarrow> int list list \<Rightarrow> string" where
  "dimacs_text nv cs =
     ''p cnf '' @ show_int nv @ '' '' @ show_int (int (length cs)) @ [newline] @
     concat (map clause_text cs)"

definition valid_problem :: "int \<Rightarrow> int list list \<Rightarrow> bool" where
  "valid_problem nv cs \<longleftrightarrow>
     0 \<le> nv \<and> list_all (\<lambda>ls. list_all (\<lambda>l. l \<noteq> 0 \<and> \<bar>l\<bar> \<le> nv) ls \<and>
       length ls \<le> MAX_CLAUSE_SIZE) cs"

section \<open>Scanning the header\<close>

lemma skip_to_p_append:
  "CHR ''p'' \<notin> set pre \<Longrightarrow> skip_to_p (pre @ CHR ''p'' # r) = Some r"
  by (induction pre) auto

lemma skip_to_p_None: "skip_to_p cs = None \<longleftrightarrow> CHR ''p'' \<notin> set cs"
  by (induction cs) auto

lemma scan_header_text:
  "scan_header ('' cnf '' @ show_int nv @ '' '' @ show_int nc @ newline # r)
     = Some (nv, nc, newline # r)"
proof -
  have "scan_int ('' '' @ show_int nv @ '' '' @ show_int nc @ newline # r)
      = Some (nv, '' '' @ show_int nc @ newline # r)"
    using scan_int_show_int [of "'' '' @ show_int nc @ newline # r" nv] by simp
  moreover have "scan_int ('' '' @ show_int nc @ newline # r) = Some (nc, newline # r)"
    using scan_int_show_int [of "newline # r" nc] by simp
  moreover have "\<not> is_space CHR ''c''" by (simp add: is_space_def)
  ultimately show ?thesis
    by (simp add: scan_header_def match_lit_def skip_ws_def)
qed

section \<open>Scanning the clauses\<close>

lemma scan_ints_literals:
  "scan_ints (concat (map (\<lambda>l. show_int l @ '' '') ls) @ r) = ls @ scan_ints r"
  by (induction ls) simp_all

lemma scan_ints_clause: "scan_ints (clause_text ls @ r) = ls @ 0 # scan_ints r"
  using scan_ints_show [of "newline # r" 0]
  by (simp add: clause_text_def scan_ints_literals show_int_0)

lemma scan_ints_clauses: "scan_ints (concat (map clause_text cs)) = dimacs cs"
  by (induction cs) (simp_all add: dimacs_def scan_ints_clause)

lemma scan_ints_lines:
  "scan_ints (concat (map (\<lambda>(i, b). show_int i @ '' '' @ show_int b @ [newline]) xs))
     = concat (map (\<lambda>(i, b). [i, b]) xs)"
  by (induction xs) auto

section \<open>Loading and running\<close>

lemma valid_problem_load:
  assumes "valid_problem nv cs"
  shows "load nv (int (length cs)) (dimacs cs) = Some (mk_formula nv (int (length cs)) cs)"
    "wf_formula (mk_formula nv (int (length cs)) cs)"
proof -
  from assms have "\<forall>ls\<in>set cs. 0 \<notin> set ls \<and> length ls \<le> MAX_CLAUSE_SIZE"
    by (auto simp: valid_problem_def list_all_iff)
  from read_clauses_dimacs [OF this, of "[]"]
  show "load nv (int (length cs)) (dimacs cs) = Some (mk_formula nv (int (length cs)) cs)"
    by (simp add: load_def)
  from assms show "wf_formula (mk_formula nv (int (length cs)) cs)"
    by (intro wf_mk_formula) (auto simp: valid_problem_def list_all_iff)
qed

lemma run_main_text:
  assumes "CHR ''p'' \<notin> set pre"
  shows "run_main n (pre @ dimacs_text nv cs) =
           (case load nv (int (length cs)) (dimacs cs) of
              None \<Rightarrow> None | Some F \<Rightarrow> map_option Answer (solve n F))"
proof -
  have "dimacs_text nv cs = CHR ''p'' # '' cnf '' @ show_int nv @ '' '' @
      show_int (int (length cs)) @ newline # concat (map clause_text cs)"
    by (simp add: dimacs_text_def)
  with skip_to_p_append [OF assms] scan_header_text [of nv "int (length cs)"]
  show ?thesis by (simp add: run_main_def scan_ints_clauses)
qed

section \<open>The program on a problem text\<close>

text \<open>
  C2 (the program on a DIMACS text): on an input that holds no \<open>p\<close> before
  the problem line and then the text of a valid problem, the program with
  search depth \<open>V + 1\<close> ends with an answer, and when the answer is an
  assignment, the assignment satisfies every clause of the problem.
\<close>

theorem run_main_dimacs:
  assumes "valid_problem nv cs" "CHR ''p'' \<notin> set pre"
  shows "\<exists>r. run_main (nat nv + 1) (pre @ dimacs_text nv cs) = Some (Answer r) \<and>
           (\<forall>xs. r = SAT xs \<longrightarrow>
              formula_sat (mk_formula nv (int (length cs)) cs) (printed_model xs))"
proof -
  let ?F = "mk_formula nv (int (length cs)) cs"
  note ld = valid_problem_load [OF assms(1)]
  from solve_total [OF ld(2)] obtain r where r: "solve (nat nv + 1) ?F = Some r" by auto
  with solve_model [OF ld(2)] have "\<forall>xs. r = SAT xs \<longrightarrow> formula_sat ?F (printed_model xs)"
    by blast
  with r ld(1) run_main_text [OF assms(2), of "nat nv + 1" nv cs] show ?thesis by simp
qed

theorem run_main_dimacs_witness:
  "\<exists>r. run_main 4 (''c sat'' @ [newline] @ dimacs_text 3 [[1, 2], [- 1, 3], [- 3, - 2]])
      = Some (Answer r) \<and>
     (\<forall>xs. r = SAT xs \<longrightarrow> formula_sat branch_cnf (printed_model xs))"
  using run_main_dimacs [of 3 "[[1, 2], [- 1, 3], [- 3, - 2]]" "''c sat'' @ [newline]"]
  by (simp add: valid_problem_def MAX_CLAUSE_SIZE_def newline_def numeral_eq_Suc)

text \<open>
  C28 (malformed input): on an input without the letter \<open>p\<close> the program does
  not end; when the text after the first \<open>p\<close> is not \<open>cnf\<close> and two numbers,
  the program writes the diagnostic to the error stream, nothing to the
  output, and exits with code 1.
\<close>

theorem run_main_read_errors:
  "(CHR ''p'' \<notin> set input \<longrightarrow> run_main n input = None) \<and>
   (skip_to_p input = Some r \<and> scan_header r = None \<longrightarrow>
      run_main n input = Some Read_failed \<and> exit_code Read_failed = 1 \<and>
      stderr_text Read_failed = ''Failed to read input'' @ [newline] \<and>
      stdout_text Read_failed = [])"
  using skip_to_p_None [of input] by (auto simp: run_main_def)

theorem run_main_read_errors_witness:
  "run_main 1 ''c no header'' = None \<and> run_main 1 ''p dnf 1 1'' = Some Read_failed"
  using run_main_read_errors [of "''c no header''" 1]
    run_main_read_errors [of "''p dnf 1 1''" 1 "'' dnf 1 1''"]
  by (simp add: scan_header_def match_lit_def skip_ws_def is_space_def)

text \<open>
  A preamble line with the letter \<open>p\<close>: the scan stops at the first
  \<open>p\<close> of the input, wherever it is in its line, so that a line \<open>sample\<close>
  before the problem line makes the program report a read failure.
\<close>

theorem preamble_with_p:
  "run_main n (''sample'' @ [newline] @ dimacs_text 1 [[1]]) = Some Read_failed"
  by (simp add: run_main_def scan_header_def match_lit_def skip_ws_def is_space_def)

text \<open>
  C27 (the output reads back): the integers of the text the program prints
  for an assignment are the variable numbers and their values, in order.
\<close>

theorem stdout_scan:
  "scan_ints (stdout_text (Answer (SAT xs))) = concat (map (\<lambda>(i, b). [i, b]) xs)"
  using scan_ints_lines [of xs] by simp

end
