(* ===== verification/Abstract_Assign.thy ===== *)
theory Abstract_Assign
  imports Units
begin

text \<open>
  An abstract view of \<open>assign\<close> (\<open>src/sat.cpp\<close> lines 157-199) on the
  values \<open>assn\<close> alone, as a DPLL procedure on partial assignments would
  state it: setting a variable fails exactly when a clause containing the
  variable has every literal false afterwards, and otherwise changes the one
  value. The counters \<open>rem\<close>, \<open>satisfier\<close> and \<open>nunsat\<close> are the means by
  which the code decides this without reading the clauses; this theory shows
  that \<open>assign\<close> refines the abstract operation along the abstraction
  \<open>assn\<close>.
\<close>

section \<open>The abstract operation\<close>

text \<open>
  \<open>clause_false a ls\<close>: every literal of the clause is false under \<open>a\<close>.
  \<open>abs_assign\<close> looks at the clauses that \<open>appearances[v]\<close> names.
\<close>

definition clause_false :: "int array \<Rightarrow> int list \<Rightarrow> bool" where
  "clause_false a ls \<longleftrightarrow> list_all (\<lambda>l. l * a (varid l) < 0) ls"

definition abs_assign :: "formula \<Rightarrow> int \<Rightarrow> int \<Rightarrow> int array \<Rightarrow> int array option" where
  "abs_assign F v sign a =
     (if list_ex (\<lambda>e. clause_false (a(v := sign)) (clauses F (varid e))) (appearances F v)
      then None else Some (a(v := sign)))"

section \<open>Falsified clauses\<close>

lemma clause_false_iff: "clause_false a ls \<longleftrightarrow> (\<forall>l\<in>set ls. l * a (varid l) < 0)"
  by (simp add: clause_false_def list_all_iff)

lemma abs_assign_None_iff:
  "abs_assign F v sign a = None \<longleftrightarrow>
     (\<exists>e\<in>set (appearances F v). clause_false (a(v := sign)) (clauses F (varid e)))"
  by (simp add: abs_assign_def list_ex_iff)

lemma abs_assign_Some: "abs_assign F v sign a = Some a' \<Longrightarrow> a' = a(v := sign)"
  by (auto simp: abs_assign_def split: if_splits)

text \<open>
  A clause that the new value falsifies has no satisfier, and its unset
  literals are the literals of the variable.
\<close>

lemma falsified_clause_state:
  assumes wf: "wf_formula F" "0 \<le> v" "v < V F" and inv: "assignment_inv F s"
    and unset: "assn s v = 0" and c: "0 \<le> c" "c < C F"
    and false: "clause_false ((assn s)(v := sign)) (clauses F c)"
  shows "satisfier s c = 0" "\<not> agrees sign c (appearances F v)"
    "rem s c = count_where (\<lambda>b. varid b = c) (appearances F v)"
proof -
  let ?ls = "clauses F c"
  from false have f: "l * ((assn s)(v := sign)) (varid l) < 0" if "l \<in> set ?ls" for l
    using that by (simp add: clause_false_iff)
  have old: "\<not> 0 < l * assn s (varid l)" if "l \<in> set ?ls" for l
    using f [OF that] unset by (cases "varid l = v") (auto simp: not_less)
  show s0: "satisfier s c = 0"
  proof (rule ccontr)
    assume "satisfier s c \<noteq> 0"
    with inv c obtain l where "l \<in> set ?ls" "lit_true (assn s) l"
      by (auto simp: assignment_inv_def satisfier_sound_def all_below_iff)
    with old show False by (simp add: lit_true_def)
  qed
  have "\<not> 0 < l * sign" if "l \<in> set ?ls" "varid l = v" for l
    using f [OF that(1)] that(2) by simp
  then show "\<not> agrees sign c (appearances F v)"
    by (auto simp: agrees_iff_lit [OF wf c])
  have "assn s (varid l) = 0 \<longleftrightarrow> varid l = v" if "l \<in> set ?ls" for l
    using f [OF that] unset by (cases "varid l = v") auto
  then have "unset_count (assn s) ?ls = count_where (\<lambda>l. varid l = v) ?ls"
    unfolding unset_count_def by (intro count_where_cong) simp
  with inv c wf_app_count [OF wf, of c]
  show "rem s c = count_where (\<lambda>b. varid b = c) (appearances F v)"
    by (simp add: assignment_inv_def rem_ok_def all_below_iff)
qed

section \<open>The two verdicts of assign\<close>

lemma assign_True_no_conflict:
  assumes wf: "wf_formula F" "0 \<le> v" "v < V F" and inv: "assignment_inv F s"
    and unset: "assn s v = 0" and run: "assign F v sign s = (True, s')"
  shows "abs_assign F v sign (assn s) = Some ((assn s)(v := sign))"
proof (rule ccontr)
  assume "abs_assign F v sign (assn s) \<noteq> Some ((assn s)(v := sign))"
  then obtain e where e: "e \<in> set (appearances F v)"
    and false: "clause_false ((assn s)(v := sign)) (clauses F (varid e))"
    by (auto simp: abs_assign_def list_ex_iff split: if_splits)
  let ?c = "varid e"
  from wf_app_range [OF wf e] have c: "0 \<le> ?c" "?c < C F" by simp_all
  note st = falsified_clause_state [OF wf inv unset c false]
  from e have "0 < count_where (\<lambda>b. varid b = ?c) (appearances F v)"
    by (auto simp: count_where_pos_iff)
  from assign_loop_conflict [OF this, of "s\<lparr>assn := (assn s)(v := sign)\<rparr>" sign F v 0] st
    assign_True_loop [OF run unset]
  show False by simp
qed

lemma assign_False_conflict:
  assumes wf: "wf_formula F" "0 \<le> v" "v < V F" and sign: "sign \<noteq> 0"
    and inv: "assignment_inv F s" and fail: "assign F v sign s = (False, s')"
  shows "abs_assign F v sign (assn s) = None"
proof -
  from inv have "rem_ok F s" "satisfier_complete F s" by (simp_all add: assignment_inv_def)
  from assign_False_falsified [OF wf sign this fail] show ?thesis
    unfolding abs_assign_None_iff clause_false_iff by metis
qed

section \<open>assign refines the abstract operation\<close>

lemma ex_abs_assign:
  "\<not> Option.is_none (abs_assign ex_cnf 0 1 (assn ex_start))"
  "Option.is_none (abs_assign ex_cnf 0 (- 1) (assn ex_start))"
  by code_simp+

text \<open>
  C6 (\<open>assign\<close> refines the abstract operation): for an unset variable of a
  well-formed formula and a non-zero sign, in a state that satisfies the
  assignment invariant, \<open>assign\<close> returns false and leaves the values as they
  were when the abstract operation fails, and returns true with the values
  the abstract operation gives when it succeeds.
\<close>

theorem assign_refines:
  assumes wf: "wf_formula F" "0 \<le> v" "v < V F" and sign: "sign \<noteq> 0"
    and inv: "assignment_inv F s" and unset: "assn s v = 0"
  shows "case abs_assign F v sign (assn s) of
           None \<Rightarrow> \<not> fst (assign F v sign s) \<and> assn (snd (assign F v sign s)) = assn s
         | Some a \<Rightarrow> fst (assign F v sign s) \<and> assn (snd (assign F v sign s)) = a"
proof (cases "assign F v sign s")
  case (Pair ok s')
  show ?thesis
  proof (cases ok)
    case True
    with Pair assign_True_no_conflict [OF wf inv unset, of sign s'] assign_assn [of F v sign s s'] unset
    show ?thesis by simp
  next
    case False
    from inv have "satisfier_sound F s" by (simp add: assignment_inv_def)
    with Pair False assign_False_conflict [OF wf sign inv, of s']
      assign_False_fields [OF wf, of s sign s'] sign
    show ?thesis by simp
  qed
qed

theorem assign_refines_witness:
  "abs_assign ex_cnf 0 1 (assn ex_start) = Some (assn ex_assigned) \<and>
   abs_assign ex_cnf 0 (- 1) (assn ex_start) = None"
  using assign_refines [of ex_cnf 0 1 ex_start] assign_refines [of ex_cnf 0 "- 1" ex_start]
    ex_cnf_wf ex_start_inv ex_abs_assign
  by (auto simp: Option.is_none_def split: option.splits)

end
