(* ===== verification/Tallies.thy ===== *)
theory Tallies
  imports Assignment
begin

text \<open>
  The tallies \<open>npos_app\<close> and \<open>nneg_app\<close> under \<open>assign\<close> and \<open>unassign\<close>
  (\<open>src/sat.cpp\<close> lines 138-199 and 201-229). The tallies are written in two
  places: \<open>mark_signed_appearances\<close> and \<open>unmark_signed_appearances\<close> add
  and subtract 1 at the cells that the literals of a clause name when the
  clause gets or loses its satisfier, and the branch of the two loops for an
  occurrence that disagrees with the sign changes the cell of the variable.
  This theory gives the tallies in closed form. The marks of an \<open>assign\<close>
  and the following \<open>unassign\<close> cancel, the changes of the second kind do
  not: the tallies drift, and they are not the counts that invariant I4 of
  the specification describes.
\<close>

section \<open>The terms of the closed form\<close>

text \<open>
  \<open>pos_lits F w c\<close> and \<open>neg_lits F w c\<close> count the non-negative and the
  negative literals of clause \<open>c\<close> that are equal to \<open>w\<close>, the cell they
  address. \<open>marked n k sat g\<close> is the sum of \<open>g c\<close> over the clauses
  \<open>c < n\<close> with \<open>sat c = k\<close>. \<open>disagreeing sign as\<close> counts the occurrence
  entries whose sign is not \<open>sign\<close>.
\<close>

definition pos_lits :: "formula \<Rightarrow> int \<Rightarrow> int \<Rightarrow> int" where
  "pos_lits F w c = count_where (\<lambda>l. \<not> l < 0 \<and> l = w) (clauses F c)"

definition neg_lits :: "formula \<Rightarrow> int \<Rightarrow> int \<Rightarrow> int" where
  "neg_lits F w c = count_where (\<lambda>l. l < 0 \<and> l = w) (clauses F c)"

definition marked :: "int \<Rightarrow> int \<Rightarrow> int array \<Rightarrow> (int \<Rightarrow> int) \<Rightarrow> int" where
  "marked n k sat g = sum_list (map (\<lambda>c. if sat c = k then g c else 0) [0..n - 1])"

definition disagreeing :: "int \<Rightarrow> int list \<Rightarrow> int" where
  "disagreeing sign as = count_where (\<lambda>a. \<not> 0 < a * sign) as"

section \<open>Sums over the clauses of a satisfier\<close>

lemma marked_sum: "marked n k sat g = (\<Sum>c\<in>{0..n - 1}. if sat c = k then g c else 0)"
  unfolding marked_def by (simp add: sum_list_distinct_conv_sum_set)

lemma marked_upd:
  assumes "0 \<le> c" "c < n"
  shows "marked n k (sat(c := x)) g
       = marked n k sat g + (if x = k then g c else 0) - (if sat c = k then g c else 0)"
proof -
  from assms have c: "c \<in> {0..n - 1}" by simp
  have "(\<Sum>d\<in>{0..n - 1} - {c}. if (sat(c := x)) d = k then g d else 0)
      = (\<Sum>d\<in>{0..n - 1} - {c}. if sat d = k then g d else 0)"
    by (rule sum.cong) auto
  then show ?thesis
    unfolding marked_sum sum.remove [OF finite_atLeastAtMost_int c] by simp
qed

lemma marked_none: "(\<And>c. 0 \<le> c \<Longrightarrow> c < n \<Longrightarrow> sat c \<noteq> k) \<Longrightarrow> marked n k sat g = 0"
  by (simp add: marked_sum)

section \<open>The two loops\<close>

lemma mark_tallies:
  "npos_app (mark_signed_appearances F c s) w = npos_app s w + pos_lits F w c"
  "nneg_app (mark_signed_appearances F c s) w = nneg_app s w + neg_lits F w c"
  "npos_app (unmark_signed_appearances F c s) w = npos_app s w - pos_lits F w c"
  "nneg_app (unmark_signed_appearances F c s) w = nneg_app s w - neg_lits F w c"
  by (simp_all add: mark_signed_appearances_def unmark_signed_appearances_def
      modify_signed_appearances_def modify_loop_apply pos_lits_def neg_lits_def)

lemma disagreeing_simps [simp]:
  "disagreeing sign [] = 0"
  "disagreeing sign (a # as) = (if 0 < a * sign then 0 else 1) + disagreeing sign as"
  by (simp_all add: disagreeing_def)

lemma tallies_assign_loop:
  assumes "\<forall>a\<in>set as. 0 \<le> varid a \<and> varid a < n" "v + 1 \<noteq> 0"
    and "assign_loop F v sign i as s = (True, s')"
  shows "npos_app s' w - marked n (v + 1) (satisfier s') (pos_lits F w)
       = npos_app s w - marked n (v + 1) (satisfier s) (pos_lits F w)
         + (if w = v \<and> \<not> sign < 0 then disagreeing sign as else 0)"
    and "nneg_app s' w - marked n (v + 1) (satisfier s') (neg_lits F w)
       = nneg_app s w - marked n (v + 1) (satisfier s) (neg_lits F w)
         - (if w = v \<and> sign < 0 then disagreeing sign as else 0)"
  using assms
  by (induction as arbitrary: s i)
    (auto simp: Let_def marked_upd mark_tallies split: if_splits)

lemma tallies_unassign_loop:
  assumes "\<forall>a\<in>set as. 0 \<le> varid a \<and> varid a < n" "v + 1 \<noteq> 0"
  shows "npos_app (unassign_loop F v sign as s) w
           - marked n (v + 1) (satisfier (unassign_loop F v sign as s)) (pos_lits F w)
       = npos_app s w - marked n (v + 1) (satisfier s) (pos_lits F w)
         + (if w = v \<and> \<not> sign < 0 then disagreeing sign as else 0)"
    and "nneg_app (unassign_loop F v sign as s) w
           - marked n (v + 1) (satisfier (unassign_loop F v sign as s)) (neg_lits F w)
       = nneg_app s w - marked n (v + 1) (satisfier s) (neg_lits F w)
         + (if w = v \<and> sign < 0 then disagreeing sign as else 0)"
  using assms
  by (induction as arbitrary: s) (auto simp: Let_def marked_upd mark_tallies)

lemma unset_not_satisfier:
  assumes "satisfier_sound F s" "assn s v = 0" "0 \<le> v" "0 \<le> c" "c < C F"
  shows "satisfier s c \<noteq> v + 1"
proof
  assume "satisfier s c = v + 1"
  with assms obtain l where "varid l + 1 = v + 1" "lit_true (assn s) l"
    by (auto simp: satisfier_sound_def all_below_iff)
  with assms(2) show False by simp
qed

lemma ex_disagreeing: "disagreeing 1 (appearances ex_cnf 0) = 1"
  by code_simp

lemma assign_tallies:
  assumes wf: "wf_formula F" "0 \<le> v" "v < V F" and sound: "satisfier_sound F s"
    and unset: "assn s v = 0" and run: "assign F v sign s = (True, s1)"
  shows "npos_app s1 w = npos_app s w + marked (C F) (v + 1) (satisfier s1) (pos_lits F w)
           + (if w = v \<and> \<not> sign < 0 then disagreeing sign (appearances F v) else 0) \<and>
         nneg_app s1 w = nneg_app s w + marked (C F) (v + 1) (satisfier s1) (neg_lits F w)
           - (if w = v \<and> sign < 0 then disagreeing sign (appearances F v) else 0)"
proof -
  have range: "\<forall>a\<in>set (appearances F v). 0 \<le> varid a \<and> varid a < C F"
    using wf_app_range [OF wf] by blast
  from wf(2) have v1: "v + 1 \<noteq> 0" by simp
  have none: "marked (C F) (v + 1) (satisfier s) g = 0" for g
    using unset_not_satisfier [OF sound unset wf(2)] by (intro marked_none) simp
  from tallies_assign_loop [OF range v1 assign_True_loop [OF run unset], of w] none
  show ?thesis by simp
qed

section \<open>The tallies after assign and after a round trip\<close>

text \<open>
  C21 (the tallies after \<open>assign\<close>): a successful \<open>assign\<close> of an unset
  variable \<open>v\<close> adds to every cell \<open>npos_app[w]\<close> the number of non-negative
  literals equal to \<open>w\<close> in the clauses that \<open>v\<close> now satisfies, and to
  \<open>nneg_app[w]\<close> the number of negative ones, where the specification has
  the literals of a satisfied clause leave the tallies; in addition it adds
  the number of disagreeing occurrences of \<open>v\<close> to \<open>npos_app[v]\<close> for a
  positive sign and subtracts it from \<open>nneg_app[v]\<close> for a negative one.
\<close>

theorem tallies_after_assign:
  assumes wf: "wf_formula F" "0 \<le> v" "v < V F" and sound: "satisfier_sound F s"
    and unset: "assn s v = 0" and run: "assign F v sign s = (True, s1)"
  shows "npos_app s1 w = npos_app s w + marked (C F) (v + 1) (satisfier s1) (pos_lits F w)
           + (if w = v \<and> \<not> sign < 0 then disagreeing sign (appearances F v) else 0) \<and>
         nneg_app s1 w = nneg_app s w + marked (C F) (v + 1) (satisfier s1) (neg_lits F w)
           - (if w = v \<and> sign < 0 then disagreeing sign (appearances F v) else 0)"
  using assms by (rule assign_tallies)

theorem tallies_after_assign_witness:
  "npos_app ex_assigned 1 = npos_app ex_start 1 + marked 2 1 (satisfier ex_assigned) (pos_lits ex_cnf 1)"
  using tallies_after_assign [of ex_cnf 0 ex_start 1 ex_assigned 1]
    ex_cnf_wf ex_start_inv ex_assign_True
  by (simp add: prod_eq_iff assignment_inv_def)

text \<open>
  C32 (the tallies after a round trip): \<open>assign\<close> of an unset variable
  followed by \<open>unassign\<close> gives back \<open>nneg_app\<close>, and gives back \<open>npos_app\<close>
  for a negative sign; for a positive sign \<open>npos_app[v]\<close> is two higher for
  every disagreeing occurrence of \<open>v\<close>, since both loops add 1 to it.
\<close>

theorem tallies_round_trip:
  assumes wf: "wf_formula F" "0 \<le> v" "v < V F" and sound: "satisfier_sound F s"
    and unset: "assn s v = 0" and sign: "sign \<noteq> 0" and run: "assign F v sign s = (True, s1)"
  shows "npos_app (unassign F v sign s1) w
           = npos_app s w
             + (if w = v \<and> \<not> sign < 0 then 2 * disagreeing sign (appearances F v) else 0) \<and>
         nneg_app (unassign F v sign s1) w = nneg_app s w"
proof -
  let ?as = "appearances F v"
  let ?s2 = "s1\<lparr>assn := (assn s1)(v := 0)\<rparr>"
  let ?u = "unassign_loop F v sign ?as ?s2"
  have range: "\<forall>a\<in>set ?as. 0 \<le> varid a \<and> varid a < C F"
    using wf_app_range [OF wf] by blast
  from wf(2) have v1: "v + 1 \<noteq> 0" by simp
  from assign_assn [OF run unset] sign have u: "unassign F v sign s1 = ?u"
    by (simp add: unassign_loop_eq)
  note first = assign_tallies [OF wf sound unset run, of w]
  have "satisfier ?u c \<noteq> v + 1" if "0 \<le> c" "c < C F" for c
    using unset_not_satisfier [OF sound unset wf(2) that] v1
    by (simp add: satisfier_unassign_loop satisfier_assign_loop [OF assign_True_loop [OF run unset]])
  then have none: "marked (C F) (v + 1) (satisfier ?u) g = 0" for g
    by (intro marked_none) simp
  from tallies_unassign_loop [OF range v1, of F sign ?s2 w] first none show ?thesis
    unfolding u by simp
qed

theorem tallies_round_trip_witness:
  "npos_app (unassign ex_cnf 0 1 ex_assigned) 0 = npos_app ex_start 0 + 2"
  using tallies_round_trip [of ex_cnf 0 ex_start 1 ex_assigned 0]
    ex_cnf_wf ex_start_inv ex_assign_True ex_disagreeing
  by (simp add: prod_eq_iff assignment_inv_def)

end
