(* ===== verification/Random_Var.thy ===== *)
theory Random_Var
  imports Assignment
begin

text \<open>
  \<open>random_next_var\<close> (\<open>src/sat.cpp\<close> lines 289-313), the variable selection
  that \<open>dfs\<close> does not call. The value of \<open>rand()\<close> is the argument \<open>r\<close>, a
  non-negative integer, for which the \<open>%\<close> of C is \<open>mod\<close>. The two loops
  over the variables are recursions over the list of indices \<open>0, \<dots>, V - 1\<close>,
  with the counters \<open>nleft\<close> and \<open>on\<close> as accumulators; the \<open>return i\<close> inside
  the second loop is the branch that does not recurse.
\<close>

section \<open>The two loops\<close>

fun count_unset :: "int array \<Rightarrow> int list \<Rightarrow> int \<Rightarrow> int" where
  "count_unset a [] nleft = nleft"
| "count_unset a (i # is) nleft = count_unset a is (if a i = 0 then nleft + 1 else nleft)"

fun pick_unset :: "int array \<Rightarrow> int list \<Rightarrow> int \<Rightarrow> int \<Rightarrow> int" where
  "pick_unset a [] on nxt = - 1"
| "pick_unset a (i # is) on nxt =
     (if a i \<noteq> 0 then pick_unset a is on nxt
      else if on = nxt then i
      else pick_unset a is (on + 1) nxt)"

definition random_next_var :: "formula \<Rightarrow> int \<Rightarrow> solver \<Rightarrow> int" where
  "random_next_var F r s =
     (let nleft = count_unset (assn s) [0..V F - 1] 0
      in if nleft = 0 then - 1
         else pick_unset (assn s) [0..V F - 1] 0 (r mod nleft))"

section \<open>The first loop counts the unset variables\<close>

lemma count_unset_count: "count_unset a xs n = n + count_where (\<lambda>i. a i = 0) xs"
  by (induction xs arbitrary: n) simp_all

lemma count_unset_zeros: "count_unset a [0..n - 1] 0 = zeros n a"
  by (simp add: count_unset_count zeros_def)

section \<open>The second loop\<close>

lemma pick_unset_split:
  assumes "on \<le> nxt" "nxt < on + count_where (\<lambda>i. a i = 0) xs"
  shows "\<exists>pre post. xs = pre @ pick_unset a xs on nxt # post \<and>
           a (pick_unset a xs on nxt) = 0 \<and> count_where (\<lambda>i. a i = 0) pre = nxt - on"
  using assms
proof (induction xs arbitrary: on)
  case Nil
  then show ?case by simp
next
  case (Cons i xs)
  show ?case
  proof (cases "a i = 0 \<and> on = nxt")
    case True
    then show ?thesis by (intro exI [of _ "[]"] exI [of _ xs]) simp
  next
    case False
    let ?on = "if a i = 0 then on + 1 else on"
    from False Cons.prems have "?on \<le> nxt" "nxt < ?on + count_where (\<lambda>i. a i = 0) xs"
      by (auto split: if_splits)
    from Cons.IH [OF this] obtain pre post where
      "xs = pre @ pick_unset a xs ?on nxt # post" "a (pick_unset a xs ?on nxt) = 0"
      "count_where (\<lambda>i. a i = 0) pre = nxt - ?on"
      by blast
    with False show ?thesis
      by (intro exI [of _ "i # pre"] exI [of _ post]) auto
  qed
qed

lemma upto_prefix:
  assumes "[0..n - 1] = pre @ x # post"
  shows "0 \<le> x" "x < n" "count_where P pre = count_where P [0..x - 1]"
proof -
  from assms have x: "x \<in> set [0..n - 1]" by simp
  then show "0 \<le> x" "x < n" by simp_all
  have "sorted_wrt (<) (pre @ x # post)" "distinct (pre @ x # post)"
    unfolding assms [symmetric] by (simp_all add: sorted_wrt_upto)
  then have lt: "\<forall>y\<in>set pre. y < x" and d: "distinct pre"
    by (auto simp: sorted_wrt_append)
  have "set pre \<subseteq> set [0..n - 1]" unfolding assms by auto
  with lt have sub: "set pre \<subseteq> {0..x - 1}" by auto
  have "y \<in> set pre" if "0 \<le> y" "y < x" for y
  proof -
    from that \<open>x < n\<close> have "y \<in> set (pre @ x # post)" unfolding assms [symmetric] by simp
    moreover from \<open>sorted_wrt (<) (pre @ x # post)\<close> have "\<forall>z\<in>set post. x < z"
      by (auto simp: sorted_wrt_append)
    ultimately show ?thesis using that by auto
  qed
  with sub have "set pre = set [0..x - 1]" by auto
  with d show "count_where P pre = count_where P [0..x - 1]"
    by (simp add: count_where_card del: set_upto)
qed

lemma ex_assigned_unset: "zeros (V ex_cnf) (assn ex_assigned) \<noteq> 0"
  by code_simp

section \<open>The variable returned\<close>

text \<open>
  C33 (\<open>random_next_var\<close>): for a value \<open>r \<ge> 0\<close> of \<open>rand()\<close>, the function
  returns \<open>-1\<close> when no variable below \<open>V\<close> is unset, and otherwise an unset
  variable below \<open>V\<close>, the one with \<open>r mod nleft\<close> unset variables before
  it, where \<open>nleft\<close> is the number of unset variables.
\<close>

theorem random_next_var_spec:
  assumes "0 \<le> r"
  shows "if zeros (V F) (assn s) = 0 then random_next_var F r s = - 1
         else 0 \<le> random_next_var F r s \<and> random_next_var F r s < V F \<and>
              assn s (random_next_var F r s) = 0 \<and>
              zeros (random_next_var F r s) (assn s) = r mod zeros (V F) (assn s)"
proof (cases "zeros (V F) (assn s) = 0")
  case True
  then show ?thesis by (simp add: random_next_var_def count_unset_zeros)
next
  case False
  let ?n = "zeros (V F) (assn s)" and ?x = "random_next_var F r s"
  from False have pos: "0 < ?n" using zeros_nonneg [of "V F" "assn s"] by linarith
  with assms have "0 \<le> r mod ?n" "r mod ?n < 0 + count_where (\<lambda>i. assn s i = 0) [0..V F - 1]"
    by (simp_all add: zeros_def)
  from pick_unset_split [OF this] False obtain pre post where
    split: "[0..V F - 1] = pre @ ?x # post" and x: "assn s ?x = 0"
    and cnt: "count_where (\<lambda>i. assn s i = 0) pre = r mod ?n"
    by (auto simp: random_next_var_def count_unset_zeros Let_def)
  from upto_prefix(1,2) [OF split] upto_prefix(3) [where P = "\<lambda>i. assn s i = 0", OF split]
    x cnt False
  show ?thesis
    by (simp add: zeros_def)
qed

theorem random_next_var_spec_witness:
  "assn ex_assigned (random_next_var ex_cnf 5 ex_assigned) = 0 \<and>
   zeros (random_next_var ex_cnf 5 ex_assigned) (assn ex_assigned)
     = 5 mod zeros (V ex_cnf) (assn ex_assigned)"
  using random_next_var_spec [of 5 ex_cnf ex_assigned] ex_assigned_unset
  by simp

end
