(* ===== verification/Debug_Print.thy ===== *)
theory Debug_Print
  imports Conflict Text_IO
begin

text \<open>
  The two debugging functions of \<open>src/sat.cpp\<close>, \<open>print_in_conflict_set\<close>
  (lines 79-87) and \<open>print_conflict_set\<close> (lines 89-97), whose calls are
  commented out in the search. The output is the string they write; the
  iteration over a \<open>std::set<int>\<close> is the recursion over the sorted list,
  with the separator \<open>sep\<close> as an argument, empty before the first element.
\<close>

section \<open>The functions\<close>

fun print_set_loop :: "string \<Rightarrow> int list \<Rightarrow> string" where
  "print_set_loop sep [] = []"
| "print_set_loop sep (x # xs) = sep @ show_int x @ print_set_loop '' '' xs"

definition print_in_conflict_set :: "int \<Rightarrow> 'a tracker_scheme \<Rightarrow> string" where
  "print_in_conflict_set v t =
     ''conflict set for '' @ show_int v @ '':'' @ print_set_loop [] (in_conflict t v) @ [newline]"

definition print_conflict_set :: "int \<Rightarrow> 'a tracker_scheme \<Rightarrow> string" where
  "print_conflict_set v t =
     ''conflict set for '' @ show_int v @ '':'' @ print_set_loop [] (conflict t v) @ [newline]"

section \<open>Reading the elements back\<close>

lemma delimited_set_loop [simp]: "delimited (print_set_loop '' '' xs @ newline # r)"
  by (cases xs) simp_all

lemma scan_ints_set_loop_sep:
  "scan_ints (print_set_loop '' '' xs @ newline # r) = xs @ scan_ints r"
  by (induction xs) simp_all

lemma scan_ints_set_loop: "scan_ints (print_set_loop [] xs @ newline # r) = xs @ scan_ints r"
  by (cases xs) (simp_all add: scan_ints_set_loop_sep)

text \<open>
  C34 (the printed sets): after the label, the line that either function
  writes holds the elements of the set in increasing order, and reading the
  integers of the line gives the set back.
\<close>

theorem print_conflict_set_scan:
  "scan_ints (drop (length (''conflict set for '' @ show_int v @ '':'')) (print_conflict_set v t))
     = conflict t v \<and>
   scan_ints (drop (length (''conflict set for '' @ show_int v @ '':'')) (print_in_conflict_set v t))
     = in_conflict t v"
  using scan_ints_set_loop [of "conflict t v" "[]"] scan_ints_set_loop [of "in_conflict t v" "[]"]
  by (simp add: print_conflict_set_def print_in_conflict_set_def)

text \<open>
  Both functions write the label \<open>conflict set for\<close>: their lines are equal
  exactly when the two sets are.
\<close>

theorem print_sets_same_label:
  "print_in_conflict_set v t = print_conflict_set v t \<longleftrightarrow> in_conflict t v = conflict t v"
proof
  assume eq: "print_in_conflict_set v t = print_conflict_set v t"
  then have "print_set_loop [] (in_conflict t v) @ [newline] = print_set_loop [] (conflict t v) @ [newline]"
    by (simp add: print_conflict_set_def print_in_conflict_set_def)
  then have "scan_ints (print_set_loop [] (in_conflict t v) @ newline # [])
      = scan_ints (print_set_loop [] (conflict t v) @ newline # [])"
    by simp
  then show "in_conflict t v = conflict t v" by (simp add: scan_ints_set_loop)
qed (simp add: print_conflict_set_def print_in_conflict_set_def)

end
