(* ===== verification/Spec2Isabelle.thy ===== *)
theory Spec2Isabelle
  imports Program Abstract_Assign Tallies Random_Var Debug_Print
begin

text \<open>
  A verification development for the DPLL solver of \<open>src/sat.cpp\<close>: depth
  first search with most-constrained variable ordering, majority-sign value
  ordering, unit propagation through a queue, and conflict-directed
  backjumping.

  \<^bold>\<open>The program.\<close> \<open>main\<close> skips the input up to the letter \<open>p\<close>, reads the
  header \<open>cnf V C\<close>, reads the clauses into the formula store (\<open>clauses\<close>,
  \<open>csizes\<close>, \<open>appearances\<close>, \<open>napps\<close>), fills the tallies \<open>npos_app\<close> and
  \<open>nneg_app\<close>, initialises the mutable arrays, calls \<open>dfs(0)\<close> and prints
  the assignment or \<open>UNSAT\<close>. \<open>dfs\<close> returns true when \<open>nunsat = 0\<close>;
  otherwise it picks a variable with \<open>most_constrained_var\<close>, clears its
  conflict sets and calls \<open>try_value\<close> for the majority sign and, if
  \<open>in_conflict_set\<close> still holds after a failure, for the other sign.
  \<open>try_value\<close> calls \<open>assign\<close>, drains the propagation queue with
  \<open>do_unit_propagations\<close>, recurses into \<open>dfs\<close>, and on failure undoes its
  work with \<open>undo_unit_propagations\<close> and \<open>unassign\<close>. \<open>assign\<close> walks the
  occurrence list of its variable, keeps the counters \<open>rem\<close>, \<open>satisfier\<close>
  and \<open>nunsat\<close>, enqueues clauses that became unit
  (\<open>enqueue_unit_propagation\<close>) and, on an empty clause, records the conflict
  (\<open>backprop_conflict\<close>, \<open>augment_conflict\<close>) and undoes itself with
  \<open>unassign_upto\<close>.

  \<^bold>\<open>The theories that model the code\<close>, in the order of the source.
  \<^item> \<open>SAT_Prelude\<close>: a C array is a total function \<open>int \<Rightarrow> 'a\<close> indexed by the
    index expression of the source; a \<open>std::set<int>\<close> is a strictly
    increasing list (\<open>set_insert\<close>, \<open>intset_inv\<close>); \<open>varid\<close> and \<open>sign_of\<close>
    decode a literal or occurrence entry; \<open>all_below\<close>, \<open>count_where\<close> and
    \<open>zeros\<close> are the executable bounded quantifier and counters in which the
    invariants are written, with the lemmas the other theories share.
  \<^item> \<open>Formula\<close>: the record \<open>formula\<close> (globals \<open>V\<close>, \<open>C\<close>, \<open>clauses\<close>,
    \<open>appearances\<close>; \<open>csizes\<close> and \<open>napps\<close> are the lengths of the lists), the
    two passes of \<open>main\<close> over the integers of the input (\<open>read_clause\<close>,
    \<open>read_clauses\<close>, \<open>fill_appearances\<close>, \<open>mk_formula\<close>, \<open>load\<close>), the
    meaning of clauses (\<open>lit_true\<close>, \<open>clause_sat\<close>, \<open>formula_sat\<close>) and
    \<open>wf_formula\<close>. \<open>load\<close> returns \<open>None\<close> where the source reads past the
    end of the input or writes past \<open>MAX_CLAUSE_SIZE\<close>. Theorems: the loader
    inverts \<open>dimacs\<close> (\<open>load_dimacs\<close>) and gives well-formed stores
    (\<open>load_wf\<close>).
  \<^item> \<open>Conflict\<close>: the record \<open>tracker\<close> (\<open>conflict\<close>, \<open>in_conflict\<close>) with
    \<open>in_conflict_set\<close>, \<open>augment_conflict\<close>, \<open>backprop_conflict\<close>;
    \<open>record_conflict\<close> is the pair of inserts both loops perform,
    \<open>clear_conflict\<close> the pair of \<open>clear()\<close> calls of \<open>dfs\<close> and
    \<open>do_unit_propagations\<close>. Theorems: irreflexivity is kept
    (\<open>tracker_irrefl_preserved\<close>); clearing the sets of a variable keeps the
    symmetry of a tracker exactly when no other variable is in them
    (\<open>clear_breaks_symmetry\<close>), and \<open>augment_conflict\<close> breaks it whenever
    \<open>in_conflict[v]\<close> has another variable (\<open>augment_breaks_symmetry\<close>).
  \<^item> \<open>Assignment\<close>: the record \<open>solver\<close>, which extends \<open>tracker\<close> by the
    remaining globals, and \<open>enqueue_unit_propagation\<close>,
    \<open>modify_signed_appearances\<close>, \<open>mark_signed_appearances\<close>,
    \<open>unmark_signed_appearances\<close>, \<open>assign\<close>, \<open>unassign_upto\<close>, \<open>unassign\<close>.
    Each loop is a recursive function over the list it walks
    (\<open>assign_loop\<close> carries the index \<open>i\<close> it passes to \<open>unassign_upto\<close>).
    The invariant \<open>assignment_inv\<close> is I1 to I3 of the specification.
    Theorems: \<open>assign\<close> keeps the invariant, leaves no trace when it fails
    and fails only on a falsified clause; \<open>unassign\<close> undoes \<open>assign\<close> and
    keeps the invariant; the cells that \<open>modify_signed_appearances\<close> writes.
  \<^item> \<open>Tallies\<close>: the closed form of \<open>npos_app\<close> and \<open>nneg_app\<close> after
    \<open>assign\<close> (\<open>tallies_after_assign\<close>) and after \<open>assign\<close> followed by
    \<open>unassign\<close> (\<open>tallies_round_trip\<close>), for every formula, variable and
    sign.
  \<^item> \<open>Propagation\<close>: \<open>undo_unit_propagations\<close> and \<open>do_unit_propagations\<close>.
    The loop of the latter reads a queue that grows while it runs; it is a
    \<open>partial_function\<close> in the option monad, and its termination is a
    theorem (\<open>do_unit_propagations_terminates\<close>), by the order \<open>loop_order\<close>.
    \<open>undo_unit_propagations\<close> is a fold of \<open>undo_step\<close> over the queue
    indices from \<open>high - 1\<close> down to \<open>low\<close>, as the loop of the source.
  \<^item> \<open>Search\<close>: \<open>alloc_solver\<close> and \<open>init_solver\<close> (the allocations and the
    initialisation in \<open>main\<close>), \<open>most_constrained_var\<close>, \<open>try_value\<close>, \<open>dfs\<close>,
    \<open>print_assignment\<close> and \<open>solve\<close> (the call \<open>dfs(0)\<close> and the answer).
    Theorems: the selection (\<open>most_constrained_var_spec\<close>), the initial
    tallies (\<open>init_tallies\<close>), the behaviour of \<open>dfs\<close> after a direct
    conflict (\<open>dfs_direct_conflict\<close>).
  \<^item> \<open>Random_Var\<close>: \<open>random_next_var\<close> with the value of \<open>rand()\<close> as an
    argument, and the variable it returns.
  \<^item> \<open>Text_IO\<close>: the conversions \<open>%d\<close> of \<open>printf\<close> and \<open>scanf\<close>, modelled
    from their specification since the C library is not in the sources
    (\<open>show_int\<close>, \<open>scan_int\<close>, \<open>scan_ints\<close>), and their round trip.
  \<^item> \<open>Debug_Print\<close>: \<open>print_conflict_set\<close> and \<open>print_in_conflict_set\<close> as the
    strings they write.
  \<^item> \<open>Program\<close>: \<open>main\<close> from standard input to the exit code and the two
    output streams: \<open>skip_to_p\<close>, \<open>scan_header\<close>, \<open>run_main\<close>, \<open>exit_code\<close>,
    \<open>stdout_text\<close>, \<open>stderr_text\<close>. Theorems: on the text of a valid problem
    the program ends with an answer, and an assignment it prints satisfies
    the problem (\<open>run_main_dimacs\<close>); what it does on malformed input
    (\<open>run_main_read_errors\<close>).

  \<^bold>\<open>The theories that carry the correctness proof\<close> of the search.
  \<^item> \<open>Units\<close>: what a queue entry is (\<open>entry_ok\<close>, \<open>queue_ok\<close>): a literal
    whose variable holds its sign, or the last unset literal of a clause
    without satisfier. \<open>assign\<close> keeps the queue made of such entries.
  \<^item> \<open>Restore\<close>: the relations between a state and a later one
    (\<open>vars_kept\<close>, \<open>queue_kept\<close>, \<open>fresh\<close>, \<open>restored\<close>) and the invariant
    \<open>undoable\<close> of the undo loop. The code undoes a batch of propagations
    from its last queue entry down to its first. An entry can name a variable
    that was set before the entry was read, so that this is not always the
    reverse of the order in which the variables were set; \<open>undo_restores\<close>
    shows that the values and the clause state of the start of the batch come
    back all the same.
  \<^item> \<open>Propagation_Contract\<close>: the loop invariant \<open>batch\<close> of
    \<open>do_unit_propagations\<close> and its two outcomes: on true every variable set
    is named by a queue entry and holds its sign
    (\<open>propagation_sets_forced\<close>); on false the state of the start is back
    (\<open>propagation_failure_rewinds\<close>).
  \<^item> \<open>Soundness\<close>: the contract \<open>dfs_post\<close> of \<open>try_value\<close> and \<open>dfs\<close> by
    induction on the fuel. Theorems: a true answer comes with values that
    satisfy every clause (\<open>dfs_sound\<close>); a false answer leaves the values it
    found (\<open>dfs_failure_restores\<close>); the search returns (\<open>dfs_returns\<close>); a
    unit clause against the first decision makes the answer \<open>UNSAT\<close>
    (\<open>unit_clause_reported_unsat\<close>).
  \<^item> \<open>Abstract_Assign\<close>: \<open>assign\<close> refines the operation on partial
    assignments that fails exactly when a clause of the variable becomes
    false (\<open>assign_refines\<close>).
  \<^item> This theory: the properties of \<open>solve\<close> that span the components.

  \<^bold>\<open>What is not shown.\<close> The answer \<open>UNSAT\<close> is not always right, and no
  theorem says it is: \<open>unit_clause_reported_unsat\<close> gives the formulas with
  a unit clause for which the program answers \<open>UNSAT\<close> whatever their other
  clauses are, a satisfiable one among them, and \<open>dfs_direct_conflict\<close> is
  the reason. The tallies \<open>npos_app\<close> and \<open>nneg_app\<close> are shown to drift
  (\<open>tallies_round_trip\<close>), so that no invariant is stated for them; the
  correctness theorems do not depend on their values. The symmetry of the
  conflict tracker (I5) is not an invariant of the search either.

  \<^bold>\<open>Conventions.\<close> The arrays are total, so a read or write outside the
  allocated range is a read or write of a cell of the same array that no
  in-range index names; the theorems about in-range cells assume
  \<open>wf_formula\<close> and indices below \<open>V\<close> or \<open>C\<close>, and
  \<open>modify_signed_appearances_cells\<close> shows the one place where the source
  indexes outside. Integers are unbounded: the model does not bound the
  counters, and no theorem speaks of an overflow of \<open>int\<close>. The cells that
  \<open>main\<close> leaves uninitialised (\<open>propping_clause\<close>) start at 0; the code
  reads such a cell for the variable of a queue entry only, which it wrote
  when it added the entry. The propagation queue has no
  capacity in the model, where the source allocates \<open>V * C\<close> cells, and an
  allocation does not fail. The value \<open>None\<close> of \<open>run_main\<close> stands for a
  run that does not end or that leaves the behaviour C defines.

  \<^bold>\<open>Fuel.\<close> \<open>dfs n\<close> is \<open>dfs\<close> with at most \<open>n\<close> nested calls; \<open>None\<close> is a
  run that needs more depth. Every nested call follows a successful
  \<open>assign\<close> of an unset variable and no call unsets a variable it found
  set, so that more fuel than there are unset variables is enough
  (\<open>dfs_returns\<close>), \<open>V + 1\<close> is enough for \<open>solve\<close> (\<open>solve_returns\<close>), and
  more fuel gives the same answer (\<open>solve_fuel_irrelevant\<close>). The
  propagation loop has no fuel: it is proved to return.

  \<^bold>\<open>Not modelled.\<close> \<open>srand(time(NULL))\<close>, whose only reader is the value
  \<open>rand()\<close> that \<open>random_next_var\<close> takes as an argument; the sizes passed
  to \<open>malloc\<close> and \<open>calloc\<close> and the \<open>free\<close> and \<open>delete\<close> calls at the end of
  \<open>main\<close>, which have no counterpart in a model whose arrays are total
  functions; the contents of the C library behind \<open>scanf\<close> and \<open>printf\<close>
  beyond the conversion \<open>%d\<close> and the matching of white space and literal
  text.
\<close>

section \<open>The state before the search\<close>

text \<open>
  C29 (every invariant holds initially): for a well-formed formula, the state
  \<open>main\<close> builds before it calls \<open>dfs(0)\<close> satisfies the assignment
  invariant (I1 to I3), its empty queue is valid from any index, and its
  conflict tracker is symmetric (I5), irreflexive (I6) and made of sets.
\<close>

theorem start_state_ready:
  assumes "wf_formula F"
  shows "assignment_inv F (init_solver F) \<and> queue_valid F 0 (init_solver F) \<and>
         tracker_sym (V F) (init_solver F) \<and> tracker_irrefl (V F) (init_solver F) \<and>
         tracker_sets_ok (V F) (init_solver F)"
  using init_assignment_inv [OF wf_C [OF assms]]
  by (simp add: init_tracker init_queue_valid)

theorem start_state_ready_witness:
  "assignment_inv ex_cnf (init_solver ex_cnf) \<and> queue_valid ex_cnf 0 (init_solver ex_cnf)"
  using start_state_ready [of ex_cnf] ex_cnf_wf by simp

section \<open>A decision and its propagations\<close>

text \<open>
  The first two calls of \<open>try_value\<close>: in a state that satisfies the
  assignment invariant, when \<open>assign\<close> of a non-zero sign to a variable of a
  well-formed formula returns true, the unit propagations from the queue
  length before the call return, and when they return true the state they
  leave satisfies the assignment invariant.
\<close>

theorem decision_then_propagation:
  assumes wf: "wf_formula F" "0 \<le> v" "v < V F" and sign: "sign \<noteq> 0"
    and inv: "assignment_inv F s" and run: "assign F v sign s = (True, s1)"
  shows "\<exists>ok s2. do_unit_propagations F (npropped s) s1 = Some (ok, s2) \<and>
           (ok \<longrightarrow> assignment_inv F s2)"
proof -
  have "queue_valid F (npropped s) s" by (simp add: queue_valid_iff)
  from assign_True_queue_valid [OF wf run this]
  have valid: "queue_valid F (npropped s) s1" .
  from wf sign inv run have inv1: "assignment_inv F s1"
    unfolding assignment_inv_def by (blast intro: assign_inv_intros)
  from loop_terminates [OF wf(1) valid, of "npropped s"]
  obtain ok s2 where r: "do_unit_propagations F (npropped s) s1 = Some (ok, s2)"
    by (auto simp: do_unit_propagations_def)
  from loop_True_inv [of F "npropped s" "npropped s" s1 "(ok, s2)"] r wf(1) valid inv1
  have "ok \<longrightarrow> assignment_inv F s2" by (simp add: do_unit_propagations_def)
  with r show ?thesis by blast
qed

theorem decision_then_propagation_witness:
  "\<exists>ok s2. do_unit_propagations ex_cnf (npropped ex_start) ex_assigned = Some (ok, s2) \<and>
     (ok \<longrightarrow> assignment_inv ex_cnf s2)"
  using decision_then_propagation [of ex_cnf 0 1 ex_start ex_assigned]
    ex_cnf_wf ex_start_inv ex_assign_True
  by (simp add: prod_eq_iff)


section \<open>The answers of the program\<close>

text \<open>
  C11 (a printed assignment satisfies the formula): when the program prints
  an assignment for a well-formed formula, the assignment that gives true to
  the variables printed with 1 and false to the others makes every clause
  true.
\<close>

theorem solve_sat_sound:
  assumes "wf_formula F" "solve n F = Some (SAT xs)"
  shows "formula_sat F (printed_model xs)"
  using assms by (rule solve_model)

theorem solve_sat_sound_witness:
  "formula_sat branch_cnf (printed_model [(1, 0), (2, 1), (3, 0)])"
  using solve_sat_sound [of branch_cnf 3 "[(1, 0), (2, 1), (3, 0)]"] branch_cnf_wf
  by (simp add: solve_def branch_run print_assignment_def) code_simp

text \<open>
  C12 (the program returns): on a well-formed formula the search started by
  \<open>main\<close> returns within the fuel \<open>V + 1\<close>, so that the model, which gives no
  result when the fuel runs out, gives one for every such formula.
\<close>

theorem solve_returns:
  assumes "wf_formula F"
  shows "\<exists>r. solve (nat (V F) + 1) F = Some r"
  using assms by (rule solve_total)

theorem solve_returns_witness: "\<exists>r. solve 4 chain_cnf = Some r"
  using solve_returns [of chain_cnf] chain_cnf_wf by (simp add: numeral_eq_Suc)

text \<open>
  C13 (the fuel does not matter): on a well-formed formula, every fuel above
  \<open>V\<close> gives the answer that the fuel \<open>V + 1\<close> gives: the bounded recursion of
  the model agrees with the unbounded one of the code.
\<close>

theorem solve_fuel_irrelevant:
  assumes "wf_formula F" "V F < int n"
  shows "solve n F = solve (nat (V F) + 1) F"
proof -
  from solve_total [OF assms(1)] obtain y
    where y: "dfs (nat (V F) + 1) F 0 (init_solver F) = Some y"
    by (auto simp: solve_def split: option.splits)
  from assms(2) wf_V [OF assms(1)] have "nat (V F) + 1 \<le> n" by linarith
  from dfs_mono [OF y this] y show ?thesis by (simp add: solve_def)
qed

theorem solve_fuel_irrelevant_witness: "solve 10 chain_cnf = solve 4 chain_cnf"
  using solve_fuel_irrelevant [of chain_cnf 10] chain_cnf_wf by (simp add: numeral_eq_Suc)

end
